(* ===== verification/Prelude.thy ===== *)
theory Prelude
  imports Main "HOL-Library.Word"
begin

text \<open>
  The prelude of the development: the types shared by the components, the result type of
  code that can abort, and the generic lemmas on words that the
  component theories use. Nothing here models a particular source file.

  \<^item> \<^verbatim>\<open>u64\<close>, \<^verbatim>\<open>u32\<close>, \<^verbatim>\<open>u8\<close> name the C integer types, kept at their width;
  \<^item> \<open>'a run\<close> is the outcome of a C routine: it returns, an \<^verbatim>\<open>assert\<close> or an
    \<^verbatim>\<open>exit\<close> stops it, or the fuel that bounds one of its loops runs out.
\<close>

unbundle bit_operations_syntax

named_theorems run_simps \<open>evaluation of the result monad\<close>

type_synonym u64 = "64 word"
type_synonym u32 = "32 word"
type_synonym u8 = "8 word"

section \<open>Outcomes of C routines\<close>

datatype 'a run = Ret 'a | Abort string | OutOfFuel

primrec bind_run :: "'a run \<Rightarrow> ('a \<Rightarrow> 'b run) \<Rightarrow> 'b run" where
  "bind_run (Ret x) f = f x"
| "bind_run (Abort m) f = Abort m"
| "bind_run OutOfFuel f = OutOfFuel"

definition assert_run :: "bool \<Rightarrow> string \<Rightarrow> unit run" where
  "assert_run b m = (if b then Ret () else Abort m)"

lemma bind_run_Ret_iff [run_simps]:
  "bind_run r f = Ret y \<longleftrightarrow> (\<exists>x. r = Ret x \<and> f x = Ret y)"
  by (cases r) auto

lemma assert_run_Ret_iff [run_simps]: "assert_run b m = Ret u \<longleftrightarrow> b"
  by (simp add: assert_run_def)

lemma assert_run_True [simp]: "assert_run True m = Ret ()"
  by (simp add: assert_run_def)

lemma bind_assert [simp]: "b \<Longrightarrow> bind_run (assert_run b m) f = f ()"
  by (simp add: assert_run_def)

lemma bind_run_cong [fundef_cong]:
  "r = r' \<Longrightarrow> (\<And>x. r' = Ret x \<Longrightarrow> f x = g x) \<Longrightarrow> bind_run r f = bind_run r' g"
  by (cases r') auto

text \<open>
  \<open>run_post P E r\<close>: the routine returns a value that satisfies \<open>P\<close>, or it stops and \<open>E\<close> holds; it
  does not run forever.
\<close>

definition run_post :: "('a \<Rightarrow> bool) \<Rightarrow> bool \<Rightarrow> 'a run \<Rightarrow> bool" where
  "run_post P E r \<longleftrightarrow> (case r of Ret x \<Rightarrow> P x | Abort m \<Rightarrow> E | OutOfFuel \<Rightarrow> False)"

lemma run_post_simps [simp]:
  "run_post P E (Ret x) = P x" "run_post P E (Abort m) = E" "run_post P E OutOfFuel = False"
  by (simp_all add: run_post_def)

lemma run_post_bind:
  assumes "run_post P E r" and "\<And>x. P x \<Longrightarrow> run_post Q E (f x)"
  shows "run_post Q E (bind_run r f)"
  using assms by (cases r) auto

lemma run_post_mono: "run_post P E r \<Longrightarrow> (\<And>x. P x \<Longrightarrow> Q x) \<Longrightarrow> (E \<Longrightarrow> E') \<Longrightarrow> run_post Q E' r"
  by (cases r) auto

section \<open>Words\<close>

text \<open>A word whose value is below a power of two has no bit at or above it.\<close>

lemma not_bit_above:
  fixes w :: "'a::len word"
  assumes "unat w < 2 ^ k" and "k \<le> n"
  shows "\<not> bit w n"
proof -
  have "unat w < 2 ^ n" using assms by (meson less_le_trans one_le_numeral power_increasing)
  then have "\<not> bit (unat w) n" by (simp add: bit_iff_odd)
  then show ?thesis by (simp add: bit_unsigned_iff)
qed

text \<open>
  A high field shifted over a low field: the shift back reads the high field, and a mask
  inside the low field does not see the high one.
\<close>

lemma drop_bit_pack:
  fixes d c :: u64
  assumes d: "unat d < 2 ^ (64 - k)" and c: "unat c < 2 ^ k" and k: "k \<le> 64"
  shows "drop_bit k (push_bit k d OR c) = d"
proof (rule bit_word_eqI)
  fix n assume n: "n < LENGTH(64)"
  have "\<not> bit c (k + n)" using c by (rule not_bit_above) simp
  moreover have "\<not> bit d n" if "64 - k \<le> n" using d that by (rule not_bit_above)
  then have "bit d n \<Longrightarrow> k + n < 64" by (metis k add.commute less_diff_conv not_le)
  ultimately show "bit (drop_bit k (push_bit k d OR c)) n = bit d n"
    using n by (auto simp: bit_simps)
qed

lemma and_pack:
  fixes d c m :: u64
  assumes "unat m < 2 ^ k"
  shows "(push_bit k d OR c) AND m = c AND m"
proof (rule bit_word_eqI)
  fix n assume "n < LENGTH(64)"
  moreover have "\<not> bit m n" if "k \<le> n" using assms that by (rule not_bit_above)
  ultimately show "bit ((push_bit k d OR c) AND m) n = bit (c AND m) n"
    by (auto simp: bit_simps)
qed

lemma unat_diff_word: "(q::u64) \<le> p \<Longrightarrow> unat (p - q) = unat p - unat q"
  by (simp add: unat_sub)

lemma unat_word_of_nat: "n < 2 ^ 64 \<Longrightarrow> unat (word_of_nat n :: u64) = n"
  by (simp add: unat_of_nat)

lemma unat_eqD: "unat (a::u64) = unat b \<Longrightarrow> a = b"
  by (metis word_unat_eq_iff)

end
