(* ===== verification/Pptr.thy ===== *)
theory Pptr
  imports Prelude
begin

text \<open>
  \<^verbatim>\<open>ralloc/src/pptr.hpp\<close>: the position independent pointers \<^verbatim>\<open>pptr<T>\<close> and
  \<^verbatim>\<open>atomic_pptr<T>\<close>. A pointer stored at address \<open>p\<close> holds the distance to its target,
  shifted left by 16 bits, over a 15 bit pattern and a sign bit. Addresses and offsets are
  64 bit words, so the arithmetic wraps as the compiled code's does.
\<close>

section \<open>Constants of pm\_config.hpp\<close>

definition PPTR_PATTERN_POS :: u64 where "PPTR_PATTERN_POS = 0x52b0"
definition PPTR_PATTERN_NEG :: u64 where "PPTR_PATTERN_NEG = 0x52b1"
definition PPTR_PATTERN_SHIFT :: nat where "PPTR_PATTERN_SHIFT = 16"
definition PPTR_PATTERN_MASK :: u64 where "PPTR_PATTERN_MASK = push_bit PPTR_PATTERN_SHIFT 1 - 2"

lemmas pptr_consts =
  PPTR_PATTERN_POS_def PPTR_PATTERN_NEG_def PPTR_PATTERN_SHIFT_def PPTR_PATTERN_MASK_def

section \<open>Encoding and decoding\<close>

definition is_null_pptr :: "u64 \<Rightarrow> bool" where
  "is_null_pptr off \<longleftrightarrow> off = PPTR_PATTERN_POS"

definition is_valid_pptr :: "u64 \<Rightarrow> bool" where
  "is_valid_pptr off \<longleftrightarrow> off AND PPTR_PATTERN_MASK = PPTR_PATTERN_POS"

definition to_pptr_off :: "u64 \<Rightarrow> u64 \<Rightarrow> u64" where
  "to_pptr_off v p =
     (if v = 0 then PPTR_PATTERN_POS
      else if v > p then push_bit PPTR_PATTERN_SHIFT (v - p) OR PPTR_PATTERN_POS
      else push_bit PPTR_PATTERN_SHIFT (p - v) OR PPTR_PATTERN_NEG)"

definition from_pptr_off :: "u64 \<Rightarrow> u64 \<Rightarrow> u64" where
  "from_pptr_off off p =
     (if \<not> is_valid_pptr off \<or> is_null_pptr off then 0
      else if off AND 1 \<noteq> 0 then p - drop_bit PPTR_PATTERN_SHIFT off
      else p + drop_bit PPTR_PATTERN_SHIFT off)"

section \<open>The pointer objects\<close>

text \<open>
  A \<^verbatim>\<open>pptr\<close> object is its address \<open>p\<close> and its field \<open>off\<close>; copying one reads the
  target relative to the source's address and encodes it relative to the destination's.
\<close>

definition pptr_assign :: "u64 \<Rightarrow> u64 \<Rightarrow> u64" where
  "pptr_assign this v = to_pptr_off v this"

definition pptr_copy :: "u64 \<Rightarrow> u64 \<Rightarrow> u64 \<Rightarrow> u64" where
  "pptr_copy this p off = (let v = from_pptr_off off p in to_pptr_off v this)"

definition pptr_eq :: "u64 \<Rightarrow> u64 \<Rightarrow> u64 \<Rightarrow> u64 \<Rightarrow> bool" where
  "pptr_eq p offp q offq \<longleftrightarrow> from_pptr_off offp p = from_pptr_off offq q"

definition atomic_pptr_load :: "u64 \<Rightarrow> u64 \<Rightarrow> u64" where
  "atomic_pptr_load this off = from_pptr_off off this"

definition atomic_pptr_store :: "u64 \<Rightarrow> u64 \<Rightarrow> u64" where
  "atomic_pptr_store this desired = to_pptr_off desired this"

text \<open>
  \<^verbatim>\<open>compare_exchange_strong\<close>: the comparison is on the encoded words; the result is
  the success flag, the new field and the caller's \<^verbatim>\<open>expected\<close> after the call.
\<close>

definition atomic_pptr_cas :: "u64 \<Rightarrow> u64 \<Rightarrow> u64 \<Rightarrow> u64 \<Rightarrow> bool \<times> u64 \<times> u64" where
  "atomic_pptr_cas this off expected desired =
     (let old_off = to_pptr_off expected this;
          new_off = to_pptr_off desired this
      in if off = old_off then (True, new_off, expected)
         else (False, off,
               if is_null_pptr off then 0 else from_pptr_off off this))"

section \<open>Lemmas\<close>

text \<open>
  The distance a \<^verbatim>\<open>pptr\<close> must be able to hold. Addresses of x86-64 user space are below
  \<open>2 ^ 48\<close>, so every pair of them is representable.
\<close>

definition pptr_dist :: "u64 \<Rightarrow> u64 \<Rightarrow> nat" where
  "pptr_dist v p = (if v > p then unat (v - p) else unat (p - v))"

definition user_addr :: "u64 \<Rightarrow> bool" where
  "user_addr a \<longleftrightarrow> unat a < 2 ^ 48"

lemma user_addr_dist: "user_addr v \<Longrightarrow> user_addr p \<Longrightarrow> pptr_dist v p < 2 ^ 48"
  by (auto simp: user_addr_def pptr_dist_def unat_diff_word not_less dest: less_imp_le)

lemma valid_to_pptr_off: "is_valid_pptr (to_pptr_off v p)"
proof -
  have *: "(push_bit 16 d OR c) AND 0xFFFE = c AND 0xFFFE" for d c :: u64
    by (rule and_pack) simp
  show ?thesis
    by (simp add: is_valid_pptr_def to_pptr_off_def pptr_consts *)
qed

lemma pack16_drop:
  "unat (d::u64) < 2 ^ 48 \<Longrightarrow> unat (c::u64) < 2 ^ 16 \<Longrightarrow> drop_bit 16 (push_bit 16 d OR c) = d"
  by (rule drop_bit_pack) simp_all

lemma pack16_sign: "(push_bit 16 (d::u64) OR c) AND 1 = c AND 1"
  by (rule and_pack) simp

lemma to_pptr_off_pos:
  assumes "v > p" and "pptr_dist v p < 2 ^ 48"
  shows "drop_bit 16 (to_pptr_off v p) = v - p" and "to_pptr_off v p AND 1 = 0"
proof -
  from assms(1) have v: "v \<noteq> 0" by auto
  with assms show "drop_bit 16 (to_pptr_off v p) = v - p"
    by (simp add: to_pptr_off_def pptr_consts pptr_dist_def del: drop_bit_or)
       (rule pack16_drop; simp)
  show "to_pptr_off v p AND 1 = 0"
    using assms v by (simp add: to_pptr_off_def pptr_consts pack16_sign)
qed

lemma to_pptr_off_neg:
  assumes "\<not> v > p" and "v \<noteq> 0" and "pptr_dist v p < 2 ^ 48"
  shows "drop_bit 16 (to_pptr_off v p) = p - v" and "to_pptr_off v p AND 1 = 1"
proof -
  show "drop_bit 16 (to_pptr_off v p) = p - v"
    using assms by (simp add: to_pptr_off_def pptr_consts pptr_dist_def del: drop_bit_or)
       (rule pack16_drop; simp)
  show "to_pptr_off v p AND 1 = 1"
    using assms by (simp add: to_pptr_off_def pptr_consts pack16_sign)
qed

lemma not_null_to_pptr_off:
  assumes "v \<noteq> 0" and "pptr_dist v p < 2 ^ 48"
  shows "\<not> is_null_pptr (to_pptr_off v p)"
proof
  assume n: "is_null_pptr (to_pptr_off v p)"
  show False
  proof (cases "v > p")
    case True
    with assms n have "v - p = 0"
      using to_pptr_off_pos(1)[of p v] by (simp add: is_null_pptr_def PPTR_PATTERN_POS_def)
    with True show False by simp
  next
    case False
    with assms n show False
      using to_pptr_off_neg(2)[of p v] by (simp add: is_null_pptr_def PPTR_PATTERN_POS_def)
  qed
qed

lemma from_to_pptr_off:
  assumes "pptr_dist v p < 2 ^ 48"
  shows "from_pptr_off (to_pptr_off v p) p = v"
proof (cases "v = 0")
  case True
  then show ?thesis by (simp add: from_pptr_off_def to_pptr_off_def is_null_pptr_def)
next
  case False
  with assms have "\<not> is_null_pptr (to_pptr_off v p)" by (rule not_null_to_pptr_off [rotated])
  then show ?thesis
    using assms False valid_to_pptr_off[of v p] to_pptr_off_pos[of p v] to_pptr_off_neg[of p v]
    by (cases "v > p") (simp_all add: from_pptr_off_def PPTR_PATTERN_SHIFT_def)
qed

lemma to_pptr_off_inj:
  assumes "pptr_dist v p < 2 ^ 48" and "pptr_dist w p < 2 ^ 48"
  shows "to_pptr_off v p = to_pptr_off w p \<longleftrightarrow> v = w"
  using from_to_pptr_off[OF assms(1)] from_to_pptr_off[OF assms(2)] by metis

section \<open>Properties\<close>

text \<open>
  C7. Storing a user-space pointer in a \<^verbatim>\<open>pptr\<close> (or \<^verbatim>\<open>atomic_pptr\<close>) at
  a user-space address and reading it back gives the pointer; the stored word always carries
  the pattern, and it is the null word only for the null pointer.
\<close>

theorem pptr_store_load:
  assumes "user_addr v" and "user_addr p"
  shows "from_pptr_off (to_pptr_off v p) p = v
    \<and> is_valid_pptr (to_pptr_off v p) \<and> (is_null_pptr (to_pptr_off v p) \<longleftrightarrow> v = 0)"
  using user_addr_dist[OF assms] from_to_pptr_off[of v p] valid_to_pptr_off[of v p]
    not_null_to_pptr_off[of v p]
  by (auto simp: is_null_pptr_def to_pptr_off_def)

theorem pptr_store_load_witness:
  "user_addr 0x7f0000001000 \<and> user_addr 0x7f0000002008 \<and>
   from_pptr_off (to_pptr_off 0x7f0000001000 0x7f0000002008) 0x7f0000002008 = 0x7f0000001000"
  using pptr_store_load[of "0x7f0000001000" "0x7f0000002008"] by (simp add: user_addr_def)

text \<open>
  C22. Position independence: when the memory that holds both a stored pointer
  and its target is mapped \<open>d\<close> bytes further, the same stored word denotes the moved target. A
  copied pointer is encoded again relative to its new place and keeps its target.
\<close>

theorem pptr_position_independent:
  assumes "user_addr v" and "user_addr p" and "v \<noteq> 0" and "user_addr q"
  shows "from_pptr_off (to_pptr_off v p) (p + d) = v + d
    \<and> from_pptr_off (pptr_copy q p (to_pptr_off v p)) q = v"
proof
  have d: "pptr_dist v p < 2 ^ 48" using assms(1,2) by (rule user_addr_dist)
  show "from_pptr_off (to_pptr_off v p) (p + d) = v + d"
    using not_null_to_pptr_off[OF assms(3) d] valid_to_pptr_off[of v p]
      to_pptr_off_pos[OF _ d] to_pptr_off_neg[OF _ assms(3) d]
    by (cases "v > p") (simp_all add: from_pptr_off_def PPTR_PATTERN_SHIFT_def)
  show "from_pptr_off (pptr_copy q p (to_pptr_off v p)) q = v"
    using from_to_pptr_off[OF d] from_to_pptr_off[OF user_addr_dist[OF assms(1,4)]]
    by (simp add: pptr_copy_def)
qed

theorem pptr_position_independent_witness:
  "user_addr 0x7f0000001000 \<and> user_addr 0x7f0000002008 \<and>
   from_pptr_off (to_pptr_off 0x7f0000001000 0x7f0000002008) (0x7f0000002008 + 0x10000)
     = 0x7f0000011000"
  using pptr_position_independent[of "0x7f0000001000" "0x7f0000002008" "0x7f0000003000" "0x10000"]
  by (simp add: user_addr_def)

end
