(* ===== verification/CrossPtr.thy ===== *)
theory CrossPtr
  imports Prelude
begin

text \<open>
  \<^verbatim>\<open>CrossPtr<T,idx>\<close> and \<^verbatim>\<open>AtomicCrossPtrCnt<T,idx>\<close> of
  \<^verbatim>\<open>ralloc/src/BaseMeta.hpp\<close> and \<^verbatim>\<open>BaseMeta.cpp\<close>: pointers into another region,
  stored as the offset from the start \<open>rb\<close> of that region, and the head words of the lock-free
  lists, which carry a counter above a 30 bit offset.
\<close>

section \<open>Translation between offsets and addresses\<close>

definition translate :: "u64 \<Rightarrow> u64 \<Rightarrow> u64" where
  "translate rb relative_address = rb + relative_address"

definition untranslate :: "u64 \<Rightarrow> u64 \<Rightarrow> u64" where
  "untranslate rb absolute_address = absolute_address - rb"

section \<open>CrossPtr\<close>

definition cross_construct :: "u64 \<Rightarrow> u64 \<Rightarrow> u64" where
  "cross_construct rb real_ptr = (if real_ptr = 0 then 0 else untranslate rb real_ptr)"

definition cross_is_null :: "u64 \<Rightarrow> bool" where
  "cross_is_null off \<longleftrightarrow> off = 0"

definition cross_cast :: "u64 \<Rightarrow> u64 \<Rightarrow> u64" where
  "cross_cast rb off = (if cross_is_null off then 0 else translate rb off)"

text \<open>The assignment from a pointer has no case for the null pointer.\<close>

definition cross_assign :: "u64 \<Rightarrow> u64 \<Rightarrow> u64" where
  "cross_assign rb p = untranslate rb p"

section \<open>AtomicCrossPtrCnt\<close>

definition MAX_DESC_AMOUNT_BITS :: nat where "MAX_DESC_AMOUNT_BITS = 24"
definition MAX_DESC_OFFSET_BITS :: nat where "MAX_DESC_OFFSET_BITS = MAX_DESC_AMOUNT_BITS + 6"
definition MAX_DESC_OFFSET_MASK :: u64 where
  "MAX_DESC_OFFSET_MASK = push_bit MAX_DESC_OFFSET_BITS 1 - 1"

record ptr_cnt =
  ptr :: u64
  cnt :: u64

definition ptr_cnt_set :: "u64 \<Rightarrow> u64 \<Rightarrow> ptr_cnt" where
  "ptr_cnt_set p c = \<lparr>ptr = p, cnt = c\<rparr>"

text \<open>The word a pointer and a counter are stored as: the constructor and \<^verbatim>\<open>store\<close>.\<close>

definition acp_word :: "u64 \<Rightarrow> ptr_cnt \<Rightarrow> u64" where
  "acp_word rb d =
     (let cnt_prefix = push_bit MAX_DESC_OFFSET_BITS (cnt d)
      in if ptr d = 0 then cnt_prefix else untranslate rb (ptr d) OR cnt_prefix)"

definition acp_construct :: "u64 \<Rightarrow> u64 \<Rightarrow> u64 \<Rightarrow> u64" where
  "acp_construct rb real_ptr counter = acp_word rb (ptr_cnt_set real_ptr counter)"

definition acp_store :: "u64 \<Rightarrow> ptr_cnt \<Rightarrow> u64" where
  "acp_store rb desired = acp_word rb desired"

definition acp_load :: "u64 \<Rightarrow> u64 \<Rightarrow> ptr_cnt" where
  "acp_load rb off =
     (let c = drop_bit MAX_DESC_OFFSET_BITS off;
          cur_off = off AND MAX_DESC_OFFSET_MASK
      in \<lparr>ptr = (if cur_off = 0 then 0 else translate rb cur_off), cnt = c\<rparr>)"

text \<open>
  \<^verbatim>\<open>compare_exchange_weak\<close> and \<^verbatim>\<open>compare_exchange_strong\<close> on the word \<open>off\<close>;
  \<open>spurious\<close> is a failure of the weak form although the words are equal. The result is the
  flag, the word after the call and the caller's \<^verbatim>\<open>expected\<close> after the call.
\<close>

definition acp_cas_weak :: "bool \<Rightarrow> u64 \<Rightarrow> u64 \<Rightarrow> ptr_cnt \<Rightarrow> ptr_cnt \<Rightarrow> bool \<times> u64 \<times> ptr_cnt" where
  "acp_cas_weak spurious rb off expected desired =
     (let old_off = acp_word rb expected;
          new_off = acp_word rb desired
      in if off = old_off \<and> \<not> spurious then (True, new_off, expected)
         else (False, off, acp_load rb off))"

definition acp_cas_strong :: "u64 \<Rightarrow> u64 \<Rightarrow> ptr_cnt \<Rightarrow> ptr_cnt \<Rightarrow> bool \<times> u64 \<times> ptr_cnt" where
  "acp_cas_strong rb off expected desired =
     (let old_off = acp_word rb expected;
          new_off = acp_word rb desired
      in if off = old_off then (True, new_off, expected)
         else (False, off, acp_load rb off))"

section \<open>Lemmas\<close>

text \<open>
  What a head can hold: a null pointer, or a pointer strictly inside the \<open>2 ^ 30\<close> bytes of
  descriptors above \<open>rb\<close>, and a counter of 34 bits.
\<close>

definition acp_fits :: "u64 \<Rightarrow> ptr_cnt \<Rightarrow> bool" where
  "acp_fits rb d \<longleftrightarrow>
     (ptr d = 0 \<or> 0 < unat (ptr d - rb) \<and> unat (ptr d - rb) < 2 ^ 30) \<and> unat (cnt d) < 2 ^ 34"

lemma acp_word_pack:
  "acp_word rb d = push_bit 30 (cnt d) OR (if ptr d = 0 then 0 else ptr d - rb)"
  by (simp add: acp_word_def MAX_DESC_OFFSET_BITS_def MAX_DESC_AMOUNT_BITS_def untranslate_def
      or.commute)

lemma low30_mask:
  assumes "unat (c :: u64) < 2 ^ 30"
  shows "(push_bit 30 d OR c) AND MAX_DESC_OFFSET_MASK = c"
proof -
  have m: "MAX_DESC_OFFSET_MASK = mask 30"
    by (simp add: MAX_DESC_OFFSET_MASK_def MAX_DESC_OFFSET_BITS_def MAX_DESC_AMOUNT_BITS_def
        mask_eq_exp_minus_1 push_bit_eq_mult)
  have "(push_bit 30 d OR c) AND mask 30 = c AND (mask 30 :: u64)"
    by (rule and_pack) (simp add: mask_eq_exp_minus_1)
  also have "\<dots> = c"
  proof (rule bit_word_eqI)
    fix n assume "n < LENGTH(64)"
    moreover have "bit c n \<Longrightarrow> n < 30" using not_bit_above[OF assms, of n] not_le by blast
    ultimately show "bit (c AND mask 30) n = bit c n" by (auto simp: bit_simps)
  qed
  finally show ?thesis by (simp add: m)
qed

lemma acp_load_word:
  assumes "acp_fits rb d"
  shows "acp_load rb (acp_word rb d) = d"
proof -
  let ?o = "if ptr d = 0 then 0 else ptr d - rb"
  have o: "unat ?o < 2 ^ 30" using assms by (auto simp: acp_fits_def)
  have "drop_bit 30 (acp_word rb d) = cnt d"
    unfolding acp_word_pack using o assms by (intro drop_bit_pack) (auto simp: acp_fits_def)
  moreover have "acp_word rb d AND MAX_DESC_OFFSET_MASK = ?o"
    unfolding acp_word_pack using o by (rule low30_mask)
  moreover have "?o = 0 \<longleftrightarrow> ptr d = 0" using assms by (auto simp: acp_fits_def)
  ultimately show ?thesis
    by (cases d) (auto simp: acp_load_def MAX_DESC_OFFSET_BITS_def MAX_DESC_AMOUNT_BITS_def
        translate_def)
qed

lemma acp_word_inj:
  "acp_fits rb d \<Longrightarrow> acp_fits rb e \<Longrightarrow> acp_word rb d = acp_word rb e \<longleftrightarrow> d = e"
  by (metis acp_load_word)

section \<open>Properties\<close>

text \<open>
  C19. A head of a lock-free list behaves as one cell holding a pointer and a counter: what
  is stored is loaded, the compare-and-swap succeeds exactly when both the pointer and the
  counter are the expected ones, and a failed one hands the caller the current pair.
\<close>

theorem acp_cas_atomic:
  assumes "acp_fits rb cur" and "acp_fits rb expected" and "acp_fits rb desired"
  shows "acp_load rb (acp_store rb cur) = cur
    \<and> (case acp_cas_strong rb (acp_store rb cur) expected desired of (ok, w, e) \<Rightarrow>
         ok = (cur = expected) \<and> acp_load rb w = (if ok then desired else cur)
         \<and> e = cur)
    \<and> acp_cas_weak False rb (acp_store rb cur) expected desired
        = acp_cas_strong rb (acp_store rb cur) expected desired
    \<and> acp_cas_weak True rb (acp_store rb cur) expected desired = (False, acp_store rb cur, cur)"
  using acp_word_inj[OF assms(1,2)] acp_load_word[OF assms(1)] acp_load_word[OF assms(3)]
  by (auto simp: acp_store_def acp_cas_strong_def acp_cas_weak_def)

theorem acp_cas_atomic_witness:
  "case acp_cas_strong 0x1000 (acp_store 0x1000 \<lparr>ptr = 0x1040, cnt = 7\<rparr>)
          \<lparr>ptr = 0x1040, cnt = 6\<rparr> \<lparr>ptr = 0, cnt = 8\<rparr> of
     (ok, w, e) \<Rightarrow> ok = False \<and> e = \<lparr>ptr = 0x1040, cnt = 7\<rparr>"
  using acp_cas_atomic[of "0x1000" "\<lparr>ptr = 0x1040, cnt = 7\<rparr>" "\<lparr>ptr = 0x1040, cnt = 6\<rparr>"
      "\<lparr>ptr = 0, cnt = 8\<rparr>"]
  by (simp add: acp_fits_def split: prod.splits)

end
