(* ===== verification/SizeClass.thy ===== *)
theory SizeClass
  imports Prelude
begin

text \<open>
  \<^verbatim>\<open>ralloc/src/SizeClass.hpp\<close> and \<^verbatim>\<open>SizeClass.cpp\<close>: the table of size classes and
  the lookup array that sends a request size to its class, with the constants of
  \<^verbatim>\<open>pm_config.hpp\<close> they use, and \<^verbatim>\<open>BaseMeta::compute_idx\<close>, whose switch is
  generated from the same table. Sizes and counts are naturals: no value here reaches 32 bits.
\<close>

section \<open>Constants\<close>

definition PAGESIZE :: nat where "PAGESIZE = 4096"
definition CACHELINE_SIZE :: nat where "CACHELINE_SIZE = 64"
definition MAX_SZ_IDX :: nat where "MAX_SZ_IDX = 40"
definition MAX_SZ :: nat where "MAX_SZ = 2 ^ 13 + 2 ^ 11 * 3"
definition SBSIZE :: nat where "SBSIZE = 16 * PAGESIZE"
definition SB_SHIFT :: nat where "SB_SHIFT = 16"

lemma SBSIZE_eq: "SBSIZE = 65536"
  by (simp add: SBSIZE_def PAGESIZE_def)

lemma SBSIZE_shift: "SBSIZE = 2 ^ SB_SHIFT"
  by (simp add: SBSIZE_eq SB_SHIFT_def)

section \<open>The table\<close>

text \<open>
  One row \<^verbatim>\<open>SC(index, lg_grp, lg_delta, ndelta, psz, bin, pgs, lg_delta_lookup)\<close> of the
  macro \<^verbatim>\<open>SIZE_CLASSES\<close>; the columns \<^verbatim>\<open>psz\<close>, \<^verbatim>\<open>pgs\<close> and
  \<^verbatim>\<open>lg_delta_lookup\<close> are used by no expansion of it. The rows with \<^verbatim>\<open>bin\<close> equal to
  \<^verbatim>\<open>no\<close> expand to nothing.
\<close>

datatype sc_row = SC (index: nat) (lg_grp: nat) (lg_delta: nat) (ndelta: nat) (bin: bool)

definition SIZE_CLASSES_bin :: "sc_row list" where
  "SIZE_CLASSES_bin =
    [
     SC 0 3 3 0 True, SC 1 3 3 1 True, SC 2 3 3 2 True, SC 3 3 3 3 True,
     SC 4 5 3 1 True, SC 5 5 3 2 True, SC 6 5 3 3 True, SC 7 5 3 4 True,
     SC 8 6 4 1 True, SC 9 6 4 2 True, SC 10 6 4 3 True, SC 11 6 4 4 True,
     SC 12 7 5 1 True, SC 13 7 5 2 True, SC 14 7 5 3 True, SC 15 7 5 4 True,
     SC 16 8 6 1 True, SC 17 8 6 2 True, SC 18 8 6 3 True, SC 19 8 6 4 True,
     SC 20 9 7 1 True, SC 21 9 7 2 True, SC 22 9 7 3 True, SC 23 9 7 4 True,
     SC 24 10 8 1 True, SC 25 10 8 2 True, SC 26 10 8 3 True, SC 27 10 8 4 True,
     SC 28 11 9 1 True, SC 29 11 9 2 True, SC 30 11 9 3 True, SC 31 11 9 4 True,
     SC 32 12 10 1 True, SC 33 12 10 2 True, SC 34 12 10 3 True, SC 35 12 10 4 True,
     SC 36 13 11 1 True, SC 37 13 11 2 True, SC 38 13 11 3 True
    ]"

definition SIZE_CLASSES_nobin1 :: "sc_row list" where
  "SIZE_CLASSES_nobin1 =
    [
     SC 39 13 11 4 False, SC 40 14 12 1 False, SC 41 14 12 2 False, SC 42 14 12 3 False,
     SC 43 14 12 4 False, SC 44 15 13 1 False, SC 45 15 13 2 False, SC 46 15 13 3 False,
     SC 47 15 13 4 False, SC 48 16 14 1 False, SC 49 16 14 2 False, SC 50 16 14 3 False,
     SC 51 16 14 4 False, SC 52 17 15 1 False, SC 53 17 15 2 False, SC 54 17 15 3 False,
     SC 55 17 15 4 False, SC 56 18 16 1 False, SC 57 18 16 2 False, SC 58 18 16 3 False,
     SC 59 18 16 4 False, SC 60 19 17 1 False, SC 61 19 17 2 False, SC 62 19 17 3 False,
     SC 63 19 17 4 False, SC 64 20 18 1 False, SC 65 20 18 2 False, SC 66 20 18 3 False,
     SC 67 20 18 4 False, SC 68 21 19 1 False, SC 69 21 19 2 False, SC 70 21 19 3 False,
     SC 71 21 19 4 False, SC 72 22 20 1 False, SC 73 22 20 2 False, SC 74 22 20 3 False,
     SC 75 22 20 4 False, SC 76 23 21 1 False, SC 77 23 21 2 False, SC 78 23 21 3 False,
     SC 79 23 21 4 False, SC 80 24 22 1 False, SC 81 24 22 2 False, SC 82 24 22 3 False,
     SC 83 24 22 4 False, SC 84 25 23 1 False, SC 85 25 23 2 False, SC 86 25 23 3 False,
     SC 87 25 23 4 False, SC 88 26 24 1 False, SC 89 26 24 2 False, SC 90 26 24 3 False,
     SC 91 26 24 4 False, SC 92 27 25 1 False, SC 93 27 25 2 False, SC 94 27 25 3 False,
     SC 95 27 25 4 False, SC 96 28 26 1 False, SC 97 28 26 2 False, SC 98 28 26 3 False,
     SC 99 28 26 4 False, SC 100 29 27 1 False, SC 101 29 27 2 False, SC 102 29 27 3 False,
     SC 103 29 27 4 False, SC 104 30 28 1 False, SC 105 30 28 2 False, SC 106 30 28 3 False,
     SC 107 30 28 4 False, SC 108 31 29 1 False, SC 109 31 29 2 False, SC 110 31 29 3 False,
     SC 111 31 29 4 False, SC 112 32 30 1 False, SC 113 32 30 2 False, SC 114 32 30 3 False,
     SC 115 32 30 4 False, SC 116 33 31 1 False, SC 117 33 31 2 False, SC 118 33 31 3 False,
     SC 119 33 31 4 False, SC 120 34 32 1 False, SC 121 34 32 2 False, SC 122 34 32 3 False,
     SC 123 34 32 4 False, SC 124 35 33 1 False, SC 125 35 33 2 False, SC 126 35 33 3 False,
     SC 127 35 33 4 False, SC 128 36 34 1 False, SC 129 36 34 2 False, SC 130 36 34 3 False,
     SC 131 36 34 4 False, SC 132 37 35 1 False, SC 133 37 35 2 False, SC 134 37 35 3 False,
     SC 135 37 35 4 False, SC 136 38 36 1 False
    ]"

definition SIZE_CLASSES_nobin2 :: "sc_row list" where
  "SIZE_CLASSES_nobin2 =
    [
     SC 137 38 36 2 False, SC 138 38 36 3 False, SC 139 38 36 4 False, SC 140 39 37 1 False,
     SC 141 39 37 2 False, SC 142 39 37 3 False, SC 143 39 37 4 False, SC 144 40 38 1 False,
     SC 145 40 38 2 False, SC 146 40 38 3 False, SC 147 40 38 4 False, SC 148 41 39 1 False,
     SC 149 41 39 2 False, SC 150 41 39 3 False, SC 151 41 39 4 False, SC 152 42 40 1 False,
     SC 153 42 40 2 False, SC 154 42 40 3 False, SC 155 42 40 4 False, SC 156 43 41 1 False,
     SC 157 43 41 2 False, SC 158 43 41 3 False, SC 159 43 41 4 False, SC 160 44 42 1 False,
     SC 161 44 42 2 False, SC 162 44 42 3 False, SC 163 44 42 4 False, SC 164 45 43 1 False,
     SC 165 45 43 2 False, SC 166 45 43 3 False, SC 167 45 43 4 False, SC 168 46 44 1 False,
     SC 169 46 44 2 False, SC 170 46 44 3 False, SC 171 46 44 4 False, SC 172 47 45 1 False,
     SC 173 47 45 2 False, SC 174 47 45 3 False, SC 175 47 45 4 False, SC 176 48 46 1 False,
     SC 177 48 46 2 False, SC 178 48 46 3 False, SC 179 48 46 4 False, SC 180 49 47 1 False,
     SC 181 49 47 2 False, SC 182 49 47 3 False, SC 183 49 47 4 False, SC 184 50 48 1 False,
     SC 185 50 48 2 False, SC 186 50 48 3 False, SC 187 50 48 4 False, SC 188 51 49 1 False,
     SC 189 51 49 2 False, SC 190 51 49 3 False, SC 191 51 49 4 False, SC 192 52 50 1 False,
     SC 193 52 50 2 False, SC 194 52 50 3 False, SC 195 52 50 4 False, SC 196 53 51 1 False,
     SC 197 53 51 2 False, SC 198 53 51 3 False, SC 199 53 51 4 False, SC 200 54 52 1 False,
     SC 201 54 52 2 False, SC 202 54 52 3 False, SC 203 54 52 4 False, SC 204 55 53 1 False,
     SC 205 55 53 2 False, SC 206 55 53 3 False, SC 207 55 53 4 False, SC 208 56 54 1 False,
     SC 209 56 54 2 False, SC 210 56 54 3 False, SC 211 56 54 4 False, SC 212 57 55 1 False,
     SC 213 57 55 2 False, SC 214 57 55 3 False, SC 215 57 55 4 False, SC 216 58 56 1 False,
     SC 217 58 56 2 False, SC 218 58 56 3 False, SC 219 58 56 4 False, SC 220 59 57 1 False,
     SC 221 59 57 2 False, SC 222 59 57 3 False, SC 223 59 57 4 False, SC 224 60 58 1 False,
     SC 225 60 58 2 False, SC 226 60 58 3 False, SC 227 60 58 4 False, SC 228 61 59 1 False,
     SC 229 61 59 2 False, SC 230 61 59 3 False, SC 231 61 59 4 False, SC 232 62 60 1 False,
     SC 233 62 60 2 False, SC 234 62 60 3 False
    ]"

definition SIZE_CLASSES :: "sc_row list" where
  "SIZE_CLASSES = SIZE_CLASSES_bin @ SIZE_CLASSES_nobin1 @ SIZE_CLASSES_nobin2"

definition row_block_size :: "sc_row \<Rightarrow> nat" where
  "row_block_size r = 2 ^ lg_grp r + ndelta r * 2 ^ lg_delta r"

record SizeClassData =
  block_size :: nat
  sb_size :: nat
  block_num :: nat
  cache_block_num :: nat

definition SIZE_CLASS_bin_yes :: "nat \<Rightarrow> SizeClassData" where
  "SIZE_CLASS_bin_yes bs =
     \<lparr>block_size = bs, sb_size = SBSIZE, block_num = SBSIZE div bs,
      cache_block_num = SBSIZE div bs\<rparr>"

text \<open>\<^verbatim>\<open>SizeClass::sizeclasses\<close>: entry 0 is reserved for large allocations.\<close>

definition sizeclasses :: "SizeClassData list" where
  "sizeclasses =
     \<lparr>block_size = 0, sb_size = 0, block_num = 0, cache_block_num = 0\<rparr> #
     map (\<lambda>r. SIZE_CLASS_bin_yes (row_block_size r)) (filter bin SIZE_CLASSES)"

definition get_sizeclass_by_idx :: "nat \<Rightarrow> SizeClassData" where
  "get_sizeclass_by_idx idx = sizeclasses ! idx"

section \<open>The lookup array\<close>

text \<open>
  The two nested loops of the constructor. The array is a function from indices; the state
  is \<^verbatim>\<open>lookupIdx\<close> and the array.
\<close>

function fill_lookup :: "nat \<Rightarrow> nat \<Rightarrow> nat \<times> (nat \<Rightarrow> nat) \<Rightarrow> nat \<times> (nat \<Rightarrow> nat)" where
  "fill_lookup bs sc_idx (lookupIdx, lookup) =
     (if lookupIdx \<le> bs
      then fill_lookup bs sc_idx (lookupIdx + 1, lookup(lookupIdx := sc_idx))
      else (lookupIdx, lookup))"
  by pat_completeness auto
termination
  by (relation "measure (\<lambda>(bs, sc, (i, l)). Suc bs - i)") auto

declare fill_lookup.simps [simp del]

definition build_lookup :: "nat \<times> (nat \<Rightarrow> nat)" where
  "build_lookup =
     fold (\<lambda>sc_idx st. fill_lookup (block_size (sizeclasses ! sc_idx)) sc_idx st)
       [1..<MAX_SZ_IDX] (0, \<lambda>_. 0)"

definition get_sizeclass :: "nat \<Rightarrow> nat" where
  "get_sizeclass sz = snd build_lookup sz"

section \<open>BaseMeta::compute\_idx\<close>

text \<open>
  The switch has one case per row with \<^verbatim>\<open>bin\<close>, labelled \<^verbatim>\<open>index + 1\<close>; the
  divisor is the constant of that case. The assertions are those of the source.
\<close>

definition compute_idx :: "nat \<Rightarrow> nat \<Rightarrow> nat \<Rightarrow> nat run" where
  "compute_idx superblock block sc_idx =
     (let sc = get_sizeclass_by_idx sc_idx;
          sc_block_size = block_size sc
      in bind_run (assert_run (superblock \<le> block) ''block >= superblock'') (\<lambda>_.
         bind_run (assert_run (block < superblock + sb_size sc) ''block < superblock + sb_size'') (\<lambda>_.
         let diff = block - superblock in
         case find (\<lambda>r. bin r \<and> index r + 1 = sc_idx) SIZE_CLASSES of
           None \<Rightarrow> Abort ''default''
         | Some r \<Rightarrow>
             bind_run (assert_run (sc_block_size = row_block_size r) ''sc_block_size == block_size'') (\<lambda>_.
             let idx = diff div row_block_size r in
             bind_run (assert_run (diff div sc_block_size = idx) ''diff / sc_block_size == idx'') (\<lambda>_.
             Ret idx)))))"

section \<open>Facts of the table\<close>

lemma filter_bin_table: "filter bin SIZE_CLASSES = SIZE_CLASSES_bin"
  by (simp add: SIZE_CLASSES_def SIZE_CLASSES_bin_def SIZE_CLASSES_nobin1_def
      SIZE_CLASSES_nobin2_def)

abbreviation bs_of :: "nat \<Rightarrow> nat" where
  "bs_of c \<equiv> block_size (get_sizeclass_by_idx c)"

abbreviation bn_of :: "nat \<Rightarrow> nat" where
  "bn_of c \<equiv> block_num (get_sizeclass_by_idx c)"

definition class_sizes :: "nat list" where
  "class_sizes = [0, 8, 16, 24, 32, 40, 48, 56, 64, 80, 96, 112, 128, 160, 192, 224, 256,
     320, 384, 448, 512, 640, 768, 896, 1024, 1280, 1536, 1792, 2048, 2560, 3072, 3584, 4096,
     5120, 6144, 7168, 8192, 10240, 12288, 14336]"

lemma length_sizeclasses: "length sizeclasses = MAX_SZ_IDX"
  by (simp add: sizeclasses_def filter_bin_table SIZE_CLASSES_bin_def MAX_SZ_IDX_def)

lemma map_block_size: "map block_size sizeclasses = class_sizes"
  by (simp add: sizeclasses_def filter_bin_table SIZE_CLASSES_bin_def SIZE_CLASS_bin_yes_def
      row_block_size_def class_sizes_def)

lemma bs_of_nth: "c < MAX_SZ_IDX \<Longrightarrow> bs_of c = class_sizes ! c"
  by (metis get_sizeclass_by_idx_def length_sizeclasses map_block_size nth_map)

lemma class_data:
  assumes "1 \<le> c" and "c < MAX_SZ_IDX"
  shows "sb_size (get_sizeclass_by_idx c) = SBSIZE"
    and "bn_of c = SBSIZE div bs_of c"
    and "cache_block_num (get_sizeclass_by_idx c) = SBSIZE div bs_of c"
proof -
  obtain k where k: "c = Suc k" using assms(1) by (cases c) auto
  with assms(2) length_sizeclasses have "k < length (filter bin SIZE_CLASSES)"
    by (simp add: sizeclasses_def)
  with k have "get_sizeclass_by_idx c = SIZE_CLASS_bin_yes (row_block_size (filter bin SIZE_CLASSES ! k))"
    by (simp add: get_sizeclass_by_idx_def sizeclasses_def)
  then show "sb_size (get_sizeclass_by_idx c) = SBSIZE" "bn_of c = SBSIZE div bs_of c"
    "cache_block_num (get_sizeclass_by_idx c) = SBSIZE div bs_of c"
    by (simp_all add: SIZE_CLASS_bin_yes_def)
qed

text \<open>Facts checked class by class.\<close>

lemma class_sizes_check:
  "list_all (\<lambda>b. 8 \<le> b \<and> b mod 8 = 0 \<and> b \<le> 14336 \<and> 4 \<le> 65536 div b) (tl class_sizes)"
  by (simp add: class_sizes_def)

lemma class_sizes_sorted: "sorted_wrt (<) class_sizes"
  by (simp add: class_sizes_def)

lemma length_class_sizes: "length class_sizes = MAX_SZ_IDX"
  by (simp add: class_sizes_def MAX_SZ_IDX_def)

lemma MAX_SZ_val: "MAX_SZ = 14336"
  by (simp add: MAX_SZ_def)

lemma bs_of_facts:
  assumes "1 \<le> c" and "c < MAX_SZ_IDX"
  shows "8 \<le> bs_of c" and "bs_of c mod 8 = 0" and "bs_of c \<le> MAX_SZ" and "4 \<le> bn_of c"
proof -
  obtain k where k: "c = Suc k" using assms(1) by (cases c) auto
  then have "k < length (tl class_sizes)" using assms(2) by (simp add: length_class_sizes)
  then have "tl class_sizes ! k \<in> set (tl class_sizes)" by (rule nth_mem)
  with class_sizes_check
  have f: "8 \<le> tl class_sizes ! k \<and> tl class_sizes ! k mod 8 = 0 \<and> tl class_sizes ! k \<le> 14336 \<and>
      4 \<le> 65536 div (tl class_sizes ! k)"
    unfolding list_all_iff by (rule bspec)
  have e: "tl class_sizes ! k = bs_of c"
    using assms(2) k \<open>k < length (tl class_sizes)\<close> by (simp only: bs_of_nth nth_tl)
  show "8 \<le> bs_of c" "bs_of c mod 8 = 0" "bs_of c \<le> MAX_SZ" "4 \<le> bn_of c"
    using f class_data(2)[OF assms] unfolding e by (simp_all only: MAX_SZ_val SBSIZE_eq)
qed

lemma bs_of_mono: "c < d \<Longrightarrow> d < MAX_SZ_IDX \<Longrightarrow> bs_of c < bs_of d"
  using class_sizes_sorted by (simp add: bs_of_nth sorted_wrt_nth_less length_class_sizes)

lemma bs_of_last: "bs_of (MAX_SZ_IDX - 1) = MAX_SZ"
  by (simp add: bs_of_nth MAX_SZ_IDX_def class_sizes_def MAX_SZ_def)

lemma blocks_fit:
  assumes "1 \<le> c" and "c < MAX_SZ_IDX"
  shows "bn_of c * bs_of c \<le> SBSIZE"
  by (simp add: class_data(2)[OF assms])

section \<open>The lookup loop\<close>

lemma fill_lookup_eq:
  "fill_lookup bs sc (i, l) =
     (max i (Suc bs), \<lambda>n. if i \<le> n \<and> n \<le> bs then sc else l n)"
proof (induction bs sc "(i, l)" arbitrary: i l rule: fill_lookup.induct)
  case (1 bs sc i l)
  show ?case
  proof (cases "i \<le> bs")
    case True
    with "1"[OF True] show ?thesis
      by (subst fill_lookup.simps) (auto simp: fun_eq_iff max_def)
  next
    case False
    then show ?thesis by (subst fill_lookup.simps) (auto simp: fun_eq_iff max_def)
  qed
qed

lemma build_lookup_inv:
  assumes "k < MAX_SZ_IDX"
  shows "\<exists>l. fold (\<lambda>c st. fill_lookup (block_size (sizeclasses ! c)) c st) [1..<Suc k] (0, \<lambda>_. 0)
           = (if k = 0 then 0 else Suc (bs_of k), l)
         \<and> (\<forall>n\<le>bs_of k. k \<noteq> 0 \<longrightarrow> 1 \<le> l n \<and> l n \<le> k \<and> n \<le> bs_of (l n) \<and>
               (\<forall>c. 1 \<le> c \<and> c < l n \<longrightarrow> bs_of c < n))"
  using assms
proof (induction k)
  case 0
  then show ?case by simp
next
  case (Suc k)
  then obtain l where l: "fold (\<lambda>c st. fill_lookup (block_size (sizeclasses ! c)) c st) [1..<Suc k] (0, \<lambda>_. 0)
           = (if k = 0 then 0 else Suc (bs_of k), l)"
    and inv: "\<And>n. n \<le> bs_of k \<Longrightarrow> k \<noteq> 0 \<Longrightarrow> 1 \<le> l n \<and> l n \<le> k \<and> n \<le> bs_of (l n) \<and>
               (\<forall>c. 1 \<le> c \<and> c < l n \<longrightarrow> bs_of c < n)"
    by auto
  let ?i = "if k = 0 then 0 else Suc (bs_of k)"
  let ?l = "\<lambda>n. if ?i \<le> n \<and> n \<le> bs_of (Suc k) then Suc k else l n"
  have lt: "k \<noteq> 0 \<Longrightarrow> bs_of k < bs_of (Suc k)" using bs_of_mono[of k "Suc k"] Suc.prems by simp
  have mono: "bs_of c \<le> bs_of k" if "c \<le> k" for c
    using bs_of_mono[of c k] that Suc.prems by (cases "c = k") auto
  have "fold (\<lambda>c st. fill_lookup (block_size (sizeclasses ! c)) c st) [1..<Suc (Suc k)] (0, \<lambda>_. 0)
      = fill_lookup (bs_of (Suc k)) (Suc k) (?i, l)"
    using l by (simp add: get_sizeclass_by_idx_def)
  also have "\<dots> = (Suc (bs_of (Suc k)), ?l)"
    using lt less_imp_le by (subst fill_lookup_eq) (auto simp: max_def)
  finally have eq: "fold (\<lambda>c st. fill_lookup (block_size (sizeclasses ! c)) c st) [1..<Suc (Suc k)] (0, \<lambda>_. 0)
      = (Suc (bs_of (Suc k)), ?l)" .
  have "1 \<le> ?l n \<and> ?l n \<le> Suc k \<and> n \<le> bs_of (?l n) \<and> (\<forall>c. 1 \<le> c \<and> c < ?l n \<longrightarrow> bs_of c < n)"
    if n: "n \<le> bs_of (Suc k)" for n
  proof (cases "?i \<le> n")
    case True
    have "bs_of c < n" if "1 \<le> c" "c < Suc k" for c
      using that True mono[of c] by (cases "k = 0") auto
    then show ?thesis using n True by simp
  next
    case False
    then have k: "k \<noteq> 0" "n \<le> bs_of k" by (simp_all split: if_splits)
    have l: "?l n = l n" by (rule if_not_P) (use False in blast)
    from inv[OF k(2,1)] show ?thesis unfolding l by simp
  qed
  then show ?case unfolding eq by (intro exI[of _ ?l]) simp
qed

lemma get_sizeclass_spec:
  assumes "sz \<le> MAX_SZ"
  shows "1 \<le> get_sizeclass sz" and "get_sizeclass sz < MAX_SZ_IDX"
    and "sz \<le> bs_of (get_sizeclass sz)"
    and "\<And>c. 1 \<le> c \<Longrightarrow> c < get_sizeclass sz \<Longrightarrow> bs_of c < sz"
proof -
  have last: "Suc (MAX_SZ_IDX - 1) = MAX_SZ_IDX" "MAX_SZ_IDX - 1 < MAX_SZ_IDX" "MAX_SZ_IDX - 1 \<noteq> 0"
    by (simp_all add: MAX_SZ_IDX_def)
  obtain l where
    b: "build_lookup = (Suc MAX_SZ, l)" and
    inv: "\<forall>n\<le>MAX_SZ. 1 \<le> l n \<and> l n \<le> MAX_SZ_IDX - 1 \<and> n \<le> bs_of (l n) \<and>
               (\<forall>c. 1 \<le> c \<and> c < l n \<longrightarrow> bs_of c < n)"
    using build_lookup_inv[OF last(2)] last(3)
    unfolding build_lookup_def bs_of_last last(1) by auto
  from inv assms show "1 \<le> get_sizeclass sz" "sz \<le> bs_of (get_sizeclass sz)"
      "\<And>c. 1 \<le> c \<Longrightarrow> c < get_sizeclass sz \<Longrightarrow> bs_of c < sz"
    by (auto simp: get_sizeclass_def b)
  from inv assms have "l sz \<le> MAX_SZ_IDX - 1" by auto
  then show "get_sizeclass sz < MAX_SZ_IDX" by (simp add: get_sizeclass_def b MAX_SZ_IDX_def)
qed

section \<open>compute\_idx\<close>

lemma find_append_first: "find P xs = Some x \<Longrightarrow> find P (xs @ ys) = Some x"
  by (induction xs) (auto split: if_splits)

lemma find_index:
  "map index xs = [k..<k + length xs] \<Longrightarrow> list_all bin xs \<Longrightarrow> i < length xs \<Longrightarrow>
   find (\<lambda>r. bin r \<and> index r + 1 = Suc (k + i)) xs = Some (xs ! i)"
proof (induction xs arbitrary: k i)
  case Nil
  then show ?case by simp
next
  case (Cons x xs)
  from Cons.prems(1) have x: "index x = k" "map index xs = [Suc k..<Suc k + length xs]"
    by (simp_all add: upt_conv_Cons del: upt_Suc)
  show ?case
  proof (cases i)
    case 0
    then show ?thesis using x Cons.prems by simp
  next
    case (Suc j)
    then show ?thesis using Cons.IH[of "Suc k" j] x Cons.prems by simp
  qed
qed

lemma find_row:
  assumes "1 \<le> c" and "c < MAX_SZ_IDX"
  shows "\<exists>r. find (\<lambda>r. bin r \<and> index r + 1 = c) SIZE_CLASSES = Some r \<and> row_block_size r = bs_of c"
proof -
  obtain k where k: "c = Suc k" using assms(1) by (cases c) auto
  have len: "length SIZE_CLASSES_bin = 39" by (simp add: SIZE_CLASSES_bin_def)
  have "map index SIZE_CLASSES_bin = [0..<39]"
    by code_simp
  moreover have "list_all bin SIZE_CLASSES_bin" by (simp add: SIZE_CLASSES_bin_def)
  moreover have k39: "k < 39" using k assms(2) by (simp add: MAX_SZ_IDX_def)
  ultimately have "find (\<lambda>r. bin r \<and> index r + 1 = c) SIZE_CLASSES_bin = Some (SIZE_CLASSES_bin ! k)"
    using find_index[of SIZE_CLASSES_bin 0 k] k len by simp
  then have "find (\<lambda>r. bin r \<and> index r + 1 = c) SIZE_CLASSES = Some (SIZE_CLASSES_bin ! k)"
    unfolding SIZE_CLASSES_def by (rule find_append_first)
  moreover have "bs_of c = row_block_size (SIZE_CLASSES_bin ! k)"
    using k len k39 by (simp add: get_sizeclass_by_idx_def sizeclasses_def filter_bin_table
        SIZE_CLASS_bin_yes_def)
  ultimately show ?thesis by simp
qed

lemma compute_idx_Ret:
  assumes "1 \<le> c" and "c < MAX_SZ_IDX" and "sb \<le> b" and "b < sb + SBSIZE"
  shows "compute_idx sb b c = Ret ((b - sb) div bs_of c)"
  using find_row[OF assms(1,2)] assms(3,4) class_data(1)[OF assms(1,2)]
  by (auto simp: compute_idx_def)

lemma class_gap_check:
  "list_all (\<lambda>(a, b). b \<le> a + 1 + max 7 ((a + 1) div 4)) (zip class_sizes (tl class_sizes))"
  by (simp add: class_sizes_def)

lemma bs_of_gap:
  assumes "Suc c < MAX_SZ_IDX"
  shows "bs_of (Suc c) \<le> bs_of c + 1 + max 7 ((bs_of c + 1) div 4)"
proof -
  have "zip class_sizes (tl class_sizes) ! c = (bs_of c, bs_of (Suc c))"
    using assms by (simp add: bs_of_nth nth_tl length_class_sizes)
  moreover have "c < length (zip class_sizes (tl class_sizes))"
    using assms by (simp add: length_class_sizes)
  ultimately have "(bs_of c, bs_of (Suc c)) \<in> set (zip class_sizes (tl class_sizes))"
    by (metis nth_mem)
  with class_gap_check show ?thesis unfolding list_all_iff by fast
qed

section \<open>Properties\<close>

text \<open>
  C20. Every request up to \<^verbatim>\<open>MAX_SZ\<close> is sent to the smallest size class whose blocks
  hold it, and the waste of the chosen class is at most a quarter of the request (or 8 bytes).
\<close>

theorem sizeclass_best_fit:
  assumes "sz \<le> MAX_SZ"
  shows "1 \<le> get_sizeclass sz \<and> get_sizeclass sz < MAX_SZ_IDX \<and> sz \<le> bs_of (get_sizeclass sz)
    \<and> (\<forall>c. 1 \<le> c \<longrightarrow> c < MAX_SZ_IDX \<longrightarrow> sz \<le> bs_of c \<longrightarrow> get_sizeclass sz \<le> c)
    \<and> bs_of (get_sizeclass sz) \<le> sz + max 8 (sz div 4)"
proof -
  note g = get_sizeclass_spec[OF assms]
  have least: "\<forall>c. 1 \<le> c \<longrightarrow> c < MAX_SZ_IDX \<longrightarrow> sz \<le> bs_of c \<longrightarrow> get_sizeclass sz \<le> c"
    using g(4) by (meson not_le)
  obtain c where c: "get_sizeclass sz = Suc c" using g(1) by (cases "get_sizeclass sz") auto
  have "bs_of (Suc c) \<le> sz + max 8 (sz div 4)"
  proof (cases "c = 0")
    case True
    have "bs_of (Suc 0) = 8" by (simp add: bs_of_nth MAX_SZ_IDX_def class_sizes_def)
    then show ?thesis using True by (simp add: max_def)
  next
    case False
    then have "bs_of c + 1 \<le> sz" using g(4)[of c] c by simp
    moreover from this have "(bs_of c + 1) div 4 \<le> sz div 4" by (rule div_le_mono)
    ultimately show ?thesis using bs_of_gap[of c] g(2) c by (simp add: max_def split: if_splits)
  qed
  with g(1-3) least show ?thesis by (simp add: c)
qed

theorem sizeclass_best_fit_witness:
  "(100::nat) \<le> MAX_SZ \<and> 100 \<le> bs_of (get_sizeclass 100) \<and> bs_of (get_sizeclass 100) \<le> 125"
  using sizeclass_best_fit[of 100] by (simp add: MAX_SZ_val)

text \<open>
  C21. A superblock of a class holds \<^verbatim>\<open>block_num\<close> blocks inside its 64K, and
  \<^verbatim>\<open>compute_idx\<close> gives the number of the block an address lies in, with no assertion failing.
\<close>

theorem compute_idx_inverse:
  assumes "1 \<le> c" and "c < MAX_SZ_IDX" and "k < bn_of c" and "o' < bs_of c"
  shows "sb + k * bs_of c + bs_of c \<le> sb + SBSIZE
    \<and> compute_idx sb (sb + k * bs_of c + o') c = Ret k"
proof -
  have "Suc k * bs_of c \<le> bn_of c * bs_of c" using assms(3) by (intro mult_le_mono) auto
  then have le: "k * bs_of c + bs_of c \<le> SBSIZE"
    using blocks_fit[OF assms(1,2)] by (simp add: add.commute)
  have "compute_idx sb (sb + (k * bs_of c + o')) c = Ret ((k * bs_of c + o') div bs_of c)"
    using le assms compute_idx_Ret[of c sb "sb + (k * bs_of c + o')"] by simp
  also have "(k * bs_of c + o') div bs_of c = k" using assms(4) by simp
  finally show ?thesis using le by (simp add: add.assoc)
qed

theorem compute_idx_inverse_witness:
  "compute_idx 0x10000 (0x10000 + 3 * bs_of 5 + 1) 5 = Ret 3"
  using compute_idx_inverse[of 5 3 1 "0x10000"] bs_of_facts[of 5] by (simp add: MAX_SZ_IDX_def)

end
