(* ===== verification/Region.thy ===== *)
theory Region
  imports Pptr CrossPtr SizeClass
begin

text \<open>
  \<^verbatim>\<open>ralloc/src/RegionManager.hpp\<close> and \<^verbatim>\<open>RegionManager.cpp\<close>: a region is a mapped
  file whose first page holds the end of the used part (an \<^verbatim>\<open>atomic_pptr\<close>), the offset of
  the heap and the file size. The address \<^verbatim>\<open>mmap\<close> returns is an argument of the
  definitions that map a file. The system calls that only report an error through an
  assertion are not modelled; flushes write no value and are left out.
\<close>

section \<open>A region and its file header\<close>

record RegionFile =
  f_curr_addr :: u64
  f_heap_start :: u64
  f_size :: u64

record RegionManager =
  FILESIZE :: u64
  base_addr :: u64
  header :: RegionFile

definition PAGESIZE64 :: u64 where "PAGESIZE64 = 4096"
definition CACHELINE_SIZE64 :: u64 where "CACHELINE_SIZE64 = 64"

definition rm_filesize :: "u64 \<Rightarrow> u64" where
  "rm_filesize sz = (sz div PAGESIZE64 + 2) * PAGESIZE64"

definition rm_curr_addr :: "RegionManager \<Rightarrow> u64" where
  "rm_curr_addr r = atomic_pptr_load (base_addr r) (f_curr_addr (header r))"

definition map_persistent_region :: "u64 \<Rightarrow> u64 \<Rightarrow> RegionFile \<Rightarrow> RegionManager" where
  "map_persistent_region filesize addr f0 =
     \<lparr>FILESIZE = filesize, base_addr = addr,
      header = f0\<lparr>f_curr_addr := atomic_pptr_store addr (addr + PAGESIZE64), f_size := filesize\<rparr>\<rparr>"

definition remap_persistent_region :: "u64 \<Rightarrow> u64 \<Rightarrow> RegionFile \<Rightarrow> RegionManager run" where
  "remap_persistent_region filesize addr f0 =
     bind_run (assert_run (f_size f0 = filesize) ''size == FILESIZE'') (\<lambda>_.
     Ret \<lparr>FILESIZE = filesize, base_addr = addr, header = f0\<rparr>)"

text \<open>The transient variants differ in the \<^verbatim>\<open>mmap\<close> flags only.\<close>

definition map_transient_region :: "u64 \<Rightarrow> u64 \<Rightarrow> RegionFile \<Rightarrow> RegionManager" where
  "map_transient_region filesize addr f0 =
     \<lparr>FILESIZE = filesize, base_addr = addr,
      header = f0\<lparr>f_curr_addr := atomic_pptr_store addr (addr + PAGESIZE64), f_size := filesize\<rparr>\<rparr>"

definition remap_transient_region :: "u64 \<Rightarrow> u64 \<Rightarrow> RegionFile \<Rightarrow> RegionManager run" where
  "remap_transient_region filesize addr f0 =
     bind_run (assert_run (f_size f0 = filesize) ''size == FILESIZE'') (\<lambda>_.
     Ret \<lparr>FILESIZE = filesize, base_addr = addr, header = f0\<rparr>)"

definition store_heap_start :: "RegionManager \<Rightarrow> u64 \<Rightarrow> RegionManager" where
  "store_heap_start r root = r\<lparr>header := (header r)\<lparr>f_heap_start := root - base_addr r\<rparr>\<rparr>"

definition fetch_heap_start :: "RegionManager \<Rightarrow> u64" where
  "fetch_heap_start r = f_heap_start (header r) + base_addr r"

section \<open>Expanding a region\<close>

text \<open>
  \<^verbatim>\<open>__nvm_region_allocator\<close>: \<open>r0\<close> is the region when the end is loaded, \<open>r1\<close> when
  the compare-and-swap runs; in a sequential call they are the same. The result is the return
  code, \<^verbatim>\<open>*memptr\<close> when it was written, and the region afterwards.
\<close>

definition nvm_region_allocator ::
  "RegionManager \<Rightarrow> RegionManager \<Rightarrow> u64 \<Rightarrow> u64 \<Rightarrow> int \<times> u64 option \<times> RegionManager" where
  "nvm_region_allocator r0 r1 alignment sz =
     (if sz \<le> 0 then (-1, None, r1)
      else if alignment AND (NOT alignment + 1) \<noteq> alignment \<or> alignment < 8 then (-1, None, r1)
      else
        let old_curr_addr = rm_curr_addr r0;
            aln_adj = old_curr_addr AND (alignment - 1);
            new_curr_addr = (if aln_adj \<noteq> 0 then old_curr_addr + (alignment - aln_adj)
                             else old_curr_addr);
            res = new_curr_addr;
            next = new_curr_addr + sz
        in if next > base_addr r0 + FILESIZE r0 then (-1, None, r1)
           else case atomic_pptr_cas (base_addr r1) (f_curr_addr (header r1)) old_curr_addr next of
                  (ok, off, _) \<Rightarrow>
                    if ok then (1, Some res, r1\<lparr>header := (header r1)\<lparr>f_curr_addr := off\<rparr>\<rparr>)
                    else (0, None, r1))"

text \<open>
  \<^verbatim>\<open>__try_nvm_region_allocator\<close> is the same routine with other return codes.
\<close>

definition try_nvm_region_allocator ::
  "RegionManager \<Rightarrow> RegionManager \<Rightarrow> u64 \<Rightarrow> u64 \<Rightarrow> int \<times> u64 option \<times> RegionManager" where
  "try_nvm_region_allocator r0 r1 alignment sz =
     (if sz \<le> 0 then (-1, None, r1)
      else if alignment AND (NOT alignment + 1) \<noteq> alignment \<or> alignment < 8 then (-1, None, r1)
      else
        let old_curr_addr = rm_curr_addr r0;
            aln_adj = old_curr_addr AND (alignment - 1);
            new_curr_addr = (if aln_adj \<noteq> 0 then old_curr_addr + (alignment - aln_adj)
                             else old_curr_addr);
            res = new_curr_addr;
            next = new_curr_addr + sz
        in if next > base_addr r0 + FILESIZE r0 then (-1, None, r1)
           else case atomic_pptr_cas (base_addr r1) (f_curr_addr (header r1)) old_curr_addr next of
                  (ok, off, _) \<Rightarrow>
                    if ok then (0, Some res, r1\<lparr>header := (header r1)\<lparr>f_curr_addr := off\<rparr>\<rparr>)
                    else (1, None, r1))"

definition within_range :: "RegionManager \<Rightarrow> u64 \<Rightarrow> bool" where
  "within_range r p \<longleftrightarrow> base_addr r <s p \<and> p <s rm_curr_addr r"

text \<open>
  The constructor: \<open>existing\<close> is the header of a file that was there already. The return code of
  the first expansion is converted to \<^verbatim>\<open>bool\<close>, so only 0 counts as a failure; when it is
  \<open>-1\<close>, \<^verbatim>\<open>__store_heap_start\<close> is called on the uninitialised \<open>t\<close>.
\<close>

definition RegionManager_create ::
  "RegionFile option \<Rightarrow> u64 \<Rightarrow> u64 \<Rightarrow> bool \<Rightarrow> bool \<Rightarrow> u64 \<Rightarrow> RegionManager run" where
  "RegionManager_create existing addr sz p imm_expand t =
     bind_run (assert_run (sz mod CACHELINE_SIZE64 = 0) ''size%CACHELINE_SIZE == 0'') (\<lambda>_.
     case existing of
       Some f \<Rightarrow> (if p then remap_persistent_region (rm_filesize sz) addr f
                  else remap_transient_region (rm_filesize sz) addr f)
     | None \<Rightarrow>
         (let f0 = \<lparr>f_curr_addr = 0, f_heap_start = 0, f_size = 0\<rparr>;
              r = (if p then map_persistent_region (rm_filesize sz) addr f0
                   else map_transient_region (rm_filesize sz) addr f0)
          in if imm_expand then
               (case nvm_region_allocator r r CACHELINE_SIZE64 sz of
                  (res, memptr, r') \<Rightarrow>
                    if res = 0 then Abort ''region allocation fails!''
                    else Ret (store_heap_start r' (case memptr of None \<Rightarrow> t | Some q \<Rightarrow> q)))
             else Ret r))"

section \<open>Regions\<close>

text \<open>
  The class \<^verbatim>\<open>Regions\<close>: the managers and the start addresses of the regions created so far.
  \<open>existing\<close>, \<open>addr\<close> and \<open>t\<close> of \<open>Regions_create\<close> are those of the constructor it calls.
\<close>

record Regions =
  regions :: "nat \<Rightarrow> RegionManager option"
  regions_address :: "nat \<Rightarrow> u64"
  cur_idx :: nat

definition Regions_init :: Regions where
  "Regions_init = \<lparr>regions = (\<lambda>_. None), regions_address = (\<lambda>_. 0), cur_idx = 0\<rparr>"

definition Regions_destroy :: "Regions \<Rightarrow> Regions" where
  "Regions_destroy rg =
     \<lparr>regions = (\<lambda>i. if i < cur_idx rg then None else regions rg i),
      regions_address = (\<lambda>i. if i < cur_idx rg then 0 else regions_address rg i), cur_idx = 0\<rparr>"

definition Regions_create ::
  "Regions \<Rightarrow> RegionFile option \<Rightarrow> u64 \<Rightarrow> u64 \<Rightarrow> bool \<Rightarrow> bool \<Rightarrow> u64 \<Rightarrow> Regions run" where
  "Regions_create rg existing addr sz p imm_expand t =
     (let restart = existing \<noteq> None
      in bind_run (RegionManager_create existing addr sz p imm_expand t) (\<lambda>new_mgr.
         Ret (rg\<lparr>regions := (regions rg)(cur_idx rg := Some new_mgr),
                 regions_address := (regions_address rg)(cur_idx rg :=
                   (if imm_expand \<or> restart then fetch_heap_start new_mgr else 0)),
                 cur_idx := cur_idx rg + 1\<rparr>)))"

definition Regions_lookup :: "Regions \<Rightarrow> nat \<Rightarrow> u64" where
  "Regions_lookup rg i = regions_address rg i"

definition Regions_in_range :: "Regions \<Rightarrow> nat \<Rightarrow> u64 \<Rightarrow> bool" where
  "Regions_in_range rg i p \<longleftrightarrow>
     p \<ge> regions_address rg i \<and>
     (case regions rg i of None \<Rightarrow> False | Some r \<Rightarrow> p < rm_curr_addr r)"

section \<open>Lemmas\<close>

text \<open>A mapped region: user space addresses, and a header that decodes to its end.\<close>

definition region_ok :: "RegionManager \<Rightarrow> bool" where
  "region_ok r \<longleftrightarrow>
     0 < base_addr r \<and>
     unat (base_addr r) + unat (FILESIZE r) < 2 ^ 48 \<and>
     base_addr r < rm_curr_addr r \<and>
     unat (rm_curr_addr r) \<le> unat (base_addr r) + unat (FILESIZE r) \<and>
     f_curr_addr (header r) = to_pptr_off (rm_curr_addr r) (base_addr r)"

lemma u48_dist: "unat v < 2 ^ 48 \<Longrightarrow> unat p < 2 ^ 48 \<Longrightarrow> pptr_dist v p < 2 ^ 48"
  by (rule user_addr_dist) (simp_all add: user_addr_def)

lemma unat_plus_48:
  "unat (a::u64) + unat b < 2 ^ 64 \<Longrightarrow> unat (a + b) = unat a + unat b"
  by (rule unat_add_lem[THEN iffD1]) simp

text \<open>Rounding up to a power of two, as the allocator does it.\<close>

definition align_up :: "nat \<Rightarrow> nat \<Rightarrow> nat" where
  "align_up a n = (if a mod n = 0 then a else a + (n - a mod n))"

lemma align_up_ge: "a \<le> align_up a n"
  unfolding align_up_def by (auto intro: le_add1)

lemma align_up_lt: "0 < n \<Longrightarrow> align_up a n < a + n"
  by (auto simp: align_up_def)

lemma align_up_dvd: "0 < n \<Longrightarrow> n dvd align_up a n"
proof -
  assume "0 < n"
  then have "(a + (n - a mod n)) mod n = 0"
    by (metis add.commute le_add_diff_inverse2 less_imp_le mod_add_right_eq mod_less_divisor mod_self)
  then show ?thesis by (auto simp: align_up_def)
qed

lemma align_up_id: "n dvd a \<Longrightarrow> align_up a n = a"
  by (auto simp: align_up_def)

lemma unat_pow2: "k < 64 \<Longrightarrow> unat (2 ^ k :: u64) = 2 ^ k"
proof -
  assume "k < 64"
  then have "(2::nat) ^ k < 2 ^ 64" by (intro power_strict_increasing) auto
  moreover have "(2 ^ k :: u64) = of_nat (2 ^ k)" by simp
  ultimately show ?thesis by (simp only: unat_of_nat) (simp add: mod_less)
qed

lemma pow2_word_test:
  assumes "3 \<le> k" and "k < 64"
  shows "(2 ^ k :: u64) AND (NOT (2 ^ k) + 1) = 2 ^ k" and "\<not> (2 ^ k :: u64) < 8"
proof -
  have "NOT (2 ^ k :: u64) + 1 = - (2 ^ k)" by (simp add: minus_eq_not_plus_1)
  moreover have "(2 ^ k :: u64) AND - (2 ^ k) = 2 ^ k"
  proof (rule bit_word_eqI)
    fix n assume "n < LENGTH(64)"
    then show "bit ((2 ^ k :: u64) AND - (2 ^ k)) n = bit (2 ^ k :: u64) n"
      by (auto simp: bit_simps minus_exp_eq_not_mask)
  qed
  ultimately show "(2 ^ k :: u64) AND (NOT (2 ^ k) + 1) = 2 ^ k" by simp
  have "unat (2 ^ k :: u64) = 2 ^ k" using assms by (simp add: unat_pow2)
  moreover have "(8::nat) \<le> 2 ^ k" using assms(1) power_increasing[of 3 k "2::nat"] by simp
  ultimately show "\<not> (2 ^ k :: u64) < 8" by (simp add: word_less_nat_alt)
qed

lemma unat_and_pow2:
  assumes "k < 64"
  shows "unat (a AND (2 ^ k - 1) :: u64) = unat a mod 2 ^ k"
proof -
  have "a AND (2 ^ k - 1) = take_bit k a" by (simp add: take_bit_eq_mask mask_eq_exp_minus_1)
  then show ?thesis by (simp only: unsigned_take_bit_eq take_bit_eq_mod[where 'a = nat])
qed

lemma unat_align:
  assumes k: "k < 64" and a: "unat (a::u64) + 2 ^ k < 2 ^ 64"
  shows "unat (if a AND (2 ^ k - 1) \<noteq> 0 then a + (2 ^ k - (a AND (2 ^ k - 1))) else a)
         = align_up (unat a) (2 ^ k)"
proof -
  let ?m = "a AND (2 ^ k - 1)"
  have m: "unat ?m = unat a mod 2 ^ k" by (rule unat_and_pow2[OF k])
  have p: "unat (2 ^ k :: u64) = 2 ^ k" using k by (simp add: unat_pow2)
  have "?m \<le> 2 ^ k" by (simp add: word_le_nat_alt m p less_imp_le)
  then have d: "unat (2 ^ k - ?m) = 2 ^ k - unat a mod 2 ^ k" by (simp add: unat_sub m p)
  have "unat (a + (2 ^ k - ?m)) = unat a + (2 ^ k - unat a mod 2 ^ k)"
    using a d by (subst unat_plus_48) auto
  moreover have "?m = 0 \<longleftrightarrow> unat a mod 2 ^ k = 0" using m by (metis unat_eq_zero)
  ultimately show ?thesis by (auto simp: align_up_def)
qed

lemma region_curr_cas:
  assumes "region_ok r" and "unat v < 2 ^ 48"
  shows "atomic_pptr_cas (base_addr r) (f_curr_addr (header r)) (rm_curr_addr r) v
         = (True, to_pptr_off v (base_addr r), rm_curr_addr r)"
  using assms by (simp add: atomic_pptr_cas_def region_ok_def Let_def)

text \<open>The sequential behaviour of the allocator, on values.\<close>

lemma nvm_region_allocator_spec:
  assumes ok: "region_ok r" and k: "3 \<le> k" "k < 48" and sz: "sz \<noteq> 0"
    and small: "unat sz < 2 ^ 63"
  defines "start \<equiv> align_up (unat (rm_curr_addr r)) (2 ^ k)"
  shows "if start + unat sz \<le> unat (base_addr r) + unat (FILESIZE r)
         then \<exists>r' p. nvm_region_allocator r r (2 ^ k) sz = (1, Some p, r') \<and> region_ok r' \<and>
                unat p = start \<and> unat (rm_curr_addr r') = start + unat sz \<and>
                base_addr r' = base_addr r \<and> FILESIZE r' = FILESIZE r \<and>
                f_heap_start (header r') = f_heap_start (header r) \<and> f_size (header r') = f_size (header r)
         else nvm_region_allocator r r (2 ^ k) sz = (-1, None, r)"
proof -
  let ?c = "rm_curr_addr r"
  let ?al = "(if ?c AND (2 ^ k - 1) \<noteq> 0 then ?c + (2 ^ k - (?c AND (2 ^ k - 1))) else ?c)"
  have k64: "k < 64" using k by simp
  have c48: "unat ?c < 2 ^ 48" using ok by (auto simp: region_ok_def)
  have p48: "(2::nat) ^ k \<le> 2 ^ 48" using k by (intro power_increasing) auto
  have al: "unat ?al = start"
    unfolding start_def using c48 p48 by (intro unat_align[OF k64]) simp
  have start: "start < 2 ^ 49"
    using align_up_lt[of "2 ^ k" "unat ?c"] c48 p48 unfolding start_def by simp
  have nx: "unat (?al + sz) = start + unat sz"
    using al start small by (subst unat_plus_48) auto
  have lim: "unat (base_addr r + FILESIZE r) = unat (base_addr r) + unat (FILESIZE r)"
    using ok by (intro unat_plus_48) (auto simp: region_ok_def)
  have red: "nvm_region_allocator r r (2 ^ k) sz =
      (if ?al + sz > base_addr r + FILESIZE r then (-1, None, r)
       else case atomic_pptr_cas (base_addr r) (f_curr_addr (header r)) ?c (?al + sz) of
              (ok, off, _) \<Rightarrow>
                if ok then (1, Some ?al, r\<lparr>header := (header r)\<lparr>f_curr_addr := off\<rparr>\<rparr>)
                else (0, None, r))"
    using sz pow2_word_test[OF k(1) k64] by (simp add: nvm_region_allocator_def Let_def)
  have cmp: "?al + sz > base_addr r + FILESIZE r \<longleftrightarrow>
      \<not> start + unat sz \<le> unat (base_addr r) + unat (FILESIZE r)"
    by (simp add: word_less_nat_alt nx lim not_le)
  show ?thesis
  proof (cases "start + unat sz \<le> unat (base_addr r) + unat (FILESIZE r)")
    case False
    then show ?thesis using red cmp by simp
  next
    case True
    let ?r' = "r\<lparr>header := (header r)\<lparr>f_curr_addr := to_pptr_off (?al + sz) (base_addr r)\<rparr>\<rparr>"
    have n48: "unat (?al + sz) < 2 ^ 48" using True nx ok by (auto simp: region_ok_def)
    have b48: "unat (base_addr r) < 2 ^ 48" using ok by (auto simp: region_ok_def)
    have curr': "rm_curr_addr ?r' = ?al + sz"
      using from_to_pptr_off[OF u48_dist[OF n48 b48]]
      by (simp add: rm_curr_addr_def atomic_pptr_load_def)
    have "unat ?c \<le> start" unfolding start_def by (rule align_up_ge)
    then have "base_addr r < ?al + sz" using ok nx sz
      by (auto simp: region_ok_def word_less_nat_alt)
    then have ok': "region_ok ?r'" using ok curr' True nx by (simp add: region_ok_def)
    have "nvm_region_allocator r r (2 ^ k) sz = (1, Some ?al, ?r')"
      using red cmp True region_curr_cas[OF ok n48] by simp
    then show ?thesis using True ok' curr' al nx by auto
  qed
qed

lemma region_ok_map:
  assumes "0 < addr" and "unat addr + unat fs < 2 ^ 48" and "4096 \<le> unat fs"
  shows "region_ok (map_persistent_region fs addr f)
    \<and> rm_curr_addr (map_persistent_region fs addr f) = addr + PAGESIZE64"
proof -
  let ?r = "map_persistent_region fs addr f"
  have n: "unat (addr + PAGESIZE64) = unat addr + 4096"
    using assms by (subst unat_plus_48) (auto simp: PAGESIZE64_def)
  have d: "pptr_dist (addr + PAGESIZE64) addr < 2 ^ 48"
    using assms n by (intro u48_dist) auto
  have c: "rm_curr_addr ?r = addr + PAGESIZE64"
    using from_to_pptr_off[OF d]
    by (simp add: rm_curr_addr_def map_persistent_region_def atomic_pptr_load_def atomic_pptr_store_def)
  then show ?thesis
    using assms n
    by (simp add: region_ok_def) (simp add: map_persistent_region_def atomic_pptr_store_def word_less_nat_alt)
qed

lemma unat_filesize:
  assumes "unat sz < 2 ^ 48"
  shows "unat (rm_filesize sz) = (unat sz div 4096 + 2) * 4096"
proof -
  have "rm_filesize sz = word_of_nat ((unat sz div 4096 + 2) * 4096)"
    by (simp add: rm_filesize_def PAGESIZE64_def word_arith_nat_div)
  moreover have "(unat sz div 4096 + 2) * 4096 < 2 ^ 64" using assms by simp
  ultimately show ?thesis by (metis unat_word_of_nat)
qed
lemma region_moved:
  assumes "f_curr_addr (header r') = to_pptr_off c b" and "b < c" and "unat c < 2 ^ 48"
  shows "rm_curr_addr r' = base_addr r' + (c - b)"
proof -
  have "unat b < 2 ^ 48" using assms(2,3) by (simp add: word_less_nat_alt)
  with assms(3) have d: "pptr_dist c b < 2 ^ 48" by (rule u48_dist)
  moreover have "c \<noteq> 0" using assms(2) by auto
  ultimately show ?thesis
    using not_null_to_pptr_off[of c b] valid_to_pptr_off[of c b] to_pptr_off_pos[OF assms(2) d]
    by (simp add: rm_curr_addr_def atomic_pptr_load_def from_pptr_off_def PPTR_PATTERN_SHIFT_def assms(1))
qed

section \<open>Properties\<close>


text \<open>A concrete region of sixteen pages, mapped at \<open>0x10000\<close>.\<close>

definition example_region :: RegionManager where
  "example_region = map_persistent_region 0x10000 0x10000 \<lparr>f_curr_addr = 0, f_heap_start = 0, f_size = 0\<rparr>"

lemma example_region_ok: "region_ok example_region" "rm_curr_addr example_region = 0x11000"
  using region_ok_map[of "0x10000" "0x10000" "\<lparr>f_curr_addr = 0, f_heap_start = 0, f_size = 0\<rparr>"]
  by (simp_all add: example_region_def PAGESIZE64_def)


text \<open>
  C23. When another thread moved the end of the region between the load and the
  compare-and-swap, an expansion returns no memory and does not change the region: no two
  expansions hand out the same bytes.
\<close>

theorem region_race:
  assumes "region_ok r0" and "region_ok r1" and "base_addr r1 = base_addr r0"
    and "rm_curr_addr r1 \<noteq> rm_curr_addr r0"
  shows "fst (nvm_region_allocator r0 r1 al sz) \<in> {-1, 0}
    \<and> snd (nvm_region_allocator r0 r1 al sz) = (None, r1)"
proof -
  have "pptr_dist (rm_curr_addr r0) (base_addr r0) < 2 ^ 48"
    using assms(1) by (intro u48_dist) (auto simp: region_ok_def)
  moreover have "pptr_dist (rm_curr_addr r1) (base_addr r0) < 2 ^ 48"
    using assms(2,3) by (intro u48_dist) (auto simp: region_ok_def)
  ultimately have "to_pptr_off (rm_curr_addr r1) (base_addr r0) \<noteq> to_pptr_off (rm_curr_addr r0) (base_addr r0)"
    using to_pptr_off_inj assms(4) by blast
  then have "f_curr_addr (header r1) \<noteq> to_pptr_off (rm_curr_addr r0) (base_addr r1)"
    using assms(2,3) by (auto simp: region_ok_def)
  then show ?thesis by (simp add: nvm_region_allocator_def atomic_pptr_cas_def Let_def)
qed

theorem region_race_witness:
  "\<exists>r1. region_ok r1 \<and> base_addr r1 = base_addr example_region
     \<and> snd (nvm_region_allocator example_region r1 64 8) = (None, r1)"
proof -
  obtain r1 where "region_ok r1" "unat (rm_curr_addr r1) = 0x11040"
      "base_addr r1 = base_addr example_region"
    using nvm_region_allocator_spec[OF example_region_ok(1), of 6 "0x40"] example_region_ok(2)
    by (auto simp: align_up_def example_region_def map_persistent_region_def)
  moreover from this have "rm_curr_addr r1 \<noteq> rm_curr_addr example_region"
    using example_region_ok(2) by auto
  ultimately show ?thesis
    using region_race[of example_region r1 64 8] example_region_ok(1) by auto
qed

lemma region_create_ok:
  assumes "0 < addr" and "4096 dvd unat addr" and "sz mod 64 = 0" and "sz \<noteq> 0"
    and "unat addr + unat sz + 8192 < 2 ^ 48"
  shows "\<exists>r. RegionManager_create None addr sz p True t = Ret r \<and> region_ok r
    \<and> fetch_heap_start r = addr + 4096 \<and> unat (rm_curr_addr r) = unat addr + 4096 + unat sz
    \<and> base_addr r = addr \<and> f_size (header r) = rm_filesize sz"
proof -
  let ?fs = "rm_filesize sz"
  let ?f = "\<lparr>f_curr_addr = 0, f_heap_start = 0, f_size = 0\<rparr>"
  let ?m = "map_persistent_region ?fs addr ?f"
  have sz48: "unat sz < 2 ^ 48" using assms(5) by simp
  note fs = unat_filesize[OF sz48]
  have fs_ge: "unat sz + 4096 < unat ?fs" and fs_le: "unat ?fs \<le> unat sz + 8192"
    unfolding fs
    using div_mult_mod_eq[of "unat sz" 4096] mod_less_divisor[of 4096 "unat sz", OF zero_less_numeral]
    by (simp_all only: distrib_right)
  have m: "region_ok ?m" "rm_curr_addr ?m = addr + PAGESIZE64"
    using region_ok_map[of addr ?fs ?f] assms(1,5) fs_ge fs_le by simp_all
  have c: "unat (rm_curr_addr ?m) = unat addr + 4096"
    unfolding m(2) using assms(5) by (subst unat_plus_48) (auto simp: PAGESIZE64_def)
  have "(64::nat) dvd 4096" by simp
  then have "64 dvd unat addr + 4096" using assms(2) by (meson dvd_add dvd_trans)
  then have al: "align_up (unat addr + 4096) 64 = unat addr + 4096" by (rule align_up_id)
  have "base_addr ?m = addr" "FILESIZE ?m = ?fs" by (simp_all add: map_persistent_region_def)
  then obtain r q where r: "nvm_region_allocator ?m ?m 64 sz = (1, Some q, r)" "region_ok r"
      "unat q = unat addr + 4096" "unat (rm_curr_addr r) = unat addr + 4096 + unat sz"
      "base_addr r = addr" "FILESIZE r = ?fs" "f_size (header r) = ?fs"
    using nvm_region_allocator_spec[OF m(1), of 6 sz] assms(4) sz48 c al fs_ge
    by (auto simp: map_persistent_region_def)
  let ?r = "store_heap_start r q"
  have curr: "rm_curr_addr ?r = rm_curr_addr r" by (simp add: rm_curr_addr_def store_heap_start_def)
  have ok: "region_ok ?r" using r(2) unfolding region_ok_def curr by (simp add: store_heap_start_def)
  have p: "q = addr + 4096"
    using r(3) assms(5) by (intro unat_eqD) (subst unat_plus_48; simp)
  have create: "RegionManager_create None addr sz p True t = Ret ?r"
    using assms(3) r(1) by (simp add: RegionManager_create_def map_transient_region_def map_persistent_region_def
        CACHELINE_SIZE64_def Let_def)
  have "fetch_heap_start ?r = addr + 4096"
    using p r(5) by (simp add: fetch_heap_start_def store_heap_start_def)
  then show ?thesis using create ok r(4,5,7) curr by (auto simp: store_heap_start_def)
qed

text \<open>
  C24. Creating a region with immediate expansion succeeds for a page-aligned address and a size that is a
  non-zero multiple of the cache line and stays with two more pages below the 48-bit address limit: the heap starts
  one page above the base and the whole request is inside the mapping. Mapping the same file
  again at another user-space base keeps the distance of the heap start and of the end from the base.
\<close>

theorem region_create_remap:
  assumes "0 < addr" and "4096 dvd unat addr" and "sz mod 64 = 0" and "sz \<noteq> 0"
    and "unat addr + unat sz + 8192 < 2 ^ 48" and "user_addr addr'"
  shows "\<exists>r. RegionManager_create None addr sz p True t = Ret r \<and> region_ok r
    \<and> fetch_heap_start r = addr + 4096
    \<and> unat (rm_curr_addr r) = unat addr + 4096 + unat sz
    \<and> (\<exists>r'. RegionManager_create (Some (header r)) addr' sz p True t = Ret r'
         \<and> fetch_heap_start r' - addr' = fetch_heap_start r - addr
         \<and> rm_curr_addr r' - addr' = rm_curr_addr r - addr)"
proof -
  obtain r where r: "RegionManager_create None addr sz p True t = Ret r" "region_ok r"
      "fetch_heap_start r = addr + 4096" "unat (rm_curr_addr r) = unat addr + 4096 + unat sz"
      "base_addr r = addr" "f_size (header r) = rm_filesize sz"
    using region_create_ok[OF assms(1-5)] by blast
  let ?r' = "\<lparr>FILESIZE = rm_filesize sz, base_addr = addr', header = header r\<rparr>"
  have again: "RegionManager_create (Some (header r)) addr' sz p True t = Ret ?r'"
    using assms(3) r(6)
    by (simp add: RegionManager_create_def remap_persistent_region_def remap_transient_region_def
        CACHELINE_SIZE64_def)
  have "rm_curr_addr ?r' = addr' + (rm_curr_addr r - addr)"
    using region_moved[of ?r' "rm_curr_addr r" addr] r(2,5) by (simp add: region_ok_def)
  then have "fetch_heap_start ?r' - addr' = fetch_heap_start r - addr
      \<and> rm_curr_addr ?r' - addr' = rm_curr_addr r - addr"
    using r(5) by (simp add: fetch_heap_start_def)
  then show ?thesis using r again by blast
qed

theorem region_create_remap_witness:
  "\<exists>r. RegionManager_create None 0x10000 0x1000 True True 0 = Ret r \<and> region_ok r
     \<and> fetch_heap_start r = 0x11000"
proof -
  obtain r where "RegionManager_create None 0x10000 0x1000 True True 0 = Ret r" "region_ok r"
      "fetch_heap_start r = 0x10000 + 4096"
    using region_create_remap[of "0x10000" "0x1000" "0x20000" True 0] by (auto simp: user_addr_def)
  then show ?thesis by (intro exI[of _ r]) simp
qed

end
