(* ===== verification/TCache.thy ===== *)
theory TCache
  imports Prelude
begin

text \<open>
  \<^verbatim>\<open>ralloc/src/TCache.hpp\<close> and \<^verbatim>\<open>TCache.cpp\<close>: a thread's cache of free blocks of one
  size class, a linked list through the first word of each block. The memory \<open>m\<close> gives the
  target of the \<^verbatim>\<open>pptr\<close> stored at an address (theory \<open>Pptr\<close> shows that a stored pointer is
  read back); addresses and counts are naturals.
\<close>

type_synonym mem = "nat \<Rightarrow> nat"

record TCacheBin =
  cb_block :: nat
  cb_block_num :: nat

definition TCacheBin_init :: TCacheBin where
  "TCacheBin_init = \<lparr>cb_block = 0, cb_block_num = 0\<rparr>"

definition push_block :: "mem \<Rightarrow> TCacheBin \<Rightarrow> nat \<Rightarrow> mem \<times> TCacheBin" where
  "push_block m c block =
     (m(block := cb_block c), c\<lparr>cb_block := block, cb_block_num := cb_block_num c + 1\<rparr>)"

definition push_list :: "TCacheBin \<Rightarrow> nat \<Rightarrow> nat \<Rightarrow> TCacheBin run" where
  "push_list c block len =
     bind_run (assert_run (cb_block_num c = 0) ''_block_num == 0'') (\<lambda>_.
     Ret (c\<lparr>cb_block := block, cb_block_num := len\<rparr>))"

definition pop_block :: "mem \<Rightarrow> TCacheBin \<Rightarrow> (nat \<times> TCacheBin) run" where
  "pop_block m c =
     bind_run (assert_run (cb_block_num c > 0) ''_block_num > 0'') (\<lambda>_.
     let ret = cb_block c; next = m ret
     in Ret (ret, c\<lparr>cb_block := next, cb_block_num := cb_block_num c - 1\<rparr>))"

definition pop_list :: "TCacheBin \<Rightarrow> nat \<Rightarrow> nat \<Rightarrow> TCacheBin run" where
  "pop_list c block len =
     bind_run (assert_run (cb_block_num c \<ge> len) ''_block_num >= length'') (\<lambda>_.
     Ret (c\<lparr>cb_block := block, cb_block_num := cb_block_num c - len\<rparr>))"

section \<open>The list a bin holds\<close>

text \<open>
  The blocks of a bin: the list that starts at the head and is as long as the counter says. The
  word of its last block is not constrained, as the code never looks at it.
\<close>

fun chain :: "mem \<Rightarrow> nat \<Rightarrow> nat list \<Rightarrow> bool" where
  "chain m p [] = True"
| "chain m p (x # xs) = (p = x \<and> chain m (m x) xs)"

definition bin_list :: "mem \<Rightarrow> TCacheBin \<Rightarrow> nat list \<Rightarrow> bool" where
  "bin_list m c xs \<longleftrightarrow> chain m (cb_block c) xs \<and> length xs = cb_block_num c \<and> distinct xs"

lemma chain_upd [simp]: "a \<notin> set xs \<Longrightarrow> chain (m(a := v)) p xs = chain m p xs"
  by (induction xs arbitrary: p) auto

lemma chain_cong: "(\<And>x. x \<in> set xs \<Longrightarrow> m x = m' x) \<Longrightarrow> chain m p xs = chain m' p xs"
  by (induction xs arbitrary: p) auto

lemma chain_append:
  "chain m p (xs @ ys) \<longleftrightarrow>
     chain m p xs \<and> chain m (if xs = [] then p else m (last xs)) ys"
  by (induction xs arbitrary: p) auto

text \<open>Linking the end of one list to the start of another.\<close>

lemma chain_link:
  assumes "chain m p xs" and "xs \<noteq> []" and "distinct xs" and "last xs \<notin> set ys"
    and "chain m q ys"
  shows "chain (m(last xs := q)) p (xs @ ys)"
proof -
  obtain zs z where xs: "xs = zs @ [z]" using assms(2) by (metis rev_exhaust)
  with assms show ?thesis by (auto simp: chain_append)
qed

lemma bin_list_init: "bin_list m TCacheBin_init []"
  by (simp add: bin_list_def TCacheBin_init_def)

lemma bin_list_frame:
  "(\<And>x. x \<in> set xs \<Longrightarrow> m x = m' x) \<Longrightarrow> bin_list m c xs \<Longrightarrow> bin_list m' c xs"
  using chain_cong[of xs m m'] by (auto simp: bin_list_def)

lemma bin_list_empty: "bin_list m c xs \<Longrightarrow> cb_block_num c = 0 \<longleftrightarrow> xs = []"
  by (auto simp: bin_list_def)

lemma push_block_list:
  assumes "bin_list m c xs" and "b \<notin> set xs" and "push_block m c b = (m', c')"
  shows "bin_list m' c' (b # xs)" and "\<And>x. x \<noteq> b \<Longrightarrow> m' x = m x"
  using assms by (auto simp: push_block_def bin_list_def)

lemma pop_block_list:
  assumes "bin_list m c (x # xs)"
  shows "\<exists>c'. pop_block m c = Ret (x, c') \<and> bin_list m c' xs"
  using assms by (auto simp: pop_block_def bin_list_def)

lemma push_list_list:
  assumes "cb_block_num c = 0" and "chain m p xs" and "distinct xs" and "n = length xs"
  shows "\<exists>c'. push_list c p n = Ret c' \<and> bin_list m c' xs"
  using assms by (auto simp: push_list_def bin_list_def)

lemma pop_list_list:
  assumes "bin_list m c (xs @ ys)" and "xs \<noteq> []" and "n = length xs"
  shows "\<exists>c'. pop_list c (m (last xs)) n = Ret c' \<and> bin_list m c' ys"
  using assms by (auto simp: pop_list_def bin_list_def chain_append)

end
