(* ===== verification/BaseMeta.thy ===== *)
theory BaseMeta
  imports Region TCache
begin

text \<open>
  \<^verbatim>\<open>ralloc/src/BaseMeta.hpp\<close> and \<^verbatim>\<open>BaseMeta.cpp\<close>: the allocator. Superblocks of 64K are
  carved from the superblock region; a descriptor per superblock holds its size class and its
  anchor (the list of its free blocks); free superblocks and partially used ones are on
  lock-free lists; every thread caches blocks per size class.

  Addresses are naturals. The operations are sequential: a compare-and-swap of the source
  succeeds on the value just loaded, and operations of several threads are interleaved as
  whole operations on the shared state, each thread with its own caches. The list heads
  (\<^verbatim>\<open>AtomicCrossPtrCnt\<close>) are kept decoded, as theory \<open>CrossPtr\<close> justifies; the counter
  has 34 bits. Flushes and fences write no value.
\<close>

section \<open>Constants\<close>

definition DESCSIZE :: nat where "DESCSIZE = 64"
definition DESC_SHIFT :: nat where "DESC_SHIFT = 6"
definition SB_REGION_EXPAND_SIZE :: nat where "SB_REGION_EXPAND_SIZE = 1 * 1024 * 1024 * 1024"
definition MAX_ROOTS :: nat where "MAX_ROOTS = 1024"

section \<open>Data\<close>

datatype SuperblockState = SB_ERROR | SB_FULL | SB_PARTIAL | SB_EMPTY

record Anchor =
  avail :: nat
  count :: nat
  state :: SuperblockState

definition Anchor_init :: Anchor where
  "Anchor_init = \<lparr>avail = 0, count = 0, state = SB_ERROR\<rparr>"

text \<open>
  A descriptor. \<open>d_heap\<close> is the \<^verbatim>\<open>CrossPtr<ProcHeap, META_IDX>\<close>: the index of the heap it
  points to, \<open>None\<close> when null. The other pointers are addresses, 0 when null.
\<close>

record Descriptor =
  d_next_free :: nat
  d_next_partial :: nat
  d_anchor :: Anchor
  d_superblock :: nat
  d_heap :: "nat option"
  d_block_size :: nat
  d_maxcount :: nat

definition Descriptor_init :: Descriptor where
  "Descriptor_init =
     \<lparr>d_next_free = 0, d_next_partial = 0, d_anchor = Anchor_init, d_superblock = 0,
      d_heap = None, d_block_size = 0, d_maxcount = 0\<rparr>"

text \<open>A head of a lock-free list: the pointer and the counter against ABA.\<close>

record head =
  h_ptr :: nat
  h_cnt :: nat

definition head_set :: "nat \<Rightarrow> nat \<Rightarrow> head" where
  "head_set p c = \<lparr>h_ptr = p, h_cnt = c mod 2 ^ 34\<rparr>"

text \<open>
  The heap: the superblock region, the start addresses of the superblock and descriptor
  regions (\<^verbatim>\<open>regions_address\<close>), the descriptors and the blocks' first words by address, the
  fields of \<^verbatim>\<open>BaseMeta\<close>, and the caches of every thread.
\<close>

record ralloc =
  sb_region :: RegionManager
  sb_start :: nat
  desc_start :: nat
  descs :: "nat \<Rightarrow> Descriptor"
  mem :: "nat \<Rightarrow> nat"
  avail_sb :: head
  partial_list :: "nat \<Rightarrow> head"
  roots :: "nat \<Rightarrow> u64"
  t_caches :: "nat \<Rightarrow> nat \<Rightarrow> TCacheBin"

definition upd_desc :: "nat \<Rightarrow> (Descriptor \<Rightarrow> Descriptor) \<Rightarrow> ralloc \<Rightarrow> ralloc" where
  "upd_desc d f s = s\<lparr>descs := (descs s)(d := f (descs s d))\<rparr>"

definition upd_cache :: "nat \<Rightarrow> nat \<Rightarrow> TCacheBin \<Rightarrow> ralloc \<Rightarrow> ralloc" where
  "upd_cache t c b s = s\<lparr>t_caches := (t_caches s)(t := (t_caches s t)(c := b))\<rparr>"

section \<open>Looking up descriptors and superblocks\<close>

definition desc_lookup :: "ralloc \<Rightarrow> nat \<Rightarrow> nat" where
  "desc_lookup s p =
     (let sb_index = p div 2 ^ SB_SHIFT - sb_start s div 2 ^ SB_SHIFT
      in desc_start s + sb_index * DESCSIZE)"

definition sb_lookup :: "ralloc \<Rightarrow> nat \<Rightarrow> nat" where
  "sb_lookup s d =
     (let desc_index = d div 2 ^ DESC_SHIFT - desc_start s div 2 ^ DESC_SHIFT
      in sb_start s + desc_index * 2 ^ SB_SHIFT)"

section \<open>Partial lists\<close>

definition heap_push_partial :: "ralloc \<Rightarrow> nat \<Rightarrow> ralloc run" where
  "heap_push_partial s d =
     (case d_heap (descs s d) of
        None \<Rightarrow> Abort ''null heap''
      | Some h \<Rightarrow>
          let oldhead = partial_list s h;
              newhead = head_set d (h_cnt oldhead + 1)
          in bind_run (assert_run (h_ptr oldhead \<noteq> d) ''oldhead != newhead'') (\<lambda>_.
             let s1 = upd_desc d (\<lambda>x. x\<lparr>d_next_partial := h_ptr oldhead\<rparr>) s
             in Ret (s1\<lparr>partial_list := (partial_list s1)(h := newhead)\<rparr>)))"

definition heap_pop_partial :: "ralloc \<Rightarrow> nat \<Rightarrow> nat \<times> ralloc" where
  "heap_pop_partial s h =
     (let oldhead = partial_list s h; olddesc = h_ptr oldhead
      in if olddesc = 0 then (0, s)
         else let desc = d_next_partial (descs s olddesc);
                  newhead = head_set desc (h_cnt oldhead)
              in (olddesc, s\<lparr>partial_list := (partial_list s)(h := newhead)\<rparr>))"

section \<open>Free superblocks\<close>

definition small_sb_retire :: "ralloc \<Rightarrow> nat \<Rightarrow> nat \<Rightarrow> ralloc run" where
  "small_sb_retire s sb sz =
     bind_run (assert_run (sz = SBSIZE) ''size == SBSIZE'') (\<lambda>_.
     let d = desc_lookup s sb;
         s1 = upd_desc d (\<lambda>_. Descriptor_init) s;
         oldhead = avail_sb s1;
         s2 = upd_desc d (\<lambda>x. x\<lparr>d_next_free := h_ptr oldhead\<rparr>) s1
     in Ret (s2\<lparr>avail_sb := head_set d (h_cnt oldhead + 1)\<rparr>))"

text \<open>
  \<^verbatim>\<open>organize_sb_list\<close>: the loop initialises the descriptors one after the other and links
  each to the next; \<open>n\<close> is the number of iterations left. A count of 0 still enters the first
  descriptor, as in the source.
\<close>

fun organize_loop :: "nat \<Rightarrow> nat \<Rightarrow> (nat \<Rightarrow> Descriptor) \<Rightarrow> nat \<times> (nat \<Rightarrow> Descriptor)" where
  "organize_loop 0 d ds = (d, ds)"
| "organize_loop (Suc n) d ds =
     (let ds1 = ds(d := (ds d)\<lparr>d_next_free := d + DESCSIZE\<rparr>);
          d1 = d + DESCSIZE
      in organize_loop n d1 (ds1(d1 := Descriptor_init)))"

definition organize_sb_list :: "ralloc \<Rightarrow> nat \<Rightarrow> nat \<Rightarrow> ralloc" where
  "organize_sb_list s start n =
     (let desc_st = desc_lookup s start;
          ds0 = (descs s)(desc_st := Descriptor_init);
          (d, ds1) = organize_loop (n - 1) desc_st ds0;
          oldhead = avail_sb s;
          ds2 = ds1(d := (ds1 d)\<lparr>d_next_free := h_ptr oldhead\<rparr>)
      in s\<lparr>descs := ds2, avail_sb := head_set desc_st (h_cnt oldhead + 1)\<rparr>)"

text \<open>
  The inlined region expansion of \<^verbatim>\<open>small_sb_alloc\<close>, then the whole routine. In a
  sequential run the second look at \<^verbatim>\<open>avail_sb\<close> sees the same empty list and the
  compare-and-swap succeeds.
\<close>

definition small_sb_expand :: "ralloc \<Rightarrow> (nat \<times> ralloc) run" where
  "small_sb_expand s =
     (let r = sb_region s;
          old_curr_addr = rm_curr_addr r;
          aln_adj = old_curr_addr AND (PAGESIZE64 - 1);
          new_curr_addr = (if aln_adj \<noteq> 0 then old_curr_addr + (PAGESIZE64 - aln_adj)
                           else old_curr_addr);
          res = new_curr_addr;
          next = new_curr_addr + word_of_nat SB_REGION_EXPAND_SIZE
      in if next > base_addr r + FILESIZE r then Abort ''out of space in mmaped file''
         else case atomic_pptr_cas (base_addr r) (f_curr_addr (header r)) old_curr_addr next of
                (ok, off, _) \<Rightarrow>
                  let s1 = s\<lparr>sb_region := r\<lparr>header := (header r)\<lparr>f_curr_addr := off\<rparr>\<rparr>\<rparr>;
                      s2 = organize_sb_list s1 (unat res + SBSIZE) (SB_REGION_EXPAND_SIZE div SBSIZE - 1);
                      d = desc_lookup s2 (unat res)
                  in Ret (unat res, upd_desc d (\<lambda>_. Descriptor_init) s2))"

definition small_sb_alloc :: "ralloc \<Rightarrow> nat \<Rightarrow> (nat \<times> ralloc) run" where
  "small_sb_alloc s sz =
     bind_run (assert_run (sz = SBSIZE) ''desired size'') (\<lambda>_.
     let oldhead = avail_sb s; oldptr = h_ptr oldhead
     in if oldptr \<noteq> 0 then
          (let newhead = head_set (d_next_free (descs s oldptr)) (h_cnt oldhead)
           in Ret (sb_lookup s oldptr, s\<lparr>avail_sb := newhead\<rparr>))
        else small_sb_expand s)"

section \<open>Large superblocks\<close>

definition expand_get_large_sb :: "ralloc \<Rightarrow> nat \<Rightarrow> (nat \<times> ralloc) run" where
  "expand_get_large_sb s sz =
     (case nvm_region_allocator (sb_region s) (sb_region s) PAGESIZE64 (word_of_nat sz) of
        (res, memptr, r') \<Rightarrow>
          if res = -1 then Abort ''space runs out!''
          else case memptr of
                 None \<Rightarrow> OutOfFuel
               | Some p \<Rightarrow>
                   let s1 = s\<lparr>sb_region := r'\<rparr>; d = desc_lookup s1 (unat p)
                   in Ret (unat p, upd_desc d (\<lambda>_. Descriptor_init) s1))"

definition large_sb_alloc :: "ralloc \<Rightarrow> nat \<Rightarrow> (nat \<times> ralloc) run" where
  "large_sb_alloc s sz = expand_get_large_sb s sz"

definition large_sb_retire :: "ralloc \<Rightarrow> nat \<Rightarrow> nat \<Rightarrow> ralloc run" where
  "large_sb_retire s sb sz =
     bind_run (assert_run (sz mod SBSIZE = 0) ''size%SBSIZE == 0'') (\<lambda>_.
     Ret (organize_sb_list s sb (sz div SBSIZE)))"

definition alloc_large_block :: "ralloc \<Rightarrow> nat \<Rightarrow> (nat \<times> ralloc) run" where
  "alloc_large_block s sz = large_sb_alloc s sz"

text \<open>\<^verbatim>\<open>round_up\<close> on 64 bit values, with the wrap-around of the sum.\<close>

definition round_up :: "nat \<Rightarrow> nat \<Rightarrow> nat" where
  "round_up numToRound multiple =
     unat ((word_of_nat numToRound + word_of_nat multiple - 1) AND
           NOT (word_of_nat multiple - 1 :: u64))"

section \<open>Filling a cache\<close>

fun malloc_from_partial :: "nat \<Rightarrow> ralloc \<Rightarrow> nat \<Rightarrow> nat \<Rightarrow> (nat \<times> ralloc) run" where
  "malloc_from_partial 0 s t sc_idx = OutOfFuel"
| "malloc_from_partial (Suc fuel) s t sc_idx =
     (case heap_pop_partial s sc_idx of
        (d, s1) \<Rightarrow>
          if d = 0 then Ret (0, s1)
          else
            let oldanchor = d_anchor (descs s1 d);
                maxcount = d_maxcount (descs s1 d);
                bsize = d_block_size (descs s1 d);
                sb = d_superblock (descs s1 d)
            in if state oldanchor = SB_EMPTY then
                 bind_run (small_sb_retire s1 sb (sb_size (get_sizeclass_by_idx sc_idx))) (\<lambda>s2.
                 malloc_from_partial fuel s2 t sc_idx)
               else
                 bind_run (assert_run (state oldanchor = SB_PARTIAL) ''SB_PARTIAL'') (\<lambda>_.
                 let newanchor = \<lparr>avail = maxcount, count = 0, state = SB_FULL\<rparr>;
                     s2 = upd_desc d (\<lambda>x. x\<lparr>d_anchor := newanchor\<rparr>) s1;
                     block_take = count oldanchor;
                     av = avail oldanchor
                 in bind_run (assert_run (av < maxcount) ''avail < maxcount'') (\<lambda>_.
                    let block = sb + av * bsize;
                        cache = t_caches s2 t sc_idx
                    in bind_run (push_list cache block block_take) (\<lambda>cache'.
                       Ret (block_take, upd_cache t sc_idx cache' s2)))))"

text \<open>The loop that links the blocks of a new superblock; \<open>n\<close> iterations from \<open>idx\<close>.\<close>

fun link_blocks :: "nat \<Rightarrow> nat \<Rightarrow> nat \<Rightarrow> nat \<Rightarrow> mem \<Rightarrow> mem" where
  "link_blocks 0 idx sb bsize m = m"
| "link_blocks (Suc n) idx sb bsize m =
     link_blocks n (Suc idx) sb bsize (m(sb + idx * bsize := sb + (idx + 1) * bsize))"

definition malloc_from_newsb :: "ralloc \<Rightarrow> nat \<Rightarrow> nat \<Rightarrow> (nat \<times> ralloc) run" where
  "malloc_from_newsb s t sc_idx =
     (let sc = get_sizeclass_by_idx sc_idx;
          bsize = block_size sc;
          maxcount = block_num sc
      in bind_run (small_sb_alloc s (sb_size sc)) (\<lambda>(sb, s1).
         bind_run (assert_run (sb \<noteq> 0) ''superblock'') (\<lambda>_.
         let d = desc_lookup s1 sb;
             s2 = upd_desc d (\<lambda>x. x\<lparr>d_heap := Some sc_idx, d_block_size := bsize,
                                    d_maxcount := maxcount, d_superblock := sb\<rparr>) s1;
             s3 = s2\<lparr>mem := link_blocks (maxcount - 1) 0 sb bsize (mem s2)\<rparr>
         in bind_run (push_list (t_caches s3 t sc_idx) sb maxcount) (\<lambda>cache'.
            let s4 = upd_cache t sc_idx cache' s3;
                anchor = \<lparr>avail = maxcount, count = 0, state = SB_FULL\<rparr>
            in bind_run (assert_run (count anchor < maxcount) ''anchor.count < maxcount'') (\<lambda>_.
               Ret (maxcount, upd_desc d (\<lambda>x. x\<lparr>d_anchor := anchor\<rparr>) s4))))))"

text \<open>
  The retry loop retires an empty superblock in every round but the last, so it takes at most
  as many rounds as superblocks are mapped, plus one; \<open>fill_cache\<close> passes that bound.
\<close>

definition retry_bound :: "ralloc \<Rightarrow> nat" where
  "retry_bound s = (unat (rm_curr_addr (sb_region s)) - sb_start s) div SBSIZE + 1"

definition fill_cache :: "ralloc \<Rightarrow> nat \<Rightarrow> nat \<Rightarrow> ralloc run" where
  "fill_cache s t sc_idx =
     bind_run (malloc_from_partial (retry_bound s) s t sc_idx) (\<lambda>(n1, s1).
     bind_run (if n1 = 0 then malloc_from_newsb s1 t sc_idx else Ret (n1, s1)) (\<lambda>(n2, s2).
     bind_run (assert_run (n2 > 0) ''block_num > 0'') (\<lambda>_.
     bind_run (assert_run (n2 \<le> cache_block_num (get_sizeclass_by_idx sc_idx))
                 ''block_num <= cache_block_num'') (\<lambda>_.
     Ret s2))))"

section \<open>Flushing a cache\<close>

text \<open>
  The inner loop of \<^verbatim>\<open>flush_cache\<close>: it follows the cached blocks as long as they lie in the
  superblock; \<open>n\<close> is \<^verbatim>\<open>get_block_num() - block_count\<close>.
\<close>

fun flush_scan :: "mem \<Rightarrow> nat \<Rightarrow> nat \<Rightarrow> nat \<Rightarrow> nat \<Rightarrow> nat \<Rightarrow> nat \<times> nat" where
  "flush_scan m sb sbsz 0 tail block_count = (tail, block_count)"
| "flush_scan m sb sbsz (Suc n) tail block_count =
     (let p = m tail
      in if p < sb \<or> p \<ge> sb + sbsz then (tail, block_count)
         else flush_scan m sb sbsz n p (block_count + 1))"

text \<open>The update of the anchor inside the compare-and-swap loop.\<close>

definition flush_anchor :: "Anchor \<Rightarrow> nat \<Rightarrow> nat \<Rightarrow> nat \<Rightarrow> Anchor run" where
  "flush_anchor oldanchor idx block_count maxcnt =
     (let new1 = oldanchor\<lparr>avail := idx\<rparr>;
          new2 = (if state oldanchor = SB_FULL then new1\<lparr>state := SB_PARTIAL\<rparr> else new1)
      in bind_run (assert_run (count oldanchor < maxcnt) ''count < maxcount'') (\<lambda>_.
         Ret (if count oldanchor + block_count = maxcnt
              then new2\<lparr>count := maxcnt - 1, state := SB_EMPTY\<rparr>
              else new2\<lparr>count := count new2 + block_count\<rparr>)))"

text \<open>One iteration of the outer loop.\<close>

definition flush_step :: "ralloc \<Rightarrow> nat \<Rightarrow> nat \<Rightarrow> ralloc run" where
  "flush_step s t sc_idx =
     (let sc = get_sizeclass_by_idx sc_idx;
          sbsz = sb_size sc;
          bsize = block_size sc;
          maxcount = block_num sc;
          cache = t_caches s t sc_idx;
          hd = cb_block cache;
          d = desc_lookup s hd;
          sb = d_superblock (descs s d)
      in case flush_scan (mem s) sb sbsz (cb_block_num cache - 1) hd 1 of
        (tail, block_count) \<Rightarrow>
          bind_run (pop_list cache (mem s tail) block_count) (\<lambda>cache'.
          bind_run (compute_idx sb hd sc_idx) (\<lambda>idx.
          let s1 = upd_cache t sc_idx cache' s;
              oldanchor = d_anchor (descs s1 d);
              next = sb + avail oldanchor * bsize;
              s2 = s1\<lparr>mem := (mem s1)(tail := next)\<rparr>
          in bind_run (flush_anchor oldanchor idx block_count (d_maxcount (descs s2 d))) (\<lambda>newanchor.
             let s3 = upd_desc d (\<lambda>x. x\<lparr>d_anchor := newanchor\<rparr>) s2
             in bind_run (assert_run (avail oldanchor < maxcount \<or> state oldanchor = SB_FULL)
                            ''oldanchor.avail < maxcount'') (\<lambda>_.
                bind_run (assert_run (avail newanchor < maxcount) ''newanchor.avail < maxcount'') (\<lambda>_.
                bind_run (assert_run (count newanchor < maxcount) ''newanchor.count < maxcount'') (\<lambda>_.
                if state oldanchor = SB_FULL then
                  (if state newanchor = SB_EMPTY then small_sb_retire s3 sb SBSIZE
                   else heap_push_partial s3 d)
                else Ret s3)))))))"

text \<open>
  Every iteration takes at least one block out of the cache, so as many iterations as there
  are blocks are enough; \<open>flush_cache\<close> starts with that bound.
\<close>

fun flush_loop :: "nat \<Rightarrow> ralloc \<Rightarrow> nat \<Rightarrow> nat \<Rightarrow> ralloc run" where
  "flush_loop 0 s t sc_idx =
     (if cb_block_num (t_caches s t sc_idx) > 0 then OutOfFuel else Ret s)"
| "flush_loop (Suc n) s t sc_idx =
     (if cb_block_num (t_caches s t sc_idx) > 0
      then bind_run (flush_step s t sc_idx) (\<lambda>s'. flush_loop n s' t sc_idx)
      else Ret s)"

definition flush_cache :: "ralloc \<Rightarrow> nat \<Rightarrow> nat \<Rightarrow> ralloc run" where
  "flush_cache s t sc_idx = flush_loop (cb_block_num (t_caches s t sc_idx)) s t sc_idx"

text \<open>\<^verbatim>\<open>public_flush_cache\<close>: every class of the exiting thread, from 1 on.\<close>

fun flush_classes :: "nat list \<Rightarrow> ralloc \<Rightarrow> nat \<Rightarrow> ralloc run" where
  "flush_classes [] s t = Ret s"
| "flush_classes (i # is) s t = bind_run (flush_cache s t i) (\<lambda>s'. flush_classes is s' t)"

definition public_flush_cache :: "bool \<Rightarrow> ralloc \<Rightarrow> nat \<Rightarrow> ralloc run" where
  "public_flush_cache initialized s t =
     (if initialized then flush_classes [1..<MAX_SZ_IDX] s t else Ret s)"

section \<open>The entry points\<close>

definition do_malloc_large :: "ralloc \<Rightarrow> nat \<Rightarrow> (nat \<times> ralloc) run" where
  "do_malloc_large s sz =
     (let sbs = round_up sz SBSIZE
      in bind_run (alloc_large_block s sbs) (\<lambda>(p, s1).
         bind_run (assert_run (p \<noteq> 0) ''ptr'') (\<lambda>_.
         let d = desc_lookup s1 p;
             anchor = \<lparr>avail = 0, count = 0, state = SB_FULL\<rparr>
         in Ret (p, upd_desc d (\<lambda>x. x\<lparr>d_heap := Some 0, d_block_size := sbs mod 2 ^ 32,
                                      d_maxcount := 1, d_superblock := p,
                                      d_anchor := anchor\<rparr>) s1))))"

definition do_malloc :: "ralloc \<Rightarrow> nat \<Rightarrow> nat \<Rightarrow> (nat \<times> ralloc) run" where
  "do_malloc s t sz =
     (if sz > MAX_SZ then do_malloc_large s sz
      else
        let sc_idx = get_sizeclass sz
        in bind_run (if cb_block_num (t_caches s t sc_idx) = 0 then fill_cache s t sc_idx
                     else Ret s) (\<lambda>s1.
           bind_run (pop_block (mem s1) (t_caches s1 t sc_idx)) (\<lambda>(p, cache').
           Ret (p, upd_cache t sc_idx cache' s1))))"

definition in_range_sb :: "ralloc \<Rightarrow> nat \<Rightarrow> bool" where
  "in_range_sb s p \<longleftrightarrow> p \<ge> sb_start s \<and> p < unat (rm_curr_addr (sb_region s))"

definition do_free :: "ralloc \<Rightarrow> nat \<Rightarrow> nat \<Rightarrow> ralloc run" where
  "do_free s t p =
     (if p = 0 then Ret s
      else bind_run (assert_run (in_range_sb s p) ''in_range'') (\<lambda>_.
        let d = desc_lookup s p
        in case d_heap (descs s d) of
             None \<Rightarrow> Abort ''null heap''
           | Some sc_idx \<Rightarrow>
               if sc_idx = 0 then
                 large_sb_retire s (d_superblock (descs s d)) (d_block_size (descs s d))
               else
                 bind_run (if cb_block_num (t_caches s t sc_idx)
                              \<ge> cache_block_num (get_sizeclass_by_idx sc_idx)
                           then flush_cache s t sc_idx else Ret s) (\<lambda>s1.
                 case push_block (mem s1) (t_caches s1 t sc_idx) p of
                   (m', cache') \<Rightarrow> Ret (upd_cache t sc_idx cache' (s1\<lparr>mem := m'\<rparr>)))))"

section \<open>The constructor\<close>

text \<open>
  \<^verbatim>\<open>BaseMeta()\<close>: empty lists, null roots, and the first gigabyte of superblocks, aligned to
  the superblock size; the first superblock is skipped so that no offset into the region is 0.
\<close>

definition BaseMeta_init :: "RegionManager \<Rightarrow> nat \<Rightarrow> (nat \<Rightarrow> Descriptor) \<Rightarrow> mem \<Rightarrow> ralloc run" where
  "BaseMeta_init r dstart ds m =
     (case nvm_region_allocator r r (word_of_nat SBSIZE) (word_of_nat SB_REGION_EXPAND_SIZE) of
        (res, memptr, r1) \<Rightarrow>
          if res = -1 then Abort ''warmup sb allocation fails!''
          else case memptr of
                 None \<Rightarrow> OutOfFuel
               | Some p \<Rightarrow>
                   let r2 = store_heap_start r1 p;
                       s = \<lparr>sb_region = r2, sb_start = unat p, desc_start = dstart, descs = ds,
                            mem = m, avail_sb = \<lparr>h_ptr = 0, h_cnt = 0\<rparr>,
                            partial_list = (\<lambda>_. \<lparr>h_ptr = 0, h_cnt = 0\<rparr>), roots = (\<lambda>_. 0),
                            t_caches = (\<lambda>_ _. TCacheBin_init)\<rparr>
                   in Ret (organize_sb_list s (unat p + SBSIZE)
                             (SB_REGION_EXPAND_SIZE div SBSIZE - 1)))"

end
