(* ===== verification/AllocInv.thy ===== *)
theory AllocInv
  imports BaseMeta
begin

text \<open>
  The invariant of the allocator and its preservation by the steps the operations of theory
  \<open>BaseMeta\<close> are made of.

  Two ghost functions describe a state: \<open>K\<close> gives every superblock index its use, \<open>W\<close> gives
  every block address its owner. A list of the implementation (the free superblocks, the
  partial superblocks of a class, the free blocks of a superblock, a thread's cache) holds
  exactly the superblocks or blocks the ghost functions assign to it. A superblock being moved
  by the running operation is in the set \<open>X\<close> (taken off its partial list) or of kind
  \<open>SbTaken\<close> (in no list).
\<close>

section \<open>Definitions\<close>

datatype sbkind = Unmapped | SbFree | SbTaken | SbSmall nat | SbLarge nat | SbTail

datatype owner = NoBlock | Live | Cached nat nat | InSb

definition sbA :: "nat \<Rightarrow> nat \<Rightarrow> nat" where "sbA st i = st + i * SBSIZE"
definition dA :: "nat \<Rightarrow> nat \<Rightarrow> nat" where "dA dst i = dst + i * DESCSIZE"

definition blocks :: "nat \<Rightarrow> (nat \<Rightarrow> sbkind) \<Rightarrow> nat \<Rightarrow> nat set" where
  "blocks st K i =
     (case K i of
        SbSmall c \<Rightarrow> (\<lambda>k. sbA st i + k * bs_of c) ` {..<bn_of c}
      | SbLarge m \<Rightarrow> {sbA st i}
      | _ \<Rightarrow> {})"

text \<open>A null terminated list through a link field.\<close>

fun nlist :: "(nat \<Rightarrow> nat) \<Rightarrow> nat \<Rightarrow> nat list \<Rightarrow> bool" where
  "nlist f p [] = (p = 0)"
| "nlist f p (x # xs) = (p = x \<and> x \<noteq> 0 \<and> nlist f (f x) xs)"

definition geo :: "ralloc \<Rightarrow> nat \<Rightarrow> (nat \<Rightarrow> sbkind) \<Rightarrow> bool" where
  "geo s n K \<longleftrightarrow>
     region_ok (sb_region s) \<and> 0 < sb_start s \<and> SBSIZE dvd sb_start s \<and>
     0 < desc_start s \<and> DESCSIZE dvd desc_start s \<and>
     unat (rm_curr_addr (sb_region s)) = sb_start s + n * SBSIZE \<and>
     (\<forall>i. K i = Unmapped \<longleftrightarrow> i = 0 \<or> i \<ge> n) \<and>
     (\<forall>i c. K i = SbSmall c \<longrightarrow> 1 \<le> c \<and> c < MAX_SZ_IDX) \<and>
     (\<forall>i m. K i = SbLarge m \<longrightarrow> 0 < m \<and> m < 65536 \<and> (\<forall>j. 0 < j \<and> j < m \<longrightarrow> K (i + j) = SbTail)) \<and>
     (\<forall>i. K i = SbTail \<longrightarrow> (\<exists>i' m. K i' = SbLarge m \<and> i' < i \<and> i < i' + m))"

definition own_ok :: "nat \<Rightarrow> (nat \<Rightarrow> sbkind) \<Rightarrow> (nat \<Rightarrow> owner) \<Rightarrow> bool" where
  "own_ok st K W \<longleftrightarrow>
     (\<forall>a. W a \<noteq> NoBlock \<longleftrightarrow> (\<exists>i. a \<in> blocks st K i)) \<and>
     (\<forall>i m. K i = SbLarge m \<longrightarrow> W (sbA st i) = Live) \<and>
     (\<forall>i c a t c'. K i = SbSmall c \<longrightarrow> a \<in> blocks st K i \<longrightarrow> W a = Cached t c' \<longrightarrow> c' = c)"

definition free_ok :: "ralloc \<Rightarrow> (nat \<Rightarrow> sbkind) \<Rightarrow> bool" where
  "free_ok s K \<longleftrightarrow>
     (\<exists>xs. nlist (\<lambda>d. d_next_free (descs s d)) (h_ptr (avail_sb s)) xs \<and> distinct xs \<and>
        set xs = dA (desc_start s) ` {i. K i = SbFree})"

definition nonfull :: "ralloc \<Rightarrow> (nat \<Rightarrow> sbkind) \<Rightarrow> nat \<Rightarrow> nat set" where
  "nonfull s K c =
     {i. K i = SbSmall c \<and> state (d_anchor (descs s (dA (desc_start s) i))) \<noteq> SB_FULL}"

definition part_ok :: "ralloc \<Rightarrow> (nat \<Rightarrow> sbkind) \<Rightarrow> nat set \<Rightarrow> nat \<Rightarrow> bool" where
  "part_ok s K X c \<longleftrightarrow>
     (\<exists>xs. nlist (\<lambda>d. d_next_partial (descs s d)) (h_ptr (partial_list s c)) xs \<and> distinct xs \<and>
        set xs = dA (desc_start s) ` (nonfull s K c - X))"

definition anchor_ok :: "ralloc \<Rightarrow> nat \<Rightarrow> nat \<Rightarrow> nat set \<Rightarrow> nat set \<Rightarrow> Anchor \<Rightarrow> bool" where
  "anchor_ok s i c bl B A \<longleftrightarrow>
     (case state A of
        SB_FULL \<Rightarrow> B = {} \<and> count A = 0
      | SB_PARTIAL \<Rightarrow>
          (\<exists>xs. chain (mem s) (sbA (sb_start s) i + avail A * bs_of c) xs \<and> distinct xs \<and>
             set xs = B \<and> length xs = count A) \<and>
          0 < count A \<and> count A < bn_of c \<and> avail A < bn_of c
      | SB_EMPTY \<Rightarrow> B = bl \<and> count A = bn_of c - 1 \<and> avail A < bn_of c
      | SB_ERROR \<Rightarrow> False)"

definition in_sb :: "nat \<Rightarrow> (nat \<Rightarrow> sbkind) \<Rightarrow> (nat \<Rightarrow> owner) \<Rightarrow> nat \<Rightarrow> nat set" where
  "in_sb st K W i = {a \<in> blocks st K i. W a = InSb}"

definition desc_ok :: "ralloc \<Rightarrow> (nat \<Rightarrow> sbkind) \<Rightarrow> (nat \<Rightarrow> owner) \<Rightarrow> nat \<Rightarrow> bool" where
  "desc_ok s K W i \<longleftrightarrow>
     (let d = descs s (dA (desc_start s) i)
      in case K i of
           SbSmall c \<Rightarrow>
             d_heap d = Some c \<and> d_block_size d = bs_of c \<and> d_maxcount d = bn_of c \<and>
             d_superblock d = sbA (sb_start s) i \<and>
             anchor_ok s i c (blocks (sb_start s) K i) (in_sb (sb_start s) K W i) (d_anchor d)
         | SbLarge m \<Rightarrow>
             d_heap d = Some 0 \<and> d_block_size d = m * SBSIZE \<and> d_superblock d = sbA (sb_start s) i \<and>
             d_maxcount d = 1
         | _ \<Rightarrow> True)"

definition cache_ok :: "ralloc \<Rightarrow> (nat \<Rightarrow> owner) \<Rightarrow> nat \<Rightarrow> nat \<Rightarrow> bool" where
  "cache_ok s W t c \<longleftrightarrow>
     (\<exists>xs. bin_list (mem s) (t_caches s t c) xs \<and> set xs = {a. W a = Cached t c}) \<and>
     cb_block_num (t_caches s t c) \<le> cache_block_num (get_sizeclass_by_idx c)"

definition heap_inv ::
  "ralloc \<Rightarrow> nat \<Rightarrow> (nat \<Rightarrow> sbkind) \<Rightarrow> (nat \<Rightarrow> owner) \<Rightarrow> nat set \<Rightarrow> bool" where
  "heap_inv s n K W X \<longleftrightarrow>
     geo s n K \<and> own_ok (sb_start s) K W \<and> free_ok s K \<and>
     (\<forall>c. part_ok s K X c) \<and> (\<forall>i. desc_ok s K W i) \<and>
     (\<forall>t c. 1 \<le> c \<longrightarrow> c < MAX_SZ_IDX \<longrightarrow> cache_ok s W t c) \<and>
     (\<forall>i \<in> X. \<exists>c. i \<in> nonfull s K c)"

section \<open>Geometry\<close>

lemma SBSIZE_pos [simp]: "0 < SBSIZE" by (simp add: SBSIZE_eq)
lemma DESCSIZE_pos [simp]: "0 < DESCSIZE" by (simp add: DESCSIZE_def)

lemma sbA_inj [simp]: "sbA st i = sbA st j \<longleftrightarrow> i = j"
  by (simp add: sbA_def SBSIZE_eq)

lemma dA_inj [simp]: "dA st i = dA st j \<longleftrightarrow> i = j"
  by (simp add: dA_def DESCSIZE_def)

lemma dA_nonzero [simp]: "0 < st \<Longrightarrow> dA st i \<noteq> 0" "0 < st \<Longrightarrow> 0 < dA st i"
  by (simp_all add: dA_def)

lemma dA_Suc: "dA st (Suc i) = dA st i + DESCSIZE"
  by (simp add: dA_def)

lemma class_pos:
  assumes "1 \<le> c" and "c < MAX_SZ_IDX"
  shows "0 < bs_of c" and "0 < bn_of c"
  using bs_of_facts[OF assms] by simp_all

lemma block_span:
  assumes "1 \<le> c" and "c < MAX_SZ_IDX" and "k < bn_of c"
  shows "k * bs_of c + bs_of c \<le> SBSIZE"
proof -
  have "Suc k * bs_of c \<le> bn_of c * bs_of c" using assms(3) by (intro mult_le_mono) auto
  then show ?thesis using blocks_fit[OF assms(1,2)] by (simp add: add.commute)
qed

lemma geo_class: "geo s n K \<Longrightarrow> K i = SbSmall c \<Longrightarrow> 1 \<le> c \<and> c < MAX_SZ_IDX"
  by (auto simp: geo_def)

lemma blocks_range:
  assumes "geo s n K" and "a \<in> blocks st K i"
  shows "sbA st i \<le> a" and "a < sbA st i + SBSIZE"
proof -
  have "sbA st i \<le> a \<and> a < sbA st i + SBSIZE"
  proof (cases "K i")
    case (SbSmall c)
    then obtain k where k: "k < bn_of c" "a = sbA st i + k * bs_of c"
      using assms(2) by (auto simp: blocks_def)
    note c = conjunct1[OF geo_class[OF assms(1) SbSmall]] conjunct2[OF geo_class[OF assms(1) SbSmall]]
    show ?thesis using block_span[OF c k(1)] class_pos[OF c] k(2) by simp
  qed (use assms(2) in \<open>auto simp: blocks_def\<close>)
  then show "sbA st i \<le> a" "a < sbA st i + SBSIZE" by auto
qed

lemma sb_index_unique:
  assumes "sbA st i \<le> a" "a < sbA st i + SBSIZE" "sbA st j \<le> a" "a < sbA st j + SBSIZE"
  shows "i = j"
proof -
  have "(a - st) div SBSIZE = i" "(a - st) div SBSIZE = j"
    using assms by (auto simp: sbA_def less_diff_conv2 le_diff_conv2 ac_simps intro!: div_nat_eqI)
  then show ?thesis by simp
qed

lemma blocks_disjoint:
  assumes "geo s n K" and "a \<in> blocks st K i" and "a \<in> blocks st K j"
  shows "i = j"
  using sb_index_unique blocks_range[OF assms(1,2)] blocks_range[OF assms(1,3)] by blast

lemma blocks_other: "geo s n K \<Longrightarrow> a \<in> blocks st K i \<Longrightarrow> j \<noteq> i \<Longrightarrow> a \<notin> blocks st K j"
  using blocks_disjoint by blast

lemma desc_lookup_in:
  assumes "SBSIZE dvd sb_start s" and "sbA (sb_start s) i \<le> a" and "a < sbA (sb_start s) i + SBSIZE"
  shows "desc_lookup s a = dA (desc_start s) i"
proof -
  obtain q where q: "sb_start s = SBSIZE * q" using assms(1) by (auto simp: dvd_def)
  have "a div SBSIZE = q + i"
    using assms(2,3) q by (intro div_nat_eqI) (auto simp: sbA_def algebra_simps)
  then show ?thesis
    by (simp add: desc_lookup_def SBSIZE_shift[symmetric] dA_def q)
qed

lemma desc_lookup_sbA: "SBSIZE dvd sb_start s \<Longrightarrow> desc_lookup s (sbA (sb_start s) i) = dA (desc_start s) i"
  by (rule desc_lookup_in) auto

lemma desc_lookup_block:
  "geo s n K \<Longrightarrow> a \<in> blocks (sb_start s) K i \<Longrightarrow> desc_lookup s a = dA (desc_start s) i"
  using blocks_range[of s n K a "sb_start s" i] by (intro desc_lookup_in) (auto simp: geo_def)

lemma sb_lookup_dA:
  assumes "DESCSIZE dvd desc_start s"
  shows "sb_lookup s (dA (desc_start s) i) = sbA (sb_start s) i"
proof -
  obtain q where q: "desc_start s = DESCSIZE * q" using assms by (auto simp: dvd_def)
  have "(DESCSIZE * q + i * DESCSIZE) div 2 ^ DESC_SHIFT = q + i"
    by (simp add: DESCSIZE_def DESC_SHIFT_def)
  then show ?thesis
    by (simp add: sb_lookup_def dA_def sbA_def q DESCSIZE_def DESC_SHIFT_def SBSIZE_shift)
qed

section \<open>Lists\<close>

lemma nlist_cong:
  "(\<And>x. x \<in> set xs \<Longrightarrow> f x = g x) \<Longrightarrow> nlist f p xs = nlist g p xs"
  by (induction xs arbitrary: p) auto

lemma nlist_upd:
  assumes "nlist f p xs" and "\<And>x. x \<in> set xs \<Longrightarrow> g x = f x"
  shows "nlist g p xs"
  using nlist_cong[of xs g f] assms by simp

lemma nlist_null: "nlist f 0 xs \<longleftrightarrow> xs = []"
  by (cases xs) auto

lemma nlist_head: "nlist f p xs \<Longrightarrow> p \<noteq> 0 \<Longrightarrow> \<exists>ys. xs = p # ys \<and> nlist f (f p) ys"
  by (cases xs) auto

section \<open>Projections\<close>

lemma inv_geo: "heap_inv s n K W X \<Longrightarrow> geo s n K" by (simp add: heap_inv_def)
lemma inv_own: "heap_inv s n K W X \<Longrightarrow> own_ok (sb_start s) K W" by (simp add: heap_inv_def)
lemma inv_free: "heap_inv s n K W X \<Longrightarrow> free_ok s K" by (simp add: heap_inv_def)
lemma inv_part: "heap_inv s n K W X \<Longrightarrow> part_ok s K X c" by (simp add: heap_inv_def)
lemma inv_desc: "heap_inv s n K W X \<Longrightarrow> desc_ok s K W i" by (simp add: heap_inv_def)
lemma inv_cache:
  "heap_inv s n K W X \<Longrightarrow> 1 \<le> c \<Longrightarrow> c < MAX_SZ_IDX \<Longrightarrow> cache_ok s W t c"
  by (simp add: heap_inv_def)

lemma heap_invI:
  assumes "geo s n K" and "own_ok (sb_start s) K W" and "free_ok s K"
    and "\<And>c. part_ok s K X c" and "\<And>i. desc_ok s K W i"
    and "\<And>t c. 1 \<le> c \<Longrightarrow> c < MAX_SZ_IDX \<Longrightarrow> cache_ok s W t c"
    and "\<And>i. i \<in> X \<Longrightarrow> \<exists>c. i \<in> nonfull s K c"
  shows "heap_inv s n K W X"
  using assms by (simp add: heap_inv_def)

lemma X_nonfull: "heap_inv s n K W X \<Longrightarrow> i \<in> X \<Longrightarrow> \<exists>c. K i = SbSmall c \<and> i \<in> nonfull s K c"
  by (auto simp: heap_inv_def nonfull_def)

lemma small_desc:
  assumes "heap_inv s n K W X" and "K i = SbSmall c"
  defines "d \<equiv> descs s (dA (desc_start s) i)"
  shows "d_heap d = Some c" "d_block_size d = bs_of c" "d_maxcount d = bn_of c"
    "d_superblock d = sbA (sb_start s) i"
    "anchor_ok s i c (blocks (sb_start s) K i) (in_sb (sb_start s) K W i) (d_anchor d)"
    "1 \<le> c" "c < MAX_SZ_IDX"
  using inv_desc[OF assms(1), of i] assms(2) inv_geo[OF assms(1)]
  by (auto simp: desc_ok_def geo_def d_def Let_def)

lemma large_desc:
  assumes "heap_inv s n K W X" and "K i = SbLarge m"
  defines "d \<equiv> descs s (dA (desc_start s) i)"
  shows "d_heap d = Some 0" "d_block_size d = m * SBSIZE" "d_superblock d = sbA (sb_start s) i"
    "0 < m" "m < 65536" "\<And>j. 0 < j \<Longrightarrow> j < m \<Longrightarrow> K (i + j) = SbTail"
  using inv_desc[OF assms(1), of i] assms(2) inv_geo[OF assms(1)]
  by (auto simp: desc_ok_def geo_def d_def Let_def)

lemma owner_block: "own_ok st K W \<Longrightarrow> W a \<noteq> NoBlock \<Longrightarrow> \<exists>i. a \<in> blocks st K i"
  by (simp add: own_ok_def)

lemma block_owner: "own_ok st K W \<Longrightarrow> a \<in> blocks st K i \<Longrightarrow> W a \<noteq> NoBlock"
  by (auto simp: own_ok_def)

lemma own_class:
  "own_ok st K W \<Longrightarrow> K i = SbSmall c \<Longrightarrow> a \<in> blocks st K i \<Longrightarrow> W a = Cached t c' \<Longrightarrow> c' = c"
  unfolding own_ok_def by blast

lemma own_large: "own_ok st K W \<Longrightarrow> K i = SbLarge m \<Longrightarrow> W (sbA st i) = Live"
  unfolding own_ok_def by blast

lemma own_okI:
  assumes "\<And>a. W a \<noteq> NoBlock \<longleftrightarrow> (\<exists>i. a \<in> blocks st K i)"
    and "\<And>i m. K i = SbLarge m \<Longrightarrow> W (sbA st i) = Live"
    and "\<And>i c a t c'. K i = SbSmall c \<Longrightarrow> a \<in> blocks st K i \<Longrightarrow> W a = Cached t c' \<Longrightarrow> c' = c"
  shows "own_ok st K W"
  using assms unfolding own_ok_def by blast

text \<open>A cached block, or one in its superblock's list, is a block of a small superblock.\<close>

lemma free_block_small:
  assumes "own_ok st K W" and "W a = Cached t c \<or> W a = InSb"
  shows "\<exists>i c'. K i = SbSmall c' \<and> a \<in> blocks st K i \<and> (W a = Cached t c \<longrightarrow> c' = c)"
proof -
  obtain i where i: "a \<in> blocks st K i" using owner_block[OF assms(1), of a] assms(2) by auto
  show ?thesis
  proof (cases "K i")
    case (SbSmall c')
    moreover have "W a = Cached t c \<longrightarrow> c' = c"
      using SbSmall i assms(1) unfolding own_ok_def by blast
    ultimately show ?thesis using i by blast
  next
    case (SbLarge m)
    then have "W a = Live" using i assms(1) by (auto simp: blocks_def own_ok_def)
    with assms(2) show ?thesis by auto
  qed (use i in \<open>auto simp: blocks_def\<close>)
qed

end
