(* ===== verification/AllocSteps.thy ===== *)
theory AllocSteps
  imports AllocInv
begin

text \<open>
  The steps the allocator's operations are made of, each with its effect on the ghost state:
  frame rules for writes nobody else sees, moving superblocks between uses, the free list, the
  partial lists, and moving blocks between a superblock, a cache and the application.
\<close>

section \<open>Frame rules\<close>

lemma blocks_cong: "K' i = K i \<Longrightarrow> blocks st K' i = blocks st K i"
  by (simp add: blocks_def)

lemma anchor_ok_cong:
  "mem s' = mem s \<Longrightarrow> sb_start s' = sb_start s \<Longrightarrow> anchor_ok s' = anchor_ok s"
  by (intro ext) (simp only: anchor_ok_def)

lemma desc_ok_same:
  assumes "desc_ok s K W i" and "K' i = K i"
    and "descs s' (dA (desc_start s) i) = descs s (dA (desc_start s) i)"
    and "mem s' = mem s" "sb_start s' = sb_start s" "desc_start s' = desc_start s"
    and "in_sb (sb_start s) K' W' i = in_sb (sb_start s) K W i"
  shows "desc_ok s' K' W' i"
  using assms anchor_ok_cong[OF assms(4,5)] blocks_cong[of K' i K]
  by (cases "K i") (simp_all add: desc_ok_def)

lemma in_sb_same:
  "K' i = K i \<Longrightarrow> (\<And>a. a \<in> blocks st K i \<Longrightarrow> W' a = InSb \<longleftrightarrow> W a = InSb) \<Longrightarrow>
   in_sb st K' W' i = in_sb st K W i"
  using blocks_cong[of K' i K] by (auto simp: in_sb_def)

lemma desc_ok_unused: "\<not> (\<exists>c. K i = SbSmall c) \<Longrightarrow> \<not> (\<exists>m. K i = SbLarge m) \<Longrightarrow> desc_ok s K W i"
  by (cases "K i") (auto simp: desc_ok_def)

text \<open>Kinds of a superblock that is not part of a large block.\<close>

definition plain :: "sbkind \<Rightarrow> bool" where
  "plain k \<longleftrightarrow>
     (case k of SbFree \<Rightarrow> True | SbTaken \<Rightarrow> True | SbSmall c \<Rightarrow> 1 \<le> c \<and> c < MAX_SZ_IDX | _ \<Rightarrow> False)"

lemma plain_simps [simp]:
  "plain SbFree" "plain SbTaken" "plain (SbSmall c) \<longleftrightarrow> 1 \<le> c \<and> c < MAX_SZ_IDX"
  "\<not> plain Unmapped" "\<not> plain SbTail" "\<not> plain (SbLarge m)"
  by (simp_all add: plain_def)

lemma geo_change:
  assumes g: "geo s n K" and K: "\<And>i. K' i \<noteq> K i \<Longrightarrow> plain (K i) \<and> plain (K' i)"
  shows "geo s n K'"
proof -
  have un: "K' j = Unmapped \<longleftrightarrow> K j = Unmapped" for j using K[of j] by (cases "K' j = K j") auto
  have small: "1 \<le> c \<and> c < MAX_SZ_IDX" if "K' j = SbSmall c" for j c
    using K[of j] that geo_class[OF g, of j c] by (cases "K' j = K j") auto
  have large: "K' j = SbLarge m \<longleftrightarrow> K j = SbLarge m" for j m using K[of j] by (cases "K' j = K j") auto
  have tail: "K' j = SbTail \<longleftrightarrow> K j = SbTail" for j using K[of j] by (cases "K' j = K j") auto
  have a: "\<forall>j m. K j = SbLarge m \<longrightarrow> 0 < m \<and> m < 65536 \<and> (\<forall>l. 0 < l \<and> l < m \<longrightarrow> K (j + l) = SbTail)"
    and b: "\<forall>j. K j = SbTail \<longrightarrow> (\<exists>i' m. K i' = SbLarge m \<and> i' < j \<and> j < i' + m)"
    and c: "\<forall>j. K j = Unmapped \<longleftrightarrow> j = 0 \<or> j \<ge> n"
    using g by (simp_all add: geo_def)
  have "\<forall>j c. K' j = SbSmall c \<longrightarrow> 1 \<le> c \<and> c < MAX_SZ_IDX" using small by blast
  with a b c g show ?thesis unfolding geo_def un large tail by blast
qed

lemma geo_upd: "geo s n K \<Longrightarrow> plain (K i) \<Longrightarrow> plain k \<Longrightarrow> geo s n (K(i := k))"
  by (rule geo_change) (auto split: if_splits)

lemma ex_minus:
  assumes "\<And>j. B' j = (if j = i then {} else B j)" and "a \<notin> B i"
  shows "(\<exists>j. a \<in> B' j) \<longleftrightarrow> (\<exists>j. a \<in> B j)"
proof
  assume "\<exists>j. a \<in> B j"
  then obtain j where "a \<in> B j" by blast
  with assms have "a \<in> B' j" by auto
  then show "\<exists>j. a \<in> B' j" by blast
qed (use assms(1) in \<open>auto split: if_splits\<close>)

definition used_desc :: "sbkind \<Rightarrow> bool" where
  "used_desc k \<longleftrightarrow> (case k of SbFree \<Rightarrow> True | SbSmall c \<Rightarrow> True | SbLarge m \<Rightarrow> True | _ \<Rightarrow> False)"

text \<open>A write to descriptors no list and no superblock uses.\<close>

lemma inv_descs_frame:
  assumes inv: "heap_inv s n K W X"
    and ds: "\<And>i. used_desc (K i) \<Longrightarrow> ds (dA (desc_start s) i) = descs s (dA (desc_start s) i)"
  shows "heap_inv (s\<lparr>descs := ds\<rparr>) n K W X"
proof (rule heap_invI)
  let ?s = "s\<lparr>descs := ds\<rparr>"
  have nf: "nonfull ?s K c = nonfull s K c" for c
    using ds by (auto simp: nonfull_def used_desc_def)
  show "geo ?s n K" "own_ok (sb_start ?s) K W"
    using inv_geo[OF inv] inv_own[OF inv] by (simp_all add: geo_def)
  obtain xs where xs: "nlist (\<lambda>d. d_next_free (descs s d)) (h_ptr (avail_sb s)) xs" "distinct xs"
      "set xs = dA (desc_start s) ` {i. K i = SbFree}"
    using inv_free[OF inv] by (auto simp: free_ok_def)
  have "nlist (\<lambda>d. d_next_free (ds d)) (h_ptr (avail_sb s)) xs"
    using xs(3) ds by (intro nlist_upd[OF xs(1)]) (auto simp: used_desc_def)
  with xs show "free_ok ?s K" by (auto simp: free_ok_def)
  show "part_ok ?s K X c" for c
  proof -
    obtain xs where xs: "nlist (\<lambda>d. d_next_partial (descs s d)) (h_ptr (partial_list s c)) xs"
        "distinct xs" "set xs = dA (desc_start s) ` (nonfull s K c - X)"
      using inv_part[OF inv, of c] by (auto simp: part_ok_def)
    have "nlist (\<lambda>d. d_next_partial (ds d)) (h_ptr (partial_list s c)) xs"
      using xs(3) ds by (intro nlist_upd[OF xs(1)]) (auto simp: nonfull_def used_desc_def)
    with xs nf show ?thesis by (auto simp: part_ok_def)
  qed
  show "desc_ok ?s K W i" for i
    using inv_desc[OF inv, of i] ds[of i]
    by (auto simp: desc_ok_def anchor_ok_def used_desc_def Let_def split: sbkind.splits SuperblockState.splits)
  show "cache_ok ?s W t c" if "1 \<le> c" "c < MAX_SZ_IDX" for t c
    using inv_cache[OF inv that] by (simp add: cache_ok_def)
  show "\<exists>c. i \<in> nonfull ?s K c" if "i \<in> X" for i
    using X_nonfull[OF inv that] nf by auto
qed

text \<open>A write to memory outside the free blocks: into a live block, or outside all blocks.\<close>

lemma inv_mem_frame:
  assumes inv: "heap_inv s n K W X"
    and m: "\<And>a. W a \<noteq> NoBlock \<Longrightarrow> W a \<noteq> Live \<Longrightarrow> m a = mem s a"
  shows "heap_inv (s\<lparr>mem := m\<rparr>) n K W X"
proof (rule heap_invI)
  let ?s = "s\<lparr>mem := m\<rparr>"
  show "geo ?s n K" "own_ok (sb_start ?s) K W" "free_ok ?s K"
    using inv_geo[OF inv] inv_own[OF inv] inv_free[OF inv] by (simp_all add: geo_def free_ok_def)
  show "part_ok ?s K X c" for c
    using inv_part[OF inv, of c] by (simp add: part_ok_def nonfull_def)
  have ch: "chain m p xs = chain (mem s) p xs" if "\<And>x. x \<in> set xs \<Longrightarrow> W x = InSb" for p xs
    using that m by (intro chain_cong) auto
  show "desc_ok ?s K W i" for i
  proof (cases "K i")
    case (SbSmall c)
    have "anchor_ok ?s i c (blocks (sb_start s) K i) (in_sb (sb_start s) K W i) A"
      if "anchor_ok s i c (blocks (sb_start s) K i) (in_sb (sb_start s) K W i) A" for A
    proof (cases "state A = SB_PARTIAL")
      case True
      then obtain xs where xs: "chain (mem s) (sbA (sb_start s) i + avail A * bs_of c) xs"
          "distinct xs" "set xs = in_sb (sb_start s) K W i" "length xs = count A"
        using \<open>anchor_ok s i c _ _ A\<close> by (auto simp: anchor_ok_def)
      have "chain m (sbA (sb_start s) i + avail A * bs_of c) xs"
        using xs(1,3) by (subst ch) (auto simp: in_sb_def)
      with xs True \<open>anchor_ok s i c _ _ A\<close> show ?thesis by (auto simp: anchor_ok_def)
    qed (use \<open>anchor_ok s i c _ _ A\<close> in \<open>auto simp: anchor_ok_def split: SuperblockState.splits\<close>)
    with SbSmall show ?thesis using inv_desc[OF inv, of i] by (auto simp: desc_ok_def Let_def)
  qed (use inv_desc[OF inv, of i] in \<open>auto simp: desc_ok_def\<close>)
  show "cache_ok ?s W t c" if c: "1 \<le> c" "c < MAX_SZ_IDX" for t c
  proof -
    obtain xs where xs: "bin_list (mem s) (t_caches s t c) xs" "set xs = {a. W a = Cached t c}"
        "cb_block_num (t_caches s t c) \<le> cache_block_num (get_sizeclass_by_idx c)"
      using inv_cache[OF inv c, of t] by (auto simp: cache_ok_def)
    have "bin_list m (t_caches s t c) xs"
      using xs(2) m by (intro bin_list_frame[OF _ xs(1)]) auto
    with xs show ?thesis by (auto simp: cache_ok_def)
  qed
  show "\<exists>c. i \<in> nonfull ?s K c" if "i \<in> X" for i
    using X_nonfull[OF inv that] by (auto simp: nonfull_def)
qed

section \<open>Taking superblocks out of use\<close>

text \<open>An empty superblock that is on no partial list.\<close>

lemma inv_take_empty:
  assumes inv: "heap_inv s n K W X" and i: "i \<in> X" and Ki: "K i = SbSmall c"
    and st: "state (d_anchor (descs s (dA (desc_start s) i))) = SB_EMPTY"
  defines "W' \<equiv> \<lambda>a. if a \<in> blocks (sb_start s) K i then NoBlock else W a"
  shows "heap_inv s n (K(i := SbTaken)) W' (X - {i})"
proof (rule heap_invI)
  let ?K = "K(i := SbTaken)"
  let ?st = "sb_start s"
  note geo = inv_geo[OF inv] and own = inv_own[OF inv]
  have insb: "W a = InSb" if "a \<in> blocks ?st K i" for a
    using small_desc(5)[OF inv Ki] st that by (auto simp: anchor_ok_def in_sb_def)
  have bl: "blocks ?st ?K j = (if j = i then {} else blocks ?st K j)" for j
    by (simp add: blocks_def)
  have W': "W' a = W a" if "a \<in> blocks ?st K j" "j \<noteq> i" for a j
    using blocks_other[OF geo that(1), of i] that(2) by (auto simp: W'_def)
  show "geo s n ?K" using geo_class[OF geo Ki] Ki by (intro geo_upd[OF geo]) auto
  show "own_ok ?st ?K W'"
  proof (rule own_okI)
    show "W' a \<noteq> NoBlock \<longleftrightarrow> (\<exists>j. a \<in> blocks ?st ?K j)" for a
    proof (cases "a \<in> blocks ?st K i")
      case True
      then show ?thesis using blocks_other[OF geo True] by (simp add: W'_def bl)
    next
      case False
      then have "(\<exists>j. a \<in> blocks ?st ?K j) \<longleftrightarrow> (\<exists>j. a \<in> blocks ?st K j)"
        using bl by (intro ex_minus[of _ i])
      then show ?thesis using False own by (simp add: own_ok_def W'_def)
    qed
    show "W' (sbA ?st j) = Live" if "?K j = SbLarge q" for j q
    proof -
      have j: "j \<noteq> i" "K j = SbLarge q" using that by (auto split: if_splits)
      then show ?thesis using W'[of "sbA ?st j" j] own_large[OF own j(2)] by (simp add: blocks_def)
    qed
    show "c' = c" if "?K j = SbSmall c" "a \<in> blocks ?st ?K j" "W' a = Cached t c'" for j c a t c'
    proof -
      have j: "j \<noteq> i" "K j = SbSmall c" "a \<in> blocks ?st K j" using that bl by (auto split: if_splits)
      have "W a = Cached t c'" using W'[OF j(3,1)] that(3) by simp
      with j show ?thesis by (intro own_class[OF own])
    qed
  qed
  have "{j. ?K j = SbFree} = {j. K j = SbFree}" using Ki by auto
  then show "free_ok s ?K" using inv_free[OF inv] by (simp add: free_ok_def)
  show "part_ok s ?K (X - {i}) c'" for c'
  proof -
    have "nonfull s ?K c' - (X - {i}) = nonfull s K c' - X" using i Ki by (auto simp: nonfull_def)
    then show ?thesis using inv_part[OF inv, of c'] by (simp add: part_ok_def)
  qed
  show "desc_ok s ?K W' j" for j
  proof (cases "j = i")
    case False
    then show ?thesis using W' by (intro desc_ok_same[OF inv_desc[OF inv]] in_sb_same) auto
  qed (simp add: desc_ok_def)
  show "cache_ok s W' t c'" if "1 \<le> c'" "c' < MAX_SZ_IDX" for t c'
  proof -
    have "{a. W' a = Cached t c'} = {a. W a = Cached t c'}" using insb by (auto simp: W'_def)
    then show ?thesis using inv_cache[OF inv that, of t] by (simp add: cache_ok_def)
  qed
  show "\<exists>c. j \<in> nonfull s ?K c" if "j \<in> X - {i}" for j
    using X_nonfull[OF inv, of j] that by (auto simp: nonfull_def)
qed

text \<open>A large block that is freed: all its superblocks.\<close>

lemma inv_take_large:
  assumes inv: "heap_inv s n K W X" and Ki: "K i = SbLarge m"
  defines "K' \<equiv> \<lambda>j. if i \<le> j \<and> j < i + m then SbTaken else K j"
  shows "heap_inv s n K' (W(sbA (sb_start s) i := NoBlock)) X"
proof (rule heap_invI)
  let ?st = "sb_start s"
  let ?W = "W(sbA ?st i := NoBlock)"
  note geo = inv_geo[OF inv] and own = inv_own[OF inv]
  note tails = large_desc(6)[OF inv Ki] and m = large_desc(4,5)[OF inv Ki]
  have inside: "K j = (if j = i then SbLarge m else SbTail)" if "i \<le> j" "j < i + m" for j
    using tails[of "j - i"] Ki that by auto
  have bl: "blocks ?st K' j = (if j = i then {} else blocks ?st K j)" for j
    using inside[of j] m(1) by (auto simp: blocks_def K'_def)
  have W: "?W a = W a" if "a \<in> blocks ?st K j" "j \<noteq> i" for a j
    using blocks_disjoint[OF geo that(1), of i] that(2) Ki by (auto simp: blocks_def)
  have keep: "K' j = SbLarge q \<longleftrightarrow> j \<noteq> i \<and> K j = SbLarge q" for j q
    using inside[of j] m(1) by (auto simp: K'_def)
  have small: "K' j = SbSmall q \<longleftrightarrow> K j = SbSmall q" for j q
    using inside[of j] by (auto simp: K'_def)
  have sep: "j + q \<le> i \<or> i + m \<le> j" if "K j = SbLarge q" "j \<noteq> i" for j q
  proof (rule ccontr)
    assume "\<not> ?thesis"
    then have o: "i < j + q" "j < i + m" by auto
    show False
    proof (cases "i < j")
      case True
      with inside[of j] o that show False by auto
    next
      case False
      with that(2) have "j < i" by auto
      then have "K (j + (i - j)) = SbTail"
        using large_desc(6)[OF inv that(1), of "i - j"] o by auto
      with Ki \<open>j < i\<close> show False by auto
    qed
  qed
  show "geo s n K'"
  proof -
    have un: "K' j = Unmapped \<longleftrightarrow> K j = Unmapped" for j using inside[of j] by (auto simp: K'_def)
    have tail: "\<exists>i' q. K' i' = SbLarge q \<and> i' < j \<and> j < i' + q" if "K' j = SbTail" for j
    proof -
      have "K j = SbTail" "\<not> (i \<le> j \<and> j < i + m)" using that by (auto simp: K'_def split: if_splits)
      then obtain i' q where q: "K i' = SbLarge q" "i' < j" "j < i' + q"
        using geo unfolding geo_def by blast
      then have "i' \<noteq> i" using \<open>\<not> (i \<le> j \<and> j < i + m)\<close> Ki by auto
      with q keep show ?thesis by blast
    qed
    have large: "K' (j + k) = SbTail" if "K' j = SbLarge q" "0 < k" "k < q" for j q k
    proof -
      have "K j = SbLarge q" "j \<noteq> i" using that(1) keep by auto
      then have "K (j + k) = SbTail" "j + q \<le> i \<or> i + m \<le> j"
        using large_desc(6)[OF inv _ that(2,3)] sep by auto
      then show ?thesis using that by (auto simp: K'_def)
    qed
    show ?thesis using geo un tail large small keep unfolding geo_def by auto
  qed
  show "own_ok ?st K' ?W"
  proof (rule own_okI)
    show "?W a \<noteq> NoBlock \<longleftrightarrow> (\<exists>j. a \<in> blocks ?st K' j)" for a
    proof (cases "a = sbA ?st i")
      case True
      have "a \<in> blocks ?st K i" using True Ki by (simp add: blocks_def)
      from blocks_other[OF geo this] show ?thesis using True by (simp add: bl)
    next
      case False
      then have "a \<notin> blocks ?st K i" using Ki by (simp add: blocks_def)
      then have "(\<exists>j. a \<in> blocks ?st K' j) \<longleftrightarrow> (\<exists>j. a \<in> blocks ?st K j)"
        using bl by (intro ex_minus[of _ i])
      then show ?thesis using False own by (simp add: own_ok_def)
    qed
    show "?W (sbA ?st j) = Live" if "K' j = SbLarge q" for j q
      using that keep own_large[OF own, of j] by auto
    show "c' = c" if "K' j = SbSmall c" "a \<in> blocks ?st K' j" "?W a = Cached t c'" for j c a t c'
    proof -
      have j: "K j = SbSmall c" "a \<in> blocks ?st K j" using that small bl by (auto split: if_splits)
      moreover have "W a = Cached t c'" using that(3) by (auto split: if_splits)
      ultimately show ?thesis by (rule own_class[OF own])
    qed
  qed
  have "K' j = SbFree \<longleftrightarrow> K j = SbFree" for j using inside[of j] by (auto simp: K'_def)
  then show "free_ok s K'" using inv_free[OF inv] by (simp add: free_ok_def)
  have nf: "nonfull s K' c = nonfull s K c" for c using small by (auto simp: nonfull_def)
  show "part_ok s K' X c" for c using inv_part[OF inv, of c] by (simp add: part_ok_def nf)
  show "desc_ok s K' ?W j" for j
  proof (cases "K' j = K j \<and> j \<noteq> i")
    case True
    then show ?thesis using own_large[OF own Ki]
      by (intro desc_ok_same[OF inv_desc[OF inv]] in_sb_same) auto
  next
    case False
    then have "K' j = SbTaken" using m(1) by (auto simp: K'_def)
    then show ?thesis by (intro desc_ok_unused) simp_all
  qed
  show "cache_ok s ?W t c" if "1 \<le> c" "c < MAX_SZ_IDX" for t c
  proof -
    have "W (sbA ?st i) = Live" using own Ki by (auto simp: own_ok_def)
    then have "{a. ?W a = Cached t c} = {a. W a = Cached t c}" by auto
    then show ?thesis using inv_cache[OF inv that, of t] by (simp add: cache_ok_def)
  qed
  show "\<exists>c. j \<in> nonfull s K' c" if "j \<in> X" for j
    using X_nonfull[OF inv that] nf by auto
qed

section \<open>The free list\<close>

text \<open>Superblocks move between the free list and the running operation.\<close>

lemma inv_free_change:
  assumes inv: "heap_inv s n K W X"
    and K: "\<And>i. K' i \<noteq> K i \<Longrightarrow> K i \<in> {SbFree, SbTaken} \<and> K' i \<in> {SbFree, SbTaken}"
    and free: "free_ok (s\<lparr>avail_sb := h\<rparr>) K'"
  shows "heap_inv (s\<lparr>avail_sb := h\<rparr>) n K' W X"
proof (rule heap_invI)
  let ?s = "s\<lparr>avail_sb := h\<rparr>"
  have same: "K' i = SbSmall c \<longleftrightarrow> K i = SbSmall c" "K' i = SbLarge q \<longleftrightarrow> K i = SbLarge q" for i c q
    using K[of i] by (cases "K' i = K i"; auto)+
  have bl: "blocks st K' i = blocks st K i" for st i
    using K[of i] by (cases "K' i = K i") (auto simp: blocks_def)
  have "geo s n K'" using K by (intro geo_change[OF inv_geo[OF inv]]) force
  then show "geo ?s n K'" by (simp add: geo_def)
  show "own_ok (sb_start ?s) K' W" using inv_own[OF inv] by (simp add: own_ok_def bl same)
  show "free_ok ?s K'" by (rule free)
  have nf: "nonfull ?s K' c = nonfull s K c" for c using same by (auto simp: nonfull_def)
  show "part_ok ?s K' X c" for c using inv_part[OF inv, of c] nf by (simp add: part_ok_def)
  show "desc_ok ?s K' W i" for i
  proof (cases "K' i = K i")
    case True
    then show ?thesis by (intro desc_ok_same[OF inv_desc[OF inv]] in_sb_same) auto
  next
    case False
    then show ?thesis using K[OF False] by (intro desc_ok_unused) auto
  qed
  show "cache_ok ?s W t c" if "1 \<le> c" "c < MAX_SZ_IDX" for t c
    using inv_cache[OF inv that, of t] by (simp add: cache_ok_def)
  show "\<exists>c. i \<in> nonfull ?s K' c" if "i \<in> X" for i
    using X_nonfull[OF inv that] nf by auto
qed

lemma organize_loop_spec:
  assumes "organize_loop m d ds = (d', ds')" and "ds d = Descriptor_init"
  shows "d' = d + m * DESCSIZE"
    and "\<And>k. k \<le> m \<Longrightarrow> ds' (d + k * DESCSIZE) =
           (if k < m then Descriptor_init\<lparr>d_next_free := d + (k + 1) * DESCSIZE\<rparr> else Descriptor_init)"
    and "\<And>x. (\<And>k. k \<le> m \<Longrightarrow> x \<noteq> d + k * DESCSIZE) \<Longrightarrow> ds' x = ds x"
proof -
  have "d' = d + m * DESCSIZE \<and>
    (\<forall>k\<le>m. ds' (d + k * DESCSIZE) =
       (if k < m then Descriptor_init\<lparr>d_next_free := d + (k + 1) * DESCSIZE\<rparr> else Descriptor_init)) \<and>
    (\<forall>x. (\<forall>k\<le>m. x \<noteq> d + k * DESCSIZE) \<longrightarrow> ds' x = ds x)"
    using assms
  proof (induction m arbitrary: d ds)
    case 0
    then show ?case by simp
  next
    case (Suc m)
    let ?d1 = "d + DESCSIZE"
    let ?ds1 = "(ds(d := (ds d)\<lparr>d_next_free := ?d1\<rparr>))(?d1 := Descriptor_init)"
    have run: "organize_loop m ?d1 ?ds1 = (d', ds')" using Suc.prems(1) by (simp add: Let_def)
    have IH: "d' = ?d1 + m * DESCSIZE"
      "\<And>k. k \<le> m \<Longrightarrow> ds' (?d1 + k * DESCSIZE) =
         (if k < m then Descriptor_init\<lparr>d_next_free := ?d1 + (k + 1) * DESCSIZE\<rparr> else Descriptor_init)"
      "\<And>x. (\<forall>k\<le>m. x \<noteq> ?d1 + k * DESCSIZE) \<Longrightarrow> ds' x = ?ds1 x"
      using Suc.IH[OF run] by auto
    have first: "ds' d = Descriptor_init\<lparr>d_next_free := ?d1\<rparr>"
      using IH(3)[of d] Suc.prems(2) by (simp add: DESCSIZE_def)
    have step: "ds' (d + k * DESCSIZE) =
        (if k < Suc m then Descriptor_init\<lparr>d_next_free := d + (k + 1) * DESCSIZE\<rparr> else Descriptor_init)"
      if "k \<le> Suc m" for k
    proof (cases k)
      case 0
      then show ?thesis using first by simp
    next
      case (Suc l)
      then have "ds' (d + k * DESCSIZE) = ds' (?d1 + l * DESCSIZE)" by (simp add: algebra_simps)
      with Suc that IH(2)[of l] show ?thesis by (simp add: algebra_simps)
    qed
    have other: "ds' x = ds x" if x: "\<forall>k\<le>Suc m. x \<noteq> d + k * DESCSIZE" for x
    proof -
      have "x \<noteq> ?d1 + k * DESCSIZE" if "k \<le> m" for k
        using x[rule_format, of "Suc k"] that by (simp add: algebra_simps)
      moreover have "x \<noteq> d" "x \<noteq> ?d1" using x[rule_format, of 0] x[rule_format, of 1] by simp_all
      ultimately show ?thesis using IH(3)[of x] by simp
    qed
    show ?case using IH(1) step other by simp
  qed
  then show "d' = d + m * DESCSIZE"
    "\<And>k. k \<le> m \<Longrightarrow> ds' (d + k * DESCSIZE) =
       (if k < m then Descriptor_init\<lparr>d_next_free := d + (k + 1) * DESCSIZE\<rparr> else Descriptor_init)"
    "\<And>x. (\<And>k. k \<le> m \<Longrightarrow> x \<noteq> d + k * DESCSIZE) \<Longrightarrow> ds' x = ds x"
    by blast+
qed

lemma nlist_upt:
  assumes "0 < dst" and "nlist f q xs"
    and "\<And>k. k < m \<Longrightarrow> f (dA dst (j + k)) = (if Suc k = m then q else dA dst (Suc (j + k)))"
  shows "nlist f (if m = 0 then q else dA dst j) (map (dA dst) [j..<j + m] @ xs)"
  using assms(3)
proof (induction m arbitrary: j)
  case 0
  then show ?case using assms(2) by simp
next
  case (Suc m)
  have "nlist f (if m = 0 then q else dA dst (Suc j)) (map (dA dst) [Suc j..<Suc j + m] @ xs)"
    using Suc.prems[of "Suc _"] by (intro Suc.IH) auto
  moreover have "f (dA dst j) = (if m = 0 then q else dA dst (Suc j))" using Suc.prems[of 0] by simp
  ultimately show ?case using assms(1) by (simp add: upt_conv_Cons del: upt_Suc)
qed

lemma small_sb_retire_organize:
  "small_sb_retire s sb SBSIZE = Ret (organize_sb_list s sb 1)"
  by (simp add: small_sb_retire_def organize_sb_list_def upd_desc_def Let_def)

lemma inv_organize:
  assumes inv: "heap_inv s n K W X" and m: "0 < m"
    and tk: "\<And>i. j \<le> i \<Longrightarrow> i < j + m \<Longrightarrow> K i = SbTaken"
  defines "K' \<equiv> \<lambda>i. if j \<le> i \<and> i < j + m then SbFree else K i"
  shows "heap_inv (organize_sb_list s (sbA (sb_start s) j) m) n K' W X"
proof -
  let ?d = "dA (desc_start s) j"
  have geo0: "0 < desc_start s" "SBSIZE dvd sb_start s" using inv_geo[OF inv] by (auto simp: geo_def)
  obtain d1 ds1 where loop: "organize_loop (m - 1) ?d ((descs s)(?d := Descriptor_init)) = (d1, ds1)"
    by (cases "organize_loop (m - 1) ?d ((descs s)(?d := Descriptor_init))")
  note spec = organize_loop_spec[OF loop]
  define ds where "ds = ds1(d1 := (ds1 d1)\<lparr>d_next_free := h_ptr (avail_sb s)\<rparr>)"
  let ?s = "s\<lparr>descs := ds, avail_sb := head_set ?d (h_cnt (avail_sb s) + 1)\<rparr>"
  have org: "organize_sb_list s (sbA (sb_start s) j) m = ?s"
    unfolding organize_sb_list_def desc_lookup_sbA[OF geo0(2)] Let_def loop ds_def by simp
  have dk: "?d + k * DESCSIZE = dA (desc_start s) (j + k)" for k by (simp add: dA_def algebra_simps)
  have d1: "d1 = dA (desc_start s) (j + (m - 1))" using spec(1) dk by simp
  have out: "ds (dA (desc_start s) i) = descs s (dA (desc_start s) i)" if "\<not> (j \<le> i \<and> i < j + m)" for i
  proof -
    have "dA (desc_start s) i \<noteq> ?d + k * DESCSIZE" if "k \<le> m - 1" for k
      unfolding dk using that m \<open>\<not> (j \<le> i \<and> i < j + m)\<close> by auto
    moreover from this[of 0] have "i \<noteq> j" by auto
    ultimately show ?thesis using spec(3)[of "dA (desc_start s) i"] d1 m that
      by (auto simp: ds_def)
  qed
  have nf: "d_next_free (ds (dA (desc_start s) (j + k))) =
      (if Suc k = m then h_ptr (avail_sb s) else dA (desc_start s) (Suc (j + k)))" if "k < m" for k
  proof (cases "Suc k = m")
    case True
    then have "k = m - 1" by simp
    then show ?thesis using True d1 by (simp add: ds_def)
  next
    case False
    then have "k < m - 1" using that by simp
    then have "ds1 (dA (desc_start s) (j + k)) = Descriptor_init\<lparr>d_next_free := dA (desc_start s) (j + (k + 1))\<rparr>"
      using spec(2)[of k] unfolding dk by simp
    moreover have "dA (desc_start s) (j + k) \<noteq> d1" using d1 \<open>k < m - 1\<close> by simp
    ultimately show ?thesis using False by (simp add: ds_def)
  qed
  have inv1: "heap_inv (s\<lparr>descs := ds\<rparr>) n K W X"
  proof (rule inv_descs_frame[OF inv])
    fix i assume "used_desc (K i)"
    then have "\<not> (j \<le> i \<and> i < j + m)" using tk[of i] by (auto simp: used_desc_def)
    then show "ds (dA (desc_start s) i) = descs s (dA (desc_start s) i)" by (rule out)
  qed
  let ?s1 = "s\<lparr>descs := ds\<rparr>"
  obtain xs where xs: "nlist (\<lambda>d. d_next_free (ds d)) (h_ptr (avail_sb s)) xs" "distinct xs"
      "set xs = dA (desc_start s) ` {i. K i = SbFree}"
    using inv_free[OF inv1] by (auto simp: free_ok_def)
  have "nlist (\<lambda>d. d_next_free (ds d)) ?d (map (dA (desc_start s)) [j..<j + m] @ xs)"
    using nlist_upt[OF geo0(1) xs(1) nf] m by simp
  moreover have "distinct (map (dA (desc_start s)) [j..<j + m] @ xs)"
    using xs(2,3) tk by (auto simp: distinct_map inj_on_def)
  moreover have "set (map (dA (desc_start s)) [j..<j + m] @ xs) = dA (desc_start s) ` {i. K' i = SbFree}"
    using xs(3) tk by (auto simp: K'_def)
  ultimately have "free_ok (?s1\<lparr>avail_sb := head_set ?d (h_cnt (avail_sb s) + 1)\<rparr>) K'"
    unfolding free_ok_def
    by (intro exI[of _ "map (dA (desc_start s)) [j..<j + m] @ xs"]) (simp add: head_set_def)
  then have "heap_inv (?s1\<lparr>avail_sb := head_set ?d (h_cnt (avail_sb s) + 1)\<rparr>) n K' W X"
    by (rule inv_free_change[OF inv1, rotated]) (use tk in \<open>auto simp: K'_def split: if_splits\<close>)
  then show ?thesis by (simp add: org)
qed

text \<open>Taking the first superblock of the free list.\<close>

lemma inv_pop_free:
  assumes inv: "heap_inv s n K W X" and h: "h_ptr (avail_sb s) \<noteq> 0"
  shows "\<exists>i hd'. K i = SbFree \<and>
    small_sb_alloc s SBSIZE = Ret (sbA (sb_start s) i, s\<lparr>avail_sb := hd'\<rparr>) \<and>
    heap_inv (s\<lparr>avail_sb := hd'\<rparr>) n (K(i := SbTaken)) W X"
proof -
  obtain xs where xs: "nlist (\<lambda>d. d_next_free (descs s d)) (h_ptr (avail_sb s)) xs" "distinct xs"
      "set xs = dA (desc_start s) ` {i. K i = SbFree}"
    using inv_free[OF inv] by (auto simp: free_ok_def)
  obtain ys where ys: "xs = h_ptr (avail_sb s) # ys"
      "nlist (\<lambda>d. d_next_free (descs s d)) (d_next_free (descs s (h_ptr (avail_sb s)))) ys"
    using nlist_head[OF xs(1) h] by auto
  obtain i where i: "K i = SbFree" "h_ptr (avail_sb s) = dA (desc_start s) i"
    using xs(3) ys(1) by auto
  define hd' where "hd' = head_set (d_next_free (descs s (h_ptr (avail_sb s)))) (h_cnt (avail_sb s))"
  have dv: "DESCSIZE dvd desc_start s" using inv_geo[OF inv] by (simp add: geo_def)
  have alloc: "small_sb_alloc s SBSIZE = Ret (sbA (sb_start s) i, s\<lparr>avail_sb := hd'\<rparr>)"
    using h sb_lookup_dA[OF dv, of i] by (simp add: small_sb_alloc_def hd'_def i(2))
  have "set ys = set xs - {dA (desc_start s) i}" using xs(2) ys(1) i(2) by auto
  also have "\<dots> = dA (desc_start s) ` {j. (K(i := SbTaken)) j = SbFree}" unfolding xs(3) by auto
  finally have "free_ok (s\<lparr>avail_sb := hd'\<rparr>) (K(i := SbTaken))"
    unfolding free_ok_def using ys xs(2) by (intro exI[of _ ys]) (simp add: hd'_def head_set_def)
  then have "heap_inv (s\<lparr>avail_sb := hd'\<rparr>) n (K(i := SbTaken)) W X"
    by (rule inv_free_change[OF inv, rotated]) (use i(1) in \<open>auto split: if_splits\<close>)
  with i(1) alloc show ?thesis by blast
qed

section \<open>Growing the region\<close>

lemma inv_grow:
  assumes inv: "heap_inv s n K W X" and n: "0 < n"
    and r: "region_ok r" "unat (rm_curr_addr r) = sb_start s + (n + k) * SBSIZE"
  defines "K' \<equiv> \<lambda>i. if n \<le> i \<and> i < n + k then SbTaken else K i"
  shows "heap_inv (s\<lparr>sb_region := r\<rparr>) (n + k) K' W X"
proof (rule heap_invI)
  let ?s = "s\<lparr>sb_region := r\<rparr>"
  note geo = inv_geo[OF inv]
  have new: "K i = Unmapped" if "n \<le> i" for i using geo that by (auto simp: geo_def)
  have same: "K' i = SbSmall c \<longleftrightarrow> K i = SbSmall c" "K' i = SbLarge q \<longleftrightarrow> K i = SbLarge q"
    "K' i = SbFree \<longleftrightarrow> K i = SbFree" "K' i = SbTail \<longleftrightarrow> K i = SbTail" for i c q
    using new[of i] by (auto simp: K'_def)
  have bl: "blocks st K' i = blocks st K i" for st i
    using new[of i] by (auto simp: blocks_def K'_def)
  have "K' i = Unmapped \<longleftrightarrow> i = 0 \<or> i \<ge> n + k" for i
    using geo n by (auto simp: geo_def K'_def)
  then show "geo ?s (n + k) K'" using geo r by (simp add: geo_def same)
  show "own_ok (sb_start ?s) K' W" using inv_own[OF inv] by (simp add: own_ok_def bl same)
  show "free_ok ?s K'" using inv_free[OF inv] by (simp add: free_ok_def same)
  have nf: "nonfull ?s K' c = nonfull s K c" for c by (simp add: nonfull_def same)
  show "part_ok ?s K' X c" for c using inv_part[OF inv, of c] nf by (simp add: part_ok_def)
  show "desc_ok ?s K' W i" for i
  proof (cases "K' i = K i")
    case True
    then show ?thesis by (intro desc_ok_same[OF inv_desc[OF inv]] in_sb_same) auto
  next
    case False
    then show ?thesis using new[of i] by (intro desc_ok_unused) (auto simp: K'_def split: if_splits)
  qed
  show "cache_ok ?s W t c" if "1 \<le> c" "c < MAX_SZ_IDX" for t c
    using inv_cache[OF inv that, of t] by (simp add: cache_ok_def)
  show "\<exists>c. i \<in> nonfull ?s K' c" if "i \<in> X" for i
    using X_nonfull[OF inv that] nf by auto
qed

text \<open>The inlined expansion of \<^verbatim>\<open>small_sb_alloc\<close> is the region allocator.\<close>

lemma page_shift: "PAGESIZE64 = 2 ^ 12" by (simp add: PAGESIZE64_def)

lemma small_sb_expand_eq:
  assumes "region_ok (sb_region s)"
  shows "small_sb_expand s =
    (case nvm_region_allocator (sb_region s) (sb_region s) PAGESIZE64 (word_of_nat SB_REGION_EXPAND_SIZE) of
       (res, None, r) \<Rightarrow> Abort ''out of space in mmaped file''
     | (res, Some p, r) \<Rightarrow>
         let s1 = s\<lparr>sb_region := r\<rparr>;
             s2 = organize_sb_list s1 (unat p + SBSIZE) (SB_REGION_EXPAND_SIZE div SBSIZE - 1)
         in Ret (unat p, upd_desc (desc_lookup s2 (unat p)) (\<lambda>_. Descriptor_init) s2))"
proof -
  let ?r = "sb_region s"
  have f: "f_curr_addr (header ?r) = to_pptr_off (rm_curr_addr ?r) (base_addr ?r)"
    using assms by (simp add: region_ok_def)
  have "(PAGESIZE64 AND (NOT PAGESIZE64 + 1)) = PAGESIZE64" "\<not> PAGESIZE64 < 8"
    using pow2_word_test[of 12] unfolding page_shift by simp_all
  moreover have "\<not> (word_of_nat SB_REGION_EXPAND_SIZE :: u64) \<le> 0"
    by (simp add: SB_REGION_EXPAND_SIZE_def)
  ultimately show ?thesis
    unfolding small_sb_expand_def nvm_region_allocator_def
    by (simp only: Let_def if_False simp_thms atomic_pptr_cas_def f refl if_True prod.case split: if_split)
       (simp split: if_split)
qed

section \<open>A new small superblock\<close>

text \<open>No block lies in a superblock without blocks.\<close>

lemma no_block_in:
  assumes inv: "heap_inv s n K W X" and e: "blocks (sb_start s) K i = {}"
    and a: "sbA (sb_start s) i \<le> a" "a < sbA (sb_start s) i + SBSIZE"
  shows "W a = NoBlock"
proof (rule ccontr)
  assume "W a \<noteq> NoBlock"
  then obtain j where j: "a \<in> blocks (sb_start s) K j" using owner_block[OF inv_own[OF inv]] by blast
  have "j = i" using blocks_range[OF inv_geo[OF inv] j] a sb_index_unique by blast
  with e j show False by simp
qed

lemma link_blocks_spec:
  assumes "0 < bs"
  shows "\<And>k. k < m \<Longrightarrow> link_blocks m idx sb bs M (sb + (idx + k) * bs) = sb + (idx + k + 1) * bs"
    and "\<And>a. (\<And>k. k < m \<Longrightarrow> a \<noteq> sb + (idx + k) * bs) \<Longrightarrow> link_blocks m idx sb bs M a = M a"
proof -
  have "(\<forall>k<m. link_blocks m idx sb bs M (sb + (idx + k) * bs) = sb + (idx + k + 1) * bs) \<and>
    (\<forall>a. (\<forall>k<m. a \<noteq> sb + (idx + k) * bs) \<longrightarrow> link_blocks m idx sb bs M a = M a)"
  proof (induction m arbitrary: idx M)
    case 0
    then show ?case by simp
  next
    case (Suc m)
    let ?M = "M(sb + idx * bs := sb + (idx + 1) * bs)"
    have IH: "\<And>k. k < m \<Longrightarrow> link_blocks m (Suc idx) sb bs ?M (sb + (Suc idx + k) * bs) = sb + (Suc idx + k + 1) * bs"
      "\<And>a. (\<forall>k<m. a \<noteq> sb + (Suc idx + k) * bs) \<Longrightarrow> link_blocks m (Suc idx) sb bs ?M a = ?M a"
      using Suc.IH[of "Suc idx" ?M] by blast+
    have ne: "sb + idx * bs \<noteq> sb + (Suc idx + k) * bs" for k using assms by (simp add: add_mult_distrib)
    have "link_blocks (Suc m) idx sb bs M (sb + (idx + k) * bs) = sb + (idx + k + 1) * bs"
      if "k < Suc m" for k
    proof (cases k)
      case 0
      have "link_blocks m (Suc idx) sb bs ?M (sb + idx * bs) = ?M (sb + idx * bs)"
        using ne by (intro IH(2)) blast
      with 0 show ?thesis by simp
    next
      case (Suc l)
      with that IH(1)[of l] show ?thesis by simp
    qed
    moreover have "link_blocks (Suc m) idx sb bs M a = M a" if a: "\<forall>k<Suc m. a \<noteq> sb + (idx + k) * bs" for a
    proof -
      have "a \<noteq> sb + (Suc idx + k) * bs" if "k < m" for k using a[rule_format, of "Suc k"] that by simp
      moreover have "a \<noteq> sb + idx * bs" using a[rule_format, of 0] by simp
      ultimately show ?thesis using IH(2)[of a] by simp
    qed
    ultimately show ?case by blast
  qed
  then show "\<And>k. k < m \<Longrightarrow> link_blocks m idx sb bs M (sb + (idx + k) * bs) = sb + (idx + k + 1) * bs"
    and "\<And>a. (\<And>k. k < m \<Longrightarrow> a \<noteq> sb + (idx + k) * bs) \<Longrightarrow> link_blocks m idx sb bs M a = M a"
    by blast+
qed

lemma chain_array:
  assumes "\<And>k. k + 1 < m \<Longrightarrow> M (sb + (j + k) * bs) = sb + (j + k + 1) * bs"
  shows "chain M (sb + j * bs) (map (\<lambda>k. sb + k * bs) [j..<j + m])"
  using assms
proof (induction m arbitrary: j)
  case 0
  then show ?case by simp
next
  case (Suc m)
  show ?case
  proof (cases m)
    case 0
    then show ?thesis by simp
  next
    case (Suc m')
    have "chain M (sb + Suc j * bs) (map (\<lambda>k. sb + k * bs) [Suc j..<Suc j + m])"
      using Suc.prems[of "Suc _"] by (intro Suc.IH) simp
    moreover have "M (sb + j * bs) = sb + Suc j * bs" using Suc.prems[of 0] Suc by simp
    ultimately show ?thesis by (simp add: upt_conv_Cons del: upt_Suc)
  qed
qed

lemma inv_new_small:
  assumes inv: "heap_inv s n K W X" and Ki: "K i = SbTaken" and c: "1 \<le> c" "c < MAX_SZ_IDX"
    and d: "d_heap (descs s (dA (desc_start s) i)) = Some c"
      "d_block_size (descs s (dA (desc_start s) i)) = bs_of c"
      "d_maxcount (descs s (dA (desc_start s) i)) = bn_of c"
      "d_superblock (descs s (dA (desc_start s) i)) = sbA (sb_start s) i"
      "state (d_anchor (descs s (dA (desc_start s) i))) = SB_FULL"
      "count (d_anchor (descs s (dA (desc_start s) i))) = 0"
    and xs: "bin_list (mem s) cb xs" "set xs = blocks (sb_start s) (K(i := SbSmall c)) i"
    and empty: "cb_block_num (t_caches s t c) = 0"
  defines "W' \<equiv> \<lambda>a. if a \<in> set xs then Cached t c else W a"
  shows "heap_inv (upd_cache t c cb s) n (K(i := SbSmall c)) W' X"
proof (rule heap_invI)
  let ?K = "K(i := SbSmall c)"
  let ?s = "upd_cache t c cb s"
  let ?st = "sb_start s"
  have eqs: "sb_start ?s = ?st" "desc_start ?s = desc_start s" "descs ?s = descs s" "mem ?s = mem s"
    "avail_sb ?s = avail_sb s" "partial_list ?s = partial_list s" "sb_region ?s = sb_region s"
    by (simp_all add: upd_cache_def)
  note geo = inv_geo[OF inv] and own = inv_own[OF inv]
  have geo': "geo s n ?K" using geo_upd[OF geo, of i "SbSmall c"] Ki c by simp
  then show "geo ?s n ?K" by (simp add: geo_def eqs)
  have old: "W a = NoBlock" if "a \<in> set xs" for a
    using no_block_in[OF inv, of i a] blocks_range[OF geo', of a ?st i] that Ki xs(2)
    by (simp add: blocks_def)
  have bl: "blocks ?st ?K j = blocks ?st K j" if "j \<noteq> i" for j using that by (simp add: blocks_def)
  have W': "W' a = W a" if "a \<in> blocks ?st K j" for a j
    using old[of a] block_owner[OF own that] by (auto simp: W'_def)
  have empty_i: "blocks ?st K i = {}" using Ki by (simp add: blocks_def)
  show "own_ok (sb_start ?s) ?K W'" unfolding eqs
  proof (rule own_okI)
    show "W' a \<noteq> NoBlock \<longleftrightarrow> (\<exists>j. a \<in> blocks ?st ?K j)" for a
    proof (cases "a \<in> set xs")
      case True
      then show ?thesis using xs(2) by (auto simp: W'_def)
    next
      case False
      have "(\<exists>j. a \<in> blocks ?st ?K j) \<longleftrightarrow> (\<exists>j. a \<in> blocks ?st K j)"
        using False xs(2) bl empty_i by (metis empty_iff)
      then show ?thesis using False own by (simp add: own_ok_def W'_def)
    qed
    show "W' (sbA ?st j) = Live" if "?K j = SbLarge q" for j q
    proof -
      have "K j = SbLarge q" using that by (auto split: if_splits)
      then show ?thesis using W'[of "sbA ?st j" j] own_large[OF own] by (simp add: blocks_def)
    qed
    show "c2 = c1" if "?K j = SbSmall c1" "a \<in> blocks ?st ?K j" "W' a = Cached t' c2" for j c1 a t' c2
    proof (cases "j = i")
      case True
      then show ?thesis using that xs(2) by (auto simp: W'_def)
    next
      case False
      then have j: "K j = SbSmall c1" "a \<in> blocks ?st K j" using that bl by auto
      with that(3) W' show ?thesis by (intro own_class[OF own]) auto
    qed
  qed
  have "{j. ?K j = SbFree} = {j. K j = SbFree}" using Ki by auto
  then show "free_ok ?s ?K" using inv_free[OF inv] by (simp add: free_ok_def eqs)
  have nf: "nonfull ?s ?K c' = nonfull s K c'" for c' using Ki d(5) by (auto simp: nonfull_def eqs)
  show "part_ok ?s ?K X c'" for c' using inv_part[OF inv, of c'] nf by (simp add: part_ok_def eqs)
  show "desc_ok ?s ?K W' j" for j
  proof (cases "j = i")
    case True
    have "in_sb ?st ?K W' i = {}" using xs(2) by (auto simp: in_sb_def W'_def)
    then show ?thesis using True d by (simp add: desc_ok_def Let_def eqs anchor_ok_def)
  next
    case False
    then show ?thesis using W' by (intro desc_ok_same[OF inv_desc[OF inv]] in_sb_same) (auto simp: eqs)
  qed
  show "cache_ok ?s W' t' c'" if "1 \<le> c'" "c' < MAX_SZ_IDX" for t' c'
  proof (cases "t' = t \<and> c' = c")
    case True
    obtain ys where "bin_list (mem s) (t_caches s t c) ys" "set ys = {a. W a = Cached t c}"
      using inv_cache[OF inv c, of t] by (auto simp: cache_ok_def)
    then have "{a. W a = Cached t c} = {}" using empty by (simp add: bin_list_def)
    then have "set xs = {a. W' a = Cached t c}" by (auto simp: W'_def)
    moreover have "cb_block_num cb = card (blocks ?st ?K i)"
      using xs by (metis bin_list_def distinct_card)
    moreover have "card (blocks ?st ?K i) \<le> bn_of c"
      using card_image_le[of "{..<bn_of c}"] by (simp add: blocks_def)
    ultimately show ?thesis
      using True xs(1) class_data(2,3)[OF c] by (auto simp: cache_ok_def upd_cache_def)
  next
    case False
    then have "t_caches ?s t' c' = t_caches s t' c'" by (auto simp: upd_cache_def)
    moreover have "{a. W' a = Cached t' c'} = {a. W a = Cached t' c'}"
      using False old by (auto simp: W'_def)
    ultimately show ?thesis using inv_cache[OF inv that, of t'] by (simp add: cache_ok_def eqs)
  qed
  show "\<exists>c'. j \<in> nonfull ?s ?K c'" if "j \<in> X" for j
    using X_nonfull[OF inv that] nf by auto
qed

end
