(* ===== verification/AllocMove.thy ===== *)
theory AllocMove
  imports AllocSteps
begin

text \<open>
  Moving blocks between a superblock's list, a thread's cache and the application, and
  superblocks on and off the partial lists, with the effect on the ghost state.
\<close>

section \<open>Partial lists\<close>

lemma inv_partial_change:
  assumes inv: "heap_inv s n K W X"
    and np: "\<And>i. np (dA (desc_start s) i) = (descs s (dA (desc_start s) i))\<lparr>d_next_partial := nx i\<rparr>"
    and keep: "\<And>c' i. c' \<noteq> c \<Longrightarrow> i \<in> nonfull s K c' \<Longrightarrow> np (dA (desc_start s) i) = descs s (dA (desc_start s) i)"
    and part: "part_ok (s\<lparr>descs := np, partial_list := (partial_list s)(c := h)\<rparr>) K X' c"
    and X': "\<And>c'. c' \<noteq> c \<Longrightarrow> nonfull s K c' - X' = nonfull s K c' - X"
    and X'': "\<And>i. i \<in> X' \<Longrightarrow> i \<notin> X \<Longrightarrow> i \<in> nonfull s K c"
  shows "heap_inv (s\<lparr>descs := np, partial_list := (partial_list s)(c := h)\<rparr>) n K W X'"
proof (rule heap_invI)
  let ?s = "s\<lparr>descs := np, partial_list := (partial_list s)(c := h)\<rparr>"
  have nf: "nonfull ?s K c' = nonfull s K c'" for c' by (simp add: nonfull_def np)
  show "geo ?s n K" "own_ok (sb_start ?s) K W"
    using inv_geo[OF inv] inv_own[OF inv] by (simp_all add: geo_def)
  obtain xs where xs: "nlist (\<lambda>d. d_next_free (descs s d)) (h_ptr (avail_sb s)) xs" "distinct xs"
      "set xs = dA (desc_start s) ` {i. K i = SbFree}"
    using inv_free[OF inv] by (auto simp: free_ok_def)
  have "nlist (\<lambda>d. d_next_free (np d)) (h_ptr (avail_sb s)) xs"
    using xs(3) np by (intro nlist_upd[OF xs(1)]) auto
  with xs show "free_ok ?s K" by (auto simp: free_ok_def)
  show "part_ok ?s K X' c'" for c'
  proof (cases "c' = c")
    case True
    then show ?thesis using part by simp
  next
    case False
    obtain xs where xs: "nlist (\<lambda>d. d_next_partial (descs s d)) (h_ptr (partial_list s c')) xs"
        "distinct xs" "set xs = dA (desc_start s) ` (nonfull s K c' - X)"
      using inv_part[OF inv, of c'] by (auto simp: part_ok_def)
    have "nlist (\<lambda>d. d_next_partial (np d)) (h_ptr (partial_list s c')) xs"
      using xs(3) keep[OF False] by (intro nlist_upd[OF xs(1)]) auto
    with xs nf X'[OF False] False show ?thesis by (auto simp: part_ok_def)
  qed
  show "desc_ok ?s K W i" for i
    using inv_desc[OF inv, of i] anchor_ok_cong[of ?s s]
    by (cases "K i") (simp_all add: desc_ok_def np Let_def)
  show "cache_ok ?s W t c'" if "1 \<le> c'" "c' < MAX_SZ_IDX" for t c'
    using inv_cache[OF inv that, of t] by (simp add: cache_ok_def)
  show "\<exists>c'. i \<in> nonfull ?s K c'" if "i \<in> X'" for i
    using X_nonfull[OF inv, of i] X''[OF that] nf by blast
qed

lemma inv_pop_partial:
  assumes inv: "heap_inv s n K W X" and pop: "heap_pop_partial s c = (d, s')" and d: "d \<noteq> 0"
  shows "\<exists>i. d = dA (desc_start s) i \<and> i \<in> nonfull s K c \<and> i \<notin> X \<and> heap_inv s' n K W (insert i X)
    \<and> descs s' = descs s \<and> sb_start s' = sb_start s \<and> desc_start s' = desc_start s
    \<and> t_caches s' = t_caches s"
proof -
  obtain xs where xs: "nlist (\<lambda>d. d_next_partial (descs s d)) (h_ptr (partial_list s c)) xs"
      "distinct xs" "set xs = dA (desc_start s) ` (nonfull s K c - X)"
    using inv_part[OF inv, of c] by (auto simp: part_ok_def)
  have h: "h_ptr (partial_list s c) = d" "d \<noteq> 0"
    using pop d by (auto simp: heap_pop_partial_def Let_def split: if_splits)
  obtain ys where ys: "xs = d # ys"
      "nlist (\<lambda>d. d_next_partial (descs s d)) (d_next_partial (descs s d)) ys"
    using nlist_head[OF xs(1)] h by auto
  obtain i where i: "i \<in> nonfull s K c" "i \<notin> X" "d = dA (desc_start s) i"
    using xs(3) ys(1) by auto
  let ?h = "head_set (d_next_partial (descs s d)) (h_cnt (partial_list s c))"
  have s': "s' = s\<lparr>partial_list := (partial_list s)(c := ?h)\<rparr>"
    using pop h by (auto simp: heap_pop_partial_def Let_def)
  then have s'': "s' = s\<lparr>descs := descs s, partial_list := (partial_list s)(c := ?h)\<rparr>" by simp
  have "set ys = set xs - {d}" using xs(2) ys(1) by auto
  also have "\<dots> = dA (desc_start s) ` (nonfull s K c - insert i X)" unfolding xs(3) i(3) by auto
  finally have part: "part_ok (s\<lparr>descs := descs s, partial_list := (partial_list s)(c := ?h)\<rparr>) K (insert i X) c"
    unfolding part_ok_def using ys xs(2)
    by (intro exI[of _ ys]) (simp add: head_set_def nonfull_def)
  have "heap_inv s' n K W (insert i X)"
    unfolding s''
  proof (rule inv_partial_change[OF inv, where nx = "\<lambda>i. d_next_partial (descs s (dA (desc_start s) i))"])
    show "part_ok (s\<lparr>descs := descs s, partial_list := (partial_list s)(c := ?h)\<rparr>) K (insert i X) c"
      by (rule part)
    show "nonfull s K c' - insert i X = nonfull s K c' - X" if "c' \<noteq> c" for c'
      using i(1) that by (auto simp: nonfull_def)
  qed (use i(1) in auto)
  then show ?thesis using i s' by auto
qed

lemma pop_partial_none:
  assumes inv: "heap_inv s n K W X" and pop: "heap_pop_partial s c = (0, s')"
  shows "s' = s" and "nonfull s K c \<subseteq> X"
proof -
  obtain xs where xs: "nlist (\<lambda>d. d_next_partial (descs s d)) (h_ptr (partial_list s c)) xs"
      "set xs = dA (desc_start s) ` (nonfull s K c - X)"
    using inv_part[OF inv, of c] by (auto simp: part_ok_def)
  have h: "h_ptr (partial_list s c) = 0" and "s' = s"
    using pop by (auto simp: heap_pop_partial_def Let_def split: if_splits)
  then show "s' = s" by simp
  have "xs = []" using xs(1) h by (simp add: nlist_null)
  then show "nonfull s K c \<subseteq> X" using xs(2) by auto
qed

lemma inv_push_partial:
  assumes inv: "heap_inv s n K W X" and i: "i \<in> X"
  shows "\<exists>s'. heap_push_partial s (dA (desc_start s) i) = Ret s' \<and> heap_inv s' n K W (X - {i})
    \<and> sb_start s' = sb_start s \<and> desc_start s' = desc_start s"
proof -
  obtain c where c: "K i = SbSmall c" "i \<in> nonfull s K c" using X_nonfull[OF inv i] by blast
  let ?d = "dA (desc_start s) i"
  have dpos: "0 < desc_start s" using inv_geo[OF inv] by (simp add: geo_def)
  obtain xs where xs: "nlist (\<lambda>d. d_next_partial (descs s d)) (h_ptr (partial_list s c)) xs"
      "distinct xs" "set xs = dA (desc_start s) ` (nonfull s K c - X)"
    using inv_part[OF inv, of c] by (auto simp: part_ok_def)
  have notin: "?d \<notin> set xs" using xs(3) i by auto
  then have ne: "h_ptr (partial_list s c) \<noteq> ?d"
    using xs(1) dpos by (cases xs) (auto simp: dA_def)
  let ?np = "(descs s)(?d := (descs s ?d)\<lparr>d_next_partial := h_ptr (partial_list s c)\<rparr>)"
  let ?h = "head_set ?d (h_cnt (partial_list s c) + 1)"
  let ?s = "s\<lparr>descs := ?np, partial_list := (partial_list s)(c := ?h)\<rparr>"
  have push: "heap_push_partial s ?d = Ret ?s"
    using small_desc(1)[OF inv c(1)] ne by (simp add: heap_push_partial_def upd_desc_def Let_def)
  have "nlist (\<lambda>d. d_next_partial (?np d)) (h_ptr (partial_list s c)) xs"
    by (rule nlist_upd[OF xs(1)]) (use notin in auto)
  then have "nlist (\<lambda>d. d_next_partial (?np d)) ?d (?d # xs)" using dpos by simp
  moreover have "set (?d # xs) = dA (desc_start s) ` (nonfull ?s K c - (X - {i}))"
    using xs(3) c(2) i by (auto simp: nonfull_def)
  ultimately have part: "part_ok ?s K (X - {i}) c"
    unfolding part_ok_def using xs(2) notin
    by (intro exI[of _ "?d # xs"]) (simp add: head_set_def)
  have "heap_inv ?s n K W (X - {i})"
    by (rule inv_partial_change[OF inv, where nx = "\<lambda>j. if j = i then h_ptr (partial_list s c)
          else d_next_partial (descs s (dA (desc_start s) j))"])
       (use part c i in \<open>auto simp: nonfull_def\<close>)
  with push show ?thesis by auto
qed

section \<open>Blocks between superblocks and caches\<close>

text \<open>
  A write to the anchor of one small superblock, to a cache of its class and to the first
  words of blocks that are the application's or move.
\<close>

lemma inv_move:
  assumes inv: "heap_inv s n K W X" and Ki: "K i = SbSmall c"
    and mv: "\<And>a. W' a \<noteq> W a \<Longrightarrow> a \<in> blocks (sb_start s) K i \<and> W a \<in> {InSb, Cached t c} \<and> W' a \<in> {InSb, Cached t c}"
    and m: "\<And>a. m a \<noteq> mem s a \<Longrightarrow> W' a \<noteq> W a"
    and anch: "anchor_ok (s\<lparr>mem := m\<rparr>) i c (blocks (sb_start s) K i) (in_sb (sb_start s) K W' i) A"
    and ch: "bin_list m cb zs" "set zs = {a. W' a = Cached t c}" "length zs \<le> bn_of c"
    and X: "X' - {i} = X - {i}" "i \<in> X' \<longrightarrow> state A \<noteq> SB_FULL"
      "i \<notin> X' \<and> state A \<noteq> SB_FULL \<longleftrightarrow>
         i \<notin> X \<and> state (d_anchor (descs s (dA (desc_start s) i))) \<noteq> SB_FULL"
  shows "heap_inv (upd_cache t c cb (upd_desc (dA (desc_start s) i) (\<lambda>x. x\<lparr>d_anchor := A\<rparr>) (s\<lparr>mem := m\<rparr>)))
    n K W' X'"
proof (rule heap_invI)
  let ?d = "dA (desc_start s) i"
  let ?s = "upd_cache t c cb (upd_desc ?d (\<lambda>x. x\<lparr>d_anchor := A\<rparr>) (s\<lparr>mem := m\<rparr>))"
  let ?st = "sb_start s"
  let ?ds = "(descs s)(?d := (descs s ?d)\<lparr>d_anchor := A\<rparr>)"
  have eqs: "sb_start ?s = ?st" "desc_start ?s = desc_start s" "descs ?s = ?ds" "mem ?s = m"
    "avail_sb ?s = avail_sb s" "partial_list ?s = partial_list s" "sb_region ?s = sb_region s"
    by (simp_all add: upd_cache_def upd_desc_def)
  note geo = inv_geo[OF inv] and own = inv_own[OF inv] and sd = small_desc[OF inv Ki]
  show "geo ?s n K" using geo by (simp add: geo_def eqs)
  show "own_ok (sb_start ?s) K W'" unfolding eqs
  proof (rule own_okI)
    show "W' a \<noteq> NoBlock \<longleftrightarrow> (\<exists>j. a \<in> blocks ?st K j)" for a
      using mv[of a] own unfolding own_ok_def by (cases "W' a = W a") auto
    show "W' (sbA ?st j) = Live" if "K j = SbLarge q" for j q
      using mv[of "sbA ?st j"] own_large[OF own that] by (cases "W' (sbA ?st j) = W (sbA ?st j)") auto
    show "c2 = c1" if j: "K j = SbSmall c1" "a \<in> blocks ?st K j" "W' a = Cached t' c2" for j c1 a t' c2
    proof (cases "W' a = W a")
      case True
      then have "W a = Cached t' c2" using j(3) by simp
      then show ?thesis by (rule own_class[OF own j(1,2)])
    next
      case False
      then have "a \<in> blocks ?st K i" "c2 = c" using mv[OF False] j(3) by auto
      with blocks_disjoint[OF geo j(2)] j(1) Ki show ?thesis by auto
    qed
  qed
  obtain xs where xs: "nlist (\<lambda>d. d_next_free (descs s d)) (h_ptr (avail_sb s)) xs" "distinct xs"
      "set xs = dA (desc_start s) ` {i. K i = SbFree}"
    using inv_free[OF inv] by (auto simp: free_ok_def)
  have "nlist (\<lambda>d. d_next_free (?ds d)) (h_ptr (avail_sb s)) xs"
    by (intro nlist_upd[OF xs(1)]) auto
  with xs show "free_ok ?s K" by (auto simp: free_ok_def eqs)
  have nf: "nonfull ?s K c' - X' = nonfull s K c' - X" for c'
  proof (rule set_eqI)
    fix j
    show "j \<in> nonfull ?s K c' - X' \<longleftrightarrow> j \<in> nonfull s K c' - X"
    proof (cases "j = i")
      case True
      then show ?thesis using X(3) by (auto simp: nonfull_def eqs)
    next
      case False
      then have "j \<in> X' \<longleftrightarrow> j \<in> X" using X(1) by blast
      then show ?thesis using False by (simp add: nonfull_def eqs)
    qed
  qed
  show "part_ok ?s K X' c'" for c'
  proof -
    obtain xs where xs: "nlist (\<lambda>d. d_next_partial (descs s d)) (h_ptr (partial_list s c')) xs"
        "distinct xs" "set xs = dA (desc_start s) ` (nonfull s K c' - X)"
      using inv_part[OF inv, of c'] by (auto simp: part_ok_def)
    have "nlist (\<lambda>d. d_next_partial (?ds d)) (h_ptr (partial_list s c')) xs"
      by (intro nlist_upd[OF xs(1)]) auto
    with xs nf show ?thesis by (auto simp: part_ok_def eqs)
  qed
  show "desc_ok ?s K W' j" for j
  proof (cases "j = i")
    case True
    have "anchor_ok ?s = anchor_ok (s\<lparr>mem := m\<rparr>)" by (rule anchor_ok_cong) (simp_all add: eqs)
    then show ?thesis using True Ki sd anch by (simp add: desc_ok_def Let_def eqs)
  next
    case False
    have W': "W' a = W a" "m a = mem s a" if "a \<in> blocks ?st K j" for a
      using mv[of a] m[of a] blocks_disjoint[OF geo that, of i] False by auto
    have insb: "in_sb ?st K W' j = in_sb ?st K W j" using W' by (auto simp: in_sb_def)
    show ?thesis
    proof (cases "K j")
      case (SbSmall c1)
      have "anchor_ok ?s j c1 bl (in_sb ?st K W j) B = anchor_ok s j c1 bl (in_sb ?st K W j) B" for bl B
      proof -
        have "chain m p xs = chain (mem s) p xs" if "set xs = in_sb ?st K W j" for p xs
          using that W'(2) by (intro chain_cong) (auto simp: in_sb_def)
        then show ?thesis by (cases "state B") (auto simp: anchor_ok_def eqs)
      qed
      then show ?thesis
        using inv_desc[OF inv, of j] SbSmall insb False by (simp add: desc_ok_def Let_def eqs)
    next
      case (SbLarge q)
      then show ?thesis using inv_desc[OF inv, of j] False by (simp add: desc_ok_def Let_def eqs)
    qed (simp_all add: desc_ok_def)
  qed
  show "cache_ok ?s W' t' c'" if c': "1 \<le> c'" "c' < MAX_SZ_IDX" for t' c'
  proof (cases "t' = t \<and> c' = c")
    case True
    then show ?thesis using ch class_data(2,3)[OF c']
      by (auto simp: cache_ok_def upd_cache_def upd_desc_def bin_list_def)
  next
    case False
    obtain ys where ys: "bin_list (mem s) (t_caches s t' c') ys" "set ys = {a. W a = Cached t' c'}"
        "cb_block_num (t_caches s t' c') \<le> cache_block_num (get_sizeclass_by_idx c')"
      using inv_cache[OF inv c', of t'] by (auto simp: cache_ok_def)
    have "W' a = Cached t' c' \<longleftrightarrow> W a = Cached t' c'" for a
      using mv[of a] False by (cases "W' a = W a") auto
    moreover have "mem s a = m a" if "a \<in> set ys" for a
    proof (rule ccontr)
      assume "mem s a \<noteq> m a"
      then have "W' a \<noteq> W a" using m[of a] by simp
      from mv[OF this] show False using that ys(2) False by auto
    qed
    then have "bin_list m (t_caches s t' c') ys" by (rule bin_list_frame[OF _ ys(1)])
    moreover have "t_caches ?s t' c' = t_caches s t' c'"
      using False by (auto simp: upd_cache_def upd_desc_def)
    ultimately show ?thesis using ys by (auto simp: cache_ok_def eqs)
  qed
  show "\<exists>c'. j \<in> nonfull ?s K c'" if "j \<in> X'" for j
  proof (cases "j = i")
    case True
    then show ?thesis using X(2) that Ki by (auto simp: nonfull_def eqs)
  next
    case False
    then have "j \<in> X" using X(1) that by blast
    then show ?thesis using X_nonfull[OF inv, of j] False by (auto simp: nonfull_def eqs)
  qed
qed

lemma block_index:
  assumes "geo s n K" and "K i = SbSmall c" and "a \<in> blocks st K i"
  shows "compute_idx (sbA st i) a c = Ret ((a - sbA st i) div bs_of c)"
    and "(a - sbA st i) div bs_of c < bn_of c"
    and "a = sbA st i + (a - sbA st i) div bs_of c * bs_of c"
proof -
  have c: "1 \<le> c" "c < MAX_SZ_IDX" using geo_class[OF assms(1,2)] by auto
  obtain k where k: "k < bn_of c" "a = sbA st i + k * bs_of c" using assms(2,3) by (auto simp: blocks_def)
  have "(a - sbA st i) div bs_of c = k" using k(2) class_pos(1)[OF c] by simp
  with k show "(a - sbA st i) div bs_of c < bn_of c" "a = sbA st i + (a - sbA st i) div bs_of c * bs_of c"
    by simp_all
  show "compute_idx (sbA st i) a c = Ret ((a - sbA st i) div bs_of c)"
    using blocks_range[OF assms(1,3)] by (intro compute_idx_Ret[OF c])
qed

lemma card_blocks:
  assumes "geo s n K" and "K i = SbSmall c"
  shows "finite (blocks st K i)" "card (blocks st K i) = bn_of c"
proof -
  have c: "1 \<le> c" "c < MAX_SZ_IDX" using geo_class[OF assms] by auto
  have "inj_on (\<lambda>k. sbA st i + k * bs_of c) {..<bn_of c}"
    using class_pos(1)[OF c] by (auto simp: inj_on_def)
  then show "card (blocks st K i) = bn_of c" using assms(2) by (simp add: blocks_def card_image)
  show "finite (blocks st K i)" using assms(2) by (simp add: blocks_def)
qed

text \<open>The whole list of a partial superblock goes to an empty cache.\<close>

lemma inv_take_partial:
  assumes inv: "heap_inv s n K W X" and i: "i \<in> X" and Ki: "K i = SbSmall c"
    and st: "state (d_anchor (descs s (dA (desc_start s) i))) = SB_PARTIAL"
    and empty: "cb_block_num (t_caches s t c) = 0"
  defines "A \<equiv> d_anchor (descs s (dA (desc_start s) i))"
  defines "W' \<equiv> \<lambda>a. if a \<in> in_sb (sb_start s) K W i then Cached t c else W a"
  shows "\<exists>cb. push_list (t_caches s t c) (sbA (sb_start s) i + avail A * bs_of c) (count A) = Ret cb
    \<and> heap_inv (upd_cache t c cb (upd_desc (dA (desc_start s) i)
         (\<lambda>x. x\<lparr>d_anchor := \<lparr>avail = bn_of c, count = 0, state = SB_FULL\<rparr>\<rparr>) s)) n K W' (X - {i})
    \<and> 0 < count A \<and> count A < bn_of c \<and> avail A < bn_of c
    \<and> (\<exists>xs. xs \<noteq> [] \<and> bin_list (mem s) cb xs)"
proof -
  note c = small_desc(6,7)[OF inv Ki]
  obtain xs where xs: "chain (mem s) (sbA (sb_start s) i + avail A * bs_of c) xs" "distinct xs"
      "set xs = in_sb (sb_start s) K W i" "length xs = count A"
    and cnt: "0 < count A" "count A < bn_of c" "avail A < bn_of c"
    using small_desc(5)[OF inv Ki] st by (auto simp: anchor_ok_def A_def)
  obtain cb where cb: "push_list (t_caches s t c) (sbA (sb_start s) i + avail A * bs_of c) (count A) = Ret cb"
      "bin_list (mem s) cb xs"
    using push_list_list[OF empty xs(1,2)] xs(4) by auto
  obtain ys where "bin_list (mem s) (t_caches s t c) ys" "set ys = {a. W a = Cached t c}"
    using inv_cache[OF inv c, of t] by (auto simp: cache_ok_def)
  then have none: "{a. W a = Cached t c} = {}" using empty by (simp add: bin_list_def)
  let ?A = "\<lparr>avail = bn_of c, count = 0, state = SB_FULL\<rparr>"
  have "heap_inv (upd_cache t c cb (upd_desc (dA (desc_start s) i) (\<lambda>x. x\<lparr>d_anchor := ?A\<rparr>)
      (s\<lparr>mem := mem s\<rparr>))) n K W' (X - {i})"
  proof (rule inv_move[OF inv Ki])
    show "set xs = {a. W' a = Cached t c}" using none xs(3) by (auto simp: W'_def)
    show "bin_list (mem s) cb xs" by (rule cb(2))
    show "anchor_ok (s\<lparr>mem := mem s\<rparr>) i c (blocks (sb_start s) K i) (in_sb (sb_start s) K W' i) ?A"
      by (auto simp: anchor_ok_def in_sb_def W'_def)
  qed (use i st cnt xs(4) in \<open>auto simp: W'_def in_sb_def\<close>)
  moreover have "xs \<noteq> []" using xs(4) cnt(1) by auto
  ultimately show ?thesis using cb cnt by auto
qed

text \<open>A run of cached blocks of one superblock goes back to its list.\<close>

lemma inv_flush:
  assumes inv: "heap_inv s n K W X" and Ki: "K i = SbSmall c" and iX: "i \<notin> X"
    and ys: "bin_list (mem s) (t_caches s t c) (ys @ zs)" "set (ys @ zs) = {a. W a = Cached t c}"
      "ys \<noteq> []" "set ys \<subseteq> blocks (sb_start s) K i"
  defines "A \<equiv> d_anchor (descs s (dA (desc_start s) i))"
  defines "idx \<equiv> (hd ys - sbA (sb_start s) i) div bs_of c"
  defines "W' \<equiv> \<lambda>a. if a \<in> set ys then InSb else W a"
  defines "m \<equiv> (mem s)(last ys := sbA (sb_start s) i + avail A * bs_of c)"
  shows "\<exists>cb A'. pop_list (t_caches s t c) (mem s (last ys)) (length ys) = Ret cb
    \<and> flush_anchor A idx (length ys) (bn_of c) = Ret A'
    \<and> (avail A < bn_of c \<or> state A = SB_FULL) \<and> avail A' < bn_of c \<and> count A' < bn_of c
    \<and> state A' \<noteq> SB_FULL
    \<and> heap_inv (upd_cache t c cb (upd_desc (dA (desc_start s) i) (\<lambda>x. x\<lparr>d_anchor := A'\<rparr>) (s\<lparr>mem := m\<rparr>)))
         n K W' (if state A = SB_FULL then insert i X else X)
    \<and> bin_list m cb zs"
proof -
  let ?st = "sb_start s"
  let ?q = "sbA ?st i + avail A * bs_of c"
  note geo = inv_geo[OF inv] and c = small_desc(6,7)[OF inv Ki]
  have ao: "anchor_ok s i c (blocks ?st K i) (in_sb ?st K W i) A"
    using small_desc(5)[OF inv Ki] by (simp add: A_def)
  have dist: "distinct (ys @ zs)" and ch: "chain (mem s) (cb_block (t_caches s t c)) (ys @ zs)"
    using ys(1) by (auto simp: bin_list_def)
  have hd: "cb_block (t_caches s t c) = hd ys" using ch ys(3) by (cases ys) auto
  have cached: "W a = Cached t c" if "a \<in> set ys" for a using ys(2) that by auto
  have sub: "set ys \<inter> in_sb ?st K W i = {}" using cached by (auto simp: in_sb_def)
  have insb': "in_sb ?st K W' i = set ys \<union> in_sb ?st K W i"
    using ys(4) by (auto simp: in_sb_def W'_def)
  have card_le: "card (set ys \<union> in_sb ?st K W i) \<le> bn_of c"
    using ys(4) card_blocks[OF geo Ki, of ?st] by (metis (no_types, lifting) Un_least card_mono in_sb_def mem_Collect_eq subsetI)
  have fin: "finite (in_sb ?st K W i)" using card_blocks(1)[OF geo Ki, of ?st] by (simp add: in_sb_def)
  have card_sum: "card (set ys \<union> in_sb ?st K W i) = length ys + card (in_sb ?st K W i)"
    using sub fin dist by (simp add: card_Un_disjoint distinct_card)
  have full: "set ys \<union> in_sb ?st K W i = blocks ?st K i"
    if "length ys + card (in_sb ?st K W i) = bn_of c"
    using that card_sum card_blocks[OF geo Ki, of ?st] ys(4)
    by (intro card_subset_eq) (auto simp: in_sb_def)
  have idx: "idx < bn_of c" "hd ys = sbA ?st i + idx * bs_of c"
  proof -
    have h: "hd ys \<in> blocks ?st K i" using ys(3,4) by auto
    show "idx < bn_of c" "hd ys = sbA ?st i + idx * bs_of c"
      using block_index(2,3)[OF geo Ki h] by (simp_all add: idx_def)
  qed
  obtain cb where cb: "pop_list (t_caches s t c) (mem s (last ys)) (length ys) = Ret cb" "bin_list (mem s) cb zs"
    using pop_list_list[OF ys(1,3)] by auto
  have last: "last ys \<in> set ys" using ys(3) by simp
  then have zs: "last ys \<notin> set zs" using dist by auto
  have cbm: "bin_list m cb zs" using zs by (intro bin_list_frame[OF _ cb(2)]) (auto simp: m_def)
  have lenzs: "length zs \<le> bn_of c"
  proof -
    have "length (ys @ zs) \<le> cache_block_num (get_sizeclass_by_idx c)"
      using inv_cache[OF inv c, of t] ys(1) by (simp add: cache_ok_def bin_list_def)
    then show ?thesis using class_data(2,3)[OF c] by simp
  qed
  have not_empty: "state A \<noteq> SB_EMPTY"
  proof
    assume "state A = SB_EMPTY"
    then have "in_sb ?st K W i = blocks ?st K i" using ao by (simp add: anchor_ok_def)
    with sub last ys(4) show False by blast
  qed
  have chys: "chain m (hd ys) (ys @ xs)" if "chain (mem s) ?q xs" "set xs = in_sb ?st K W i" for xs
  proof -
    have "chain (mem s) (hd ys) ys" using ch hd by (simp add: chain_append)
    moreover have "last ys \<notin> set xs" using that(2) sub last by auto
    ultimately show ?thesis unfolding m_def using ys(3) dist that(1) by (intro chain_link) auto
  qed
  define A' where "A' = (if count A + length ys = bn_of c
      then \<lparr>avail = idx, count = bn_of c - 1, state = SB_EMPTY\<rparr>
      else \<lparr>avail = idx, count = count A + length ys, state = SB_PARTIAL\<rparr>)"
  have cases_A: "state A = SB_FULL \<and> count A = 0 \<and> in_sb ?st K W i = {} \<or>
      state A = SB_PARTIAL \<and> 0 < count A \<and> count A < bn_of c \<and> avail A < bn_of c \<and>
      (\<exists>xs. chain (mem s) ?q xs \<and> distinct xs \<and> set xs = in_sb ?st K W i \<and> length xs = count A)"
    using ao not_empty by (cases "state A") (auto simp: anchor_ok_def)
  then have cnt: "count A = card (in_sb ?st K W i)" and cA: "count A < bn_of c"
    using class_pos(2)[OF c] by (auto simp: distinct_card[symmetric])
  have fl: "flush_anchor A idx (length ys) (bn_of c) = Ret A'"
    using cases_A cA by (cases A) (auto simp: flush_anchor_def A'_def)
  have le: "count A + length ys \<le> bn_of c" using card_le card_sum cnt by simp
  have ly: "0 < length ys" using ys(3) by simp
  have sA': "state A' \<noteq> SB_FULL" "avail A' < bn_of c" "count A' < bn_of c"
    using idx(1) le class_pos(2)[OF c] by (auto simp: A'_def)
  have anch: "anchor_ok (s\<lparr>mem := m\<rparr>) i c (blocks ?st K i) (in_sb ?st K W' i) A'"
  proof (cases "count A + length ys = bn_of c")
    case True
    then show ?thesis using full cnt idx(1) insb' by (simp add: A'_def anchor_ok_def)
  next
    case False
    obtain xs where xs: "chain m (hd ys) (ys @ xs)" "distinct xs" "set xs = in_sb ?st K W i" "length xs = count A"
      using cases_A chys chys[of "[]"] by fastforce
    have "distinct (ys @ xs)" using dist xs(2,3) sub by auto
    moreover have "set (ys @ xs) = in_sb ?st K W' i" using xs(3) insb' by auto
    ultimately show ?thesis
      using False le ly xs idx unfolding A'_def anchor_ok_def
      by (auto intro!: exI[of _ "ys @ xs"])
  qed
  let ?X = "if state A = SB_FULL then insert i X else X"
  have "heap_inv (upd_cache t c cb (upd_desc (dA (desc_start s) i) (\<lambda>x. x\<lparr>d_anchor := A'\<rparr>) (s\<lparr>mem := m\<rparr>)))
      n K W' ?X"
  proof (rule inv_move[OF inv Ki _ _ anch cbm _ lenzs])
    show "a \<in> blocks ?st K i \<and> W a \<in> {InSb, Cached t c} \<and> W' a \<in> {InSb, Cached t c}" if "W' a \<noteq> W a" for a
      using that ys(4) cached by (auto simp: W'_def split: if_splits)
    show "W' a \<noteq> W a" if "m a \<noteq> mem s a" for a
      using that cached[of "last ys"] ys(3) by (auto simp: W'_def m_def split: if_splits)
    show "set zs = {a. W' a = Cached t c}" using ys(2) dist by (auto simp: W'_def)
    show "?X - {i} = X - {i}" by auto
    show "i \<in> ?X \<longrightarrow> state A' \<noteq> SB_FULL" using sA' by simp
    show "i \<notin> ?X \<and> state A' \<noteq> SB_FULL \<longleftrightarrow>
        i \<notin> X \<and> state (d_anchor (descs s (dA (desc_start s) i))) \<noteq> SB_FULL"
      using sA'(1) iX by (auto simp: A_def)
  qed
  then show ?thesis using cb fl cases_A sA' cbm by (intro exI[of _ cb] exI[of _ A']) auto
qed

end
