(* ===== verification/AllocOps.thy ===== *)
theory AllocOps
  imports AllocMove
begin

text \<open>
  The operations of the allocator refine a map from live block addresses to block sizes:
  allocation adds an entry disjoint from all others, freeing removes one, and flushing caches
  leaves the map as it is.
\<close>

section \<open>The abstract state\<close>

definition usable :: "nat \<Rightarrow> (nat \<Rightarrow> sbkind) \<Rightarrow> nat \<Rightarrow> nat" where
  "usable st K a =
     (case K ((a - st) div SBSIZE) of SbSmall c \<Rightarrow> bs_of c | SbLarge m \<Rightarrow> m * SBSIZE | _ \<Rightarrow> 0)"

definition live_map :: "nat \<Rightarrow> (nat \<Rightarrow> sbkind) \<Rightarrow> (nat \<Rightarrow> owner) \<Rightarrow> nat \<Rightarrow> nat option" where
  "live_map st K W a = (if W a = Live then Some (usable st K a) else None)"

definition rep :: "ralloc \<Rightarrow> nat \<Rightarrow> (nat \<Rightarrow> sbkind) \<Rightarrow> (nat \<Rightarrow> owner) \<Rightarrow> bool" where
  "rep s n K W \<longleftrightarrow> heap_inv s n K W {} \<and> 0 < n \<and> (\<forall>i. K i \<noteq> SbTaken)"

definition heap_ok :: "ralloc \<Rightarrow> (nat \<rightharpoonup> nat) \<Rightarrow> bool" where
  "heap_ok s L \<longleftrightarrow> (\<exists>n K W. rep s n K W \<and> L = live_map (sb_start s) K W)"

lemma block_sb:
  assumes "geo s n K" and "a \<in> blocks st K i"
  shows "(a - st) div SBSIZE = i"
proof -
  have "st + i * SBSIZE \<le> a" "a < st + i * SBSIZE + SBSIZE"
    using blocks_range[OF assms] by (auto simp: sbA_def)
  then show ?thesis by (intro div_nat_eqI) (auto simp: algebra_simps less_diff_conv2)
qed

lemma usable_block:
  assumes "geo s n K" and "a \<in> blocks st K i"
  shows "usable st K a = (case K i of SbSmall c \<Rightarrow> bs_of c | SbLarge m \<Rightarrow> m * SBSIZE | _ \<Rightarrow> 0)"
  using block_sb[OF assms] by (simp add: usable_def)

lemma live_map_same:
  assumes geo: "geo s n K" and own: "own_ok st K W"
    and W: "\<And>a. W' a = Live \<longleftrightarrow> W a = Live"
    and K: "\<And>i a. a \<in> blocks st K i \<Longrightarrow> W a = Live \<Longrightarrow> K' i = K i"
  shows "live_map st K' W' = live_map st K W"
proof
  fix a
  show "live_map st K' W' a = live_map st K W a"
  proof (cases "W a = Live")
    case True
    then obtain i where i: "a \<in> blocks st K i" using owner_block[OF own, of a] by auto
    have "usable st K' a = usable st K a"
      using block_sb[OF geo i] K[OF i True] by (simp add: usable_def)
    then show ?thesis using True W by (simp add: live_map_def)
  qed (use W in \<open>simp add: live_map_def\<close>)
qed

text \<open>The bytes of the live blocks keep their contents.\<close>

definition untouched :: "(nat \<rightharpoonup> nat) \<Rightarrow> ralloc \<Rightarrow> ralloc \<Rightarrow> bool" where
  "untouched L s s' \<longleftrightarrow>
     (\<forall>a x b. L a = Some x \<longrightarrow> a \<le> b \<longrightarrow> b < a + x \<longrightarrow> mem s' b = mem s b)"

lemma untouched_refl [simp]: "untouched L s s" by (simp add: untouched_def)

lemma untouched_trans: "untouched L s s' \<Longrightarrow> untouched L s' s'' \<Longrightarrow> untouched L s s''"
  by (simp add: untouched_def)

lemma untouched_eq: "mem s' = mem s \<Longrightarrow> untouched L s s'"
  by (simp add: untouched_def)

text \<open>The range of a block: it meets no other block and no superblock without blocks.\<close>

lemma usable_range:
  assumes geo: "geo s n K" and a: "a \<in> blocks st K i" and b: "a \<le> b" "b < a + usable st K a"
    and k: "sbA st k \<le> b" "b < sbA st k + SBSIZE"
  shows "k = i \<or> K k = SbTail"
proof (cases "K i")
  case (SbSmall c)
  then obtain j where j: "j < bn_of c" "a = sbA st i + j * bs_of c" using a by (auto simp: blocks_def)
  have c: "1 \<le> c" "c < MAX_SZ_IDX" using geo_class[OF geo SbSmall] by auto
  have "b < a + bs_of c" using b(2) usable_block[OF geo a] SbSmall by simp
  then have "b < sbA st i + SBSIZE" using block_span[OF c j(1)] j(2) by simp
  then show ?thesis using b(1) j(2) k sb_index_unique[of st i b k] by simp
next
  case (SbLarge m)
  then have e: "a = sbA st i" "b < a + m * SBSIZE" using a b(2) usable_block[OF geo a] by (auto simp: blocks_def)
  have "i * SBSIZE < (k + 1) * SBSIZE" "k * SBSIZE < (i + m) * SBSIZE"
    using e b(1) k by (auto simp: sbA_def algebra_simps)
  then have "i \<le> k" "k < i + m" by (simp_all only: mult_less_cancel2) auto
  moreover have "\<forall>j. 0 < j \<and> j < m \<longrightarrow> K (i + j) = SbTail" using geo SbLarge unfolding geo_def by blast
  ultimately show ?thesis
    by (metis add_diff_inverse_nat add_less_cancel_left le_neq_implies_less linorder_not_less zero_less_diff)
qed (use a in \<open>auto simp: blocks_def\<close>)

lemma usable_block_unique:
  assumes geo: "geo s n K" and a: "a \<in> blocks st K i" and b: "a \<le> b" "b < a + usable st K a"
    and b': "b \<in> blocks st K k"
  shows "b = a"
proof -
  have "k = i \<or> K k = SbTail" using usable_range[OF geo a b blocks_range[OF geo b']] .
  then have k: "k = i" using b' by (auto simp: blocks_def)
  show ?thesis
  proof (cases "K i")
    case (SbSmall c)
    then obtain j l where j: "a = sbA st i + j * bs_of c" "b = sbA st i + l * bs_of c"
      using a b' k by (auto simp: blocks_def)
    have "b < a + bs_of c" using b(2) usable_block[OF geo a] SbSmall by simp
    then have "l * bs_of c < (j + 1) * bs_of c" "j * bs_of c \<le> l * bs_of c" using j b(1) by auto
    then have "l < j + 1" "j \<le> l"
      using class_pos(1)[of c] geo_class[OF geo SbSmall] by (simp_all only: mult_less_cancel2 mult_le_cancel2)
    then have "j = l" by simp
    with j show ?thesis by simp
  qed (use a b' k in \<open>auto simp: blocks_def\<close>)
qed

lemma untouchedI:
  assumes geo: "geo s0 n K" and own: "own_ok st K W"
    and ch: "\<And>b. mem s' b \<noteq> mem s b \<Longrightarrow>
      (\<exists>k. b \<in> blocks st K k \<and> W b \<noteq> Live) \<or>
      (\<exists>k. sbA st k \<le> b \<and> b < sbA st k + SBSIZE \<and> blocks st K k = {} \<and> K k \<noteq> SbTail)"
  shows "untouched (live_map st K W) s s'"
  unfolding untouched_def
proof (intro allI impI)
  fix a x b
  assume "live_map st K W a = Some x" and b: "a \<le> b" "b < a + x"
  then have W: "W a = Live" and x: "x = usable st K a" by (auto simp: live_map_def split: if_splits)
  obtain i where i: "a \<in> blocks st K i" using owner_block[OF own, of a] W by auto
  show "mem s' b = mem s b"
  proof (rule ccontr)
    assume "mem s' b \<noteq> mem s b"
    from ch[OF this] show False
    proof
      assume "\<exists>k. b \<in> blocks st K k \<and> W b \<noteq> Live"
      then show False using usable_block_unique[OF geo i] b x W by blast
    next
      assume "\<exists>k. sbA st k \<le> b \<and> b < sbA st k + SBSIZE \<and> blocks st K k = {} \<and> K k \<noteq> SbTail"
      then show False using usable_range[OF geo i] b x i by blast
    qed
  qed
qed

section \<open>A block between a cache and the application\<close>

lemma inv_cache_change:
  assumes inv: "heap_inv s n K W X" and Ki: "K i = SbSmall c" and p: "p \<in> blocks (sb_start s) K i"
    and w: "W p \<in> {Live, Cached t c}" "w \<in> {Live, Cached t c}"
    and zs: "bin_list (mem s) cb zs" "set zs = {a. (W(p := w)) a = Cached t c}" "length zs \<le> bn_of c"
  shows "heap_inv (upd_cache t c cb s) n K (W(p := w)) X"
proof (rule heap_invI)
  let ?s = "upd_cache t c cb s"
  let ?W = "W(p := w)"
  let ?st = "sb_start s"
  have eqs: "sb_start ?s = ?st" "desc_start ?s = desc_start s" "descs ?s = descs s" "mem ?s = mem s"
    "avail_sb ?s = avail_sb s" "partial_list ?s = partial_list s" "sb_region ?s = sb_region s"
    by (simp_all add: upd_cache_def)
  note geo = inv_geo[OF inv] and own = inv_own[OF inv]
  show "geo ?s n K" using geo by (simp add: geo_def eqs)
  show "own_ok (sb_start ?s) K ?W" unfolding eqs
  proof (rule own_okI)
    show "?W a \<noteq> NoBlock \<longleftrightarrow> (\<exists>j. a \<in> blocks ?st K j)" for a
      using own w p unfolding own_ok_def by (cases "a = p") auto
    show "?W (sbA ?st j) = Live" if "K j = SbLarge q" for j q
    proof -
      have "sbA ?st j \<in> blocks ?st K j" using that by (simp add: blocks_def)
      then have "sbA ?st j \<noteq> p" using blocks_disjoint[OF geo p, of j] that Ki by auto
      then show ?thesis using own_large[OF own that] by simp
    qed
    show "c2 = c1" if j: "K j = SbSmall c1" "a \<in> blocks ?st K j" "?W a = Cached t' c2" for j c1 a t' c2
    proof (cases "a = p")
      case True
      then have "j = i" using blocks_disjoint[OF geo p, of j] j(2) by simp
      then show ?thesis using True j w Ki by auto
    next
      case False
      then have "W a = Cached t' c2" using j(3) by simp
      then show ?thesis by (rule own_class[OF own j(1,2)])
    qed
  qed
  show "free_ok ?s K" using inv_free[OF inv] by (simp add: free_ok_def eqs)
  have nf: "nonfull ?s K c' = nonfull s K c'" for c' by (simp add: nonfull_def eqs)
  show "part_ok ?s K X c'" for c' using inv_part[OF inv, of c'] by (simp add: part_ok_def nf eqs)
  show "desc_ok ?s K ?W j" for j
    using w by (intro desc_ok_same[OF inv_desc[OF inv]] in_sb_same) (auto simp: eqs)
  show "cache_ok ?s ?W t' c'" if c': "1 \<le> c'" "c' < MAX_SZ_IDX" for t' c'
  proof (cases "t' = t \<and> c' = c")
    case True
    then show ?thesis using zs class_data(2,3)[OF c']
      by (auto simp: cache_ok_def upd_cache_def bin_list_def)
  next
    case False
    then have "{a. ?W a = Cached t' c'} = {a. W a = Cached t' c'}" using w by auto
    moreover have "t_caches ?s t' c' = t_caches s t' c'" using False by (auto simp: upd_cache_def)
    ultimately show ?thesis using inv_cache[OF inv c', of t'] by (simp add: cache_ok_def eqs)
  qed
  show "\<exists>c'. j \<in> nonfull ?s K c'" if "j \<in> X" for j using X_nonfull[OF inv that] nf by auto
qed

lemma cache_list:
  assumes "heap_inv s n K W X" and "1 \<le> c" and "c < MAX_SZ_IDX"
  shows "\<exists>xs. bin_list (mem s) (t_caches s t c) xs \<and> set xs = {a. W a = Cached t c}
    \<and> cb_block_num (t_caches s t c) = length xs \<and> length xs \<le> bn_of c"
  using inv_cache[OF assms, of t] class_data(2,3)[OF assms(2,3)]
  by (auto simp: cache_ok_def bin_list_def)

lemma inv_pop_block:
  assumes inv: "heap_inv s n K W X" and c: "1 \<le> c" "c < MAX_SZ_IDX"
    and ne: "cb_block_num (t_caches s t c) \<noteq> 0"
  shows "\<exists>p cb i. pop_block (mem s) (t_caches s t c) = Ret (p, cb) \<and> W p = Cached t c
    \<and> K i = SbSmall c \<and> p \<in> blocks (sb_start s) K i
    \<and> heap_inv (upd_cache t c cb s) n K (W(p := Live)) X"
proof -
  obtain xs where xs: "bin_list (mem s) (t_caches s t c) xs" "set xs = {a. W a = Cached t c}"
      "length xs \<le> bn_of c" "xs \<noteq> []"
    using cache_list[OF inv c, of t] ne by auto
  then obtain p ys where ys: "xs = p # ys" by (cases xs) auto
  obtain cb where cb: "pop_block (mem s) (t_caches s t c) = Ret (p, cb)" "bin_list (mem s) cb ys"
    using pop_block_list xs(1) ys by blast
  have Wp: "W p = Cached t c" using xs(2) ys by auto
  then obtain i where i: "K i = SbSmall c" "p \<in> blocks (sb_start s) K i"
    using free_block_small[OF inv_own[OF inv]] by blast
  have "set ys = {a. (W(p := Live)) a = Cached t c}"
    using xs(1,2) ys by (auto simp: bin_list_def)
  then have "heap_inv (upd_cache t c cb s) n K (W(p := Live)) X"
    using xs(3) ys Wp cb(2) by (intro inv_cache_change[OF inv i]) auto
  with cb(1) Wp i show ?thesis by blast
qed

lemma inv_push_block:
  assumes inv: "heap_inv s n K W X" and Ki: "K i = SbSmall c" and p: "p \<in> blocks (sb_start s) K i"
    and Wp: "W p = Live" and room: "cb_block_num (t_caches s t c) < bn_of c"
  shows "\<exists>m cb. push_block (mem s) (t_caches s t c) p = (m, cb)
    \<and> heap_inv (upd_cache t c cb (s\<lparr>mem := m\<rparr>)) n K (W(p := Cached t c)) X"
proof -
  note c = small_desc(6,7)[OF inv Ki]
  obtain xs where xs: "bin_list (mem s) (t_caches s t c) xs" "set xs = {a. W a = Cached t c}"
      "cb_block_num (t_caches s t c) = length xs"
    using cache_list[OF inv c, of t] by auto
  have px: "p \<notin> set xs" using xs(2) Wp by auto
  obtain m cb where pb: "push_block (mem s) (t_caches s t c) p = (m, cb)" by fastforce
  note b = push_block_list[OF xs(1) px pb]
  have inv1: "heap_inv (s\<lparr>mem := m\<rparr>) n K W X"
    using b(2) Wp by (intro inv_mem_frame[OF inv]) metis
  have "set (p # xs) = {a. (W(p := Cached t c)) a = Cached t c}" using xs(2) by auto
  then have "heap_inv (upd_cache t c cb (s\<lparr>mem := m\<rparr>)) n K (W(p := Cached t c)) X"
    using b(1) room xs(3) Wp p by (intro inv_cache_change[OF inv1 Ki]) auto
  with pb show ?thesis by blast
qed

section \<open>A new large block\<close>

lemma inv_new_large:
  assumes inv: "heap_inv s n K W X" and m: "0 < m" "m < 65536"
    and tk: "\<And>j. i \<le> j \<Longrightarrow> j < i + m \<Longrightarrow> K j = SbTaken"
    and d: "d_heap (descs s (dA (desc_start s) i)) = Some 0"
      "d_block_size (descs s (dA (desc_start s) i)) = m * SBSIZE"
      "d_maxcount (descs s (dA (desc_start s) i)) = 1"
      "d_superblock (descs s (dA (desc_start s) i)) = sbA (sb_start s) i"
  defines "K' \<equiv> \<lambda>j. if j = i then SbLarge m else if i < j \<and> j < i + m then SbTail else K j"
  shows "heap_inv s n K' (W(sbA (sb_start s) i := Live)) X"
proof (rule heap_invI)
  let ?st = "sb_start s"
  let ?W = "W(sbA ?st i := Live)"
  note geo = inv_geo[OF inv] and own = inv_own[OF inv]
  have out: "K' j = K j" if "\<not> (i \<le> j \<and> j < i + m)" for j using that m(1) by (auto simp: K'_def)
  have small: "K' j = SbSmall q \<longleftrightarrow> K j = SbSmall q" for j q
    using tk[of j] out[of j] m(1) by (auto simp: K'_def)
  have large: "K' j = SbLarge q \<longleftrightarrow> j = i \<and> q = m \<or> K j = SbLarge q" for j q
    using tk[of j] out[of j] m(1) by (auto simp: K'_def)
  have tail: "K' j = SbTail \<longleftrightarrow> i < j \<and> j < i + m \<or> K j = SbTail" for j
    using tk[of j] out[of j] m(1) by (auto simp: K'_def)
  have free: "K' j = SbFree \<longleftrightarrow> K j = SbFree" "K' j = Unmapped \<longleftrightarrow> K j = Unmapped" for j
    using tk[of j] out[of j] m(1) by (auto simp: K'_def)
  have bl: "blocks ?st K' j = (if j = i then {sbA ?st i} else blocks ?st K j)" for j
    using tk[of j] by (auto simp: blocks_def K'_def)
  have empty_i: "blocks ?st K i = {}" using tk[of i] m(1) by (simp add: blocks_def)
  have new: "W (sbA ?st i) = NoBlock" using no_block_in[OF inv empty_i] by simp
  have neq: "a \<noteq> sbA ?st i" if "a \<in> blocks ?st K j" for a j
    using new block_owner[OF own that] by auto
  show "geo s n K'"
  proof -
    have a: "0 < q \<and> q < 65536 \<and> (\<forall>l. 0 < l \<and> l < q \<longrightarrow> K' (j + l) = SbTail)" if "K' j = SbLarge q" for j q
      using that m large_desc(4-6)[OF inv] unfolding large tail by auto
    have b: "\<exists>i' q. K' i' = SbLarge q \<and> i' < j \<and> j < i' + q" if "K' j = SbTail" for j
    proof -
      from that consider "i < j \<and> j < i + m" | "K j = SbTail" unfolding tail by blast
      then show ?thesis
      proof cases
        case 2
        then obtain i' q where "K i' = SbLarge q" "i' < j" "j < i' + q"
          using geo unfolding geo_def by blast
        then show ?thesis using large by blast
      qed (use large in blast)
    qed
    have c: "\<forall>j q. K' j = SbSmall q \<longrightarrow> 1 \<le> q \<and> q < MAX_SZ_IDX"
      using geo_class[OF geo] small by blast
    have e: "\<forall>j. K' j = Unmapped \<longleftrightarrow> j = 0 \<or> j \<ge> n" using geo free by (simp add: geo_def)
    have f: "\<forall>j q. K' j = SbLarge q \<longrightarrow> 0 < q \<and> q < 65536 \<and> (\<forall>l. 0 < l \<and> l < q \<longrightarrow> K' (j + l) = SbTail)"
      using a by blast
    have g: "\<forall>j. K' j = SbTail \<longrightarrow> (\<exists>i' q. K' i' = SbLarge q \<and> i' < j \<and> j < i' + q)" using b by blast
    have h: "region_ok (sb_region s) \<and> 0 < sb_start s \<and> SBSIZE dvd sb_start s \<and> 0 < desc_start s \<and>
        DESCSIZE dvd desc_start s \<and> unat (rm_curr_addr (sb_region s)) = sb_start s + n * SBSIZE"
      using geo by (simp add: geo_def)
    show ?thesis unfolding geo_def using c e f g h by blast
  qed
  show "own_ok ?st K' ?W"
  proof (rule own_okI)
    show "?W a \<noteq> NoBlock \<longleftrightarrow> (\<exists>j. a \<in> blocks ?st K' j)" for a
    proof (cases "a = sbA ?st i")
      case True
      then show ?thesis using bl by auto
    next
      case False
      have "(\<exists>j. a \<in> blocks ?st K j) \<longleftrightarrow> (\<exists>j. a \<in> blocks ?st K' j)"
      proof
        assume "\<exists>j. a \<in> blocks ?st K j"
        then obtain j where j: "a \<in> blocks ?st K j" by blast
        then have "j \<noteq> i" using empty_i by auto
        with j bl show "\<exists>j. a \<in> blocks ?st K' j" by auto
      qed (use False bl in \<open>auto split: if_splits\<close>)
      then show ?thesis using False own by (simp add: own_ok_def)
    qed
    show "?W (sbA ?st j) = Live" if "K' j = SbLarge q" for j q
      using that own_large[OF own] unfolding large by auto
    show "c2 = c1" if j: "K' j = SbSmall c1" "a \<in> blocks ?st K' j" "?W a = Cached t' c2" for j c1 a t' c2
    proof -
      have k: "K j = SbSmall c1" "j \<noteq> i" using j(1) small tk[of i] m(1) by auto
      then have b: "a \<in> blocks ?st K j" using j(2) bl by auto
      then have "W a = Cached t' c2" using j(3) neq[OF b] by simp
      then show ?thesis by (rule own_class[OF own k(1) b])
    qed
  qed
  show "free_ok s K'" using inv_free[OF inv] by (simp add: free_ok_def free)
  have nf: "nonfull s K' q = nonfull s K q" for q by (simp add: nonfull_def small)
  show "part_ok s K' X q" for q using inv_part[OF inv, of q] by (simp add: part_ok_def nf)
  show "desc_ok s K' ?W j" for j
  proof (cases "i \<le> j \<and> j < i + m")
    case True
    show ?thesis
    proof (cases "j = i")
      case True
      then have "K' j = SbLarge m" by (simp add: K'_def)
      then show ?thesis using True d by (simp add: desc_ok_def Let_def)
    next
      case False
      then have "K' j = SbTail" using True by (simp add: K'_def)
      then show ?thesis by (intro desc_ok_unused) simp_all
    qed
  next
    case False
    then show ?thesis using out[OF False] neq
      by (intro desc_ok_same[OF inv_desc[OF inv]] in_sb_same) auto
  qed
  show "cache_ok s ?W t q" if "1 \<le> q" "q < MAX_SZ_IDX" for t q
  proof -
    have "{a. ?W a = Cached t q} = {a. W a = Cached t q}" using new by auto
    then show ?thesis using inv_cache[OF inv that, of t] by (simp add: cache_ok_def)
  qed
  show "\<exists>q. j \<in> nonfull s K' q" if "j \<in> X" for j using X_nonfull[OF inv that] nf by auto
qed

end
