(* ===== verification/AllocSpec.thy ===== *)
theory AllocSpec
  imports AllocOps
begin

text \<open>
  The operations \<^verbatim>\<open>malloc_from_partial\<close>, \<^verbatim>\<open>malloc_from_newsb\<close>, \<^verbatim>\<open>fill_cache\<close>,
  \<^verbatim>\<open>flush_cache\<close>, \<^verbatim>\<open>do_malloc\<close> and \<^verbatim>\<open>do_free\<close> on the abstract state.
\<close>

section \<open>What the operations leave alone\<close>

definition same_base :: "ralloc \<Rightarrow> ralloc \<Rightarrow> bool" where
  "same_base s s' \<longleftrightarrow>
     sb_start s' = sb_start s \<and> desc_start s' = desc_start s \<and> roots s' = roots s"

lemma same_base_refl [simp]: "same_base s s" by (simp add: same_base_def)

lemma same_base_trans: "same_base s s' \<Longrightarrow> same_base s' s'' \<Longrightarrow> same_base s s''"
  by (simp add: same_base_def)

lemma organize_frame:
  "same_base s (organize_sb_list s a m)" "t_caches (organize_sb_list s a m) = t_caches s"
  "sb_region (organize_sb_list s a m) = sb_region s" "mem (organize_sb_list s a m) = mem s"
  "partial_list (organize_sb_list s a m) = partial_list s"
  by (simp_all add: organize_sb_list_def same_base_def Let_def split: prod.split)

lemma push_partial_frame:
  assumes "heap_push_partial s d = Ret s'"
  shows "same_base s s'" "t_caches s' = t_caches s" "sb_region s' = sb_region s" "mem s' = mem s"
  using assms
  by (auto simp: heap_push_partial_def Let_def run_simps upd_desc_def same_base_def split: option.splits)

lemma pop_partial_frame:
  assumes "heap_pop_partial s c = (d, s')"
  shows "same_base s s'" "t_caches s' = t_caches s" "sb_region s' = sb_region s" "descs s' = descs s"
    "mem s' = mem s"
  using assms by (auto simp: heap_pop_partial_def Let_def same_base_def split: if_splits)

lemma upd_frame [simp]:
  "same_base s (upd_cache t c cb s)" "same_base s (upd_desc d f s)"
  "same_base s (s\<lparr>mem := m\<rparr>)" "same_base s (s\<lparr>avail_sb := h\<rparr>)" "same_base s (s\<lparr>sb_region := r\<rparr>)"
  "sb_region (upd_cache t c cb s) = sb_region s" "sb_region (upd_desc d f s) = sb_region s"
  "t_caches (upd_desc d f s) = t_caches s" "mem (upd_desc d f s) = mem s"
  "sb_start (upd_desc d f s) = sb_start s" "desc_start (upd_desc d f s) = desc_start s"
  "sb_start (upd_cache t c cb s) = sb_start s" "desc_start (upd_cache t c cb s) = desc_start s"
  "descs (upd_cache t c cb s) = descs s" "t_caches (upd_cache t c cb s) t c = cb"
  "mem (upd_cache t c cb s) = mem s"
  "descs (upd_desc d f s) d = f (descs s d)"
  by (simp_all add: same_base_def upd_cache_def upd_desc_def)

section \<open>Retiring an empty superblock\<close>

lemma retire_ok:
  assumes inv: "heap_inv s n K W X" and i: "i \<in> X" and Ki: "K i = SbSmall c"
    and st: "state (d_anchor (descs s (dA (desc_start s) i))) = SB_EMPTY"
  shows "\<exists>s' W'. small_sb_retire s (sbA (sb_start s) i) SBSIZE = Ret s'
    \<and> heap_inv s' n (K(i := SbFree)) W' (X - {i})
    \<and> live_map (sb_start s) (K(i := SbFree)) W' = live_map (sb_start s) K W
    \<and> same_base s s' \<and> sb_region s' = sb_region s \<and> t_caches s' = t_caches s \<and> mem s' = mem s"
proof -
  let ?st = "sb_start s"
  let ?W = "\<lambda>a. if a \<in> blocks ?st K i then NoBlock else W a"
  have inv1: "heap_inv s n (K(i := SbTaken)) ?W (X - {i})" by (rule inv_take_empty[OF inv i Ki st])
  have "heap_inv (organize_sb_list s (sbA ?st i) 1) n
      (\<lambda>j. if i \<le> j \<and> j < i + 1 then SbFree else (K(i := SbTaken)) j) ?W (X - {i})"
    by (rule inv_organize[OF inv1]) auto
  moreover have "(\<lambda>j. if i \<le> j \<and> j < i + 1 then SbFree else (K(i := SbTaken)) j) = K(i := SbFree)"
    by auto
  ultimately have inv2: "heap_inv (organize_sb_list s (sbA ?st i) 1) n (K(i := SbFree)) ?W (X - {i})"
    by simp
  have insb: "W a = InSb" if "a \<in> blocks ?st K i" for a
    using small_desc(5)[OF inv Ki] st that by (auto simp: anchor_ok_def in_sb_def)
  have "live_map ?st (K(i := SbFree)) ?W = live_map ?st K W"
    by (rule live_map_same[OF inv_geo[OF inv] inv_own[OF inv]]) (use insb in auto)
  then show ?thesis
    using inv2 organize_frame[of s "sbA ?st i" 1] by (auto simp: small_sb_retire_organize)
qed

section \<open>Taking blocks from a partial superblock\<close>

lemma small_lt: "heap_inv s n K W X \<Longrightarrow> K j = SbSmall c \<Longrightarrow> j < n \<and> j \<noteq> 0"
proof -
  assume "heap_inv s n K W X" and j: "K j = SbSmall c"
  then have "K j = Unmapped \<longleftrightarrow> j = 0 \<or> j \<ge> n" unfolding heap_inv_def geo_def by blast
  with j show ?thesis by simp
qed

lemma inv_finite: "heap_inv s n K W X \<Longrightarrow> finite {j. K j = SbSmall c}"
  by (rule finite_subset[of _ "{..<n}"]) (use small_lt in blast, simp)

lemma bin_list_num: "bin_list m cb xs \<Longrightarrow> xs \<noteq> [] \<Longrightarrow> cb_block_num cb \<noteq> 0"
  by (cases xs) (auto simp: bin_list_def)

lemma malloc_from_partial_ok:
  assumes "rep s n K W" and "1 \<le> c" and "c < MAX_SZ_IDX"
    and "cb_block_num (t_caches s t c) = 0" and "card {j. K j = SbSmall c} < fuel"
  shows "\<exists>k s' K' W'. malloc_from_partial fuel s t c = Ret (k, s') \<and> rep s' n K' W'
    \<and> live_map (sb_start s) K' W' = live_map (sb_start s) K W
    \<and> same_base s s' \<and> sb_region s' = sb_region s \<and> mem s' = mem s
    \<and> (if k = 0 then cb_block_num (t_caches s' t c) = 0 else k < bn_of c \<and> cb_block_num (t_caches s' t c) \<noteq> 0)"
  using assms
proof (induction fuel arbitrary: s K W)
  case 0
  then show ?case by simp
next
  case (Suc fuel)
  have inv: "heap_inv s n K W {}" and tk: "\<And>i. K i \<noteq> SbTaken" and n: "0 < n"
    using Suc.prems(1) by (auto simp: rep_def)
  note c = Suc.prems(2,3)
  obtain d s1 where pop: "heap_pop_partial s c = (d, s1)" by fastforce
  note fr = pop_partial_frame[OF pop]
  show ?case
  proof (cases "d = 0")
    case True
    then have "s1 = s" using pop_partial_none(1)[OF inv] pop by simp
    then have "malloc_from_partial (Suc fuel) s t c = Ret (0, s)" using pop True by simp
    then show ?thesis using Suc.prems by force
  next
    case False
    from inv_pop_partial[OF inv pop False] obtain i where
      i: "d = dA (desc_start s) i" "i \<in> nonfull s K c" "heap_inv s1 n K W {i}" by auto
    have st: "sb_start s1 = sb_start s" "desc_start s1 = desc_start s"
      using fr(1) by (simp_all add: same_base_def)
    have Ki: "K i = SbSmall c" using i(2) by (simp add: nonfull_def)
    note sd = small_desc[OF i(3) Ki, unfolded st]
    let ?A = "d_anchor (descs s1 d)"
    have nf: "state ?A \<noteq> SB_FULL" using i(1,2) fr(4) by (simp add: nonfull_def)
    have ne: "state ?A \<noteq> SB_ERROR" using sd(5) i(1) by (auto simp: anchor_ok_def)
    show ?thesis
    proof (cases "state ?A = SB_EMPTY")
      case True
      from retire_ok[OF i(3) _ Ki, unfolded st] obtain s2 W2 where
        r: "small_sb_retire s1 (sbA (sb_start s) i) SBSIZE = Ret s2" "heap_inv s2 n (K(i := SbFree)) W2 {}"
          "live_map (sb_start s) (K(i := SbFree)) W2 = live_map (sb_start s) K W"
          "same_base s1 s2" "sb_region s2 = sb_region s1" "t_caches s2 = t_caches s1" "mem s2 = mem s1"
        using True i(1) by auto
      have rep2: "rep s2 n (K(i := SbFree)) W2" using r(2) tk n by (simp add: rep_def)
      have "{j. (K(i := SbFree)) j = SbSmall c} = {j. K j = SbSmall c} - {i}" by auto
      then have card: "card {j. (K(i := SbFree)) j = SbSmall c} < fuel"
        using card_Diff1_less[OF inv_finite[OF inv, of c], of i] Ki Suc.prems(5) by simp
      have cache2: "cb_block_num (t_caches s2 t c) = 0" using r(6) fr(2) Suc.prems(4) by simp
      have st2: "sb_start s2 = sb_start s" using r(4) st by (simp add: same_base_def)
      have run: "malloc_from_partial (Suc fuel) s t c = malloc_from_partial fuel s2 t c"
        using pop False True r(1) sd(4) i(1) class_data(1)[OF c] by simp
      from Suc.IH[OF rep2 c cache2 card] obtain k s' K' W' where
        IH: "malloc_from_partial fuel s2 t c = Ret (k, s')" "rep s' n K' W'"
          "live_map (sb_start s) K' W' = live_map (sb_start s) (K(i := SbFree)) W2"
          "same_base s2 s'" "sb_region s' = sb_region s2" "mem s' = mem s2"
          "if k = 0 then cb_block_num (t_caches s' t c) = 0 else k < bn_of c \<and> cb_block_num (t_caches s' t c) \<noteq> 0"
        unfolding st2 by blast
      have "same_base s s'" using fr(1) r(4) IH(4) same_base_trans by blast
      then show ?thesis using run IH r(3,5,7) fr(3,5) by (intro exI[of _ k] exI[of _ s']) auto
    next
      case False
      then have part: "state ?A = SB_PARTIAL" using nf ne by (cases "state ?A") auto
      have cache1: "cb_block_num (t_caches s1 t c) = 0" using fr(2) Suc.prems(4) by simp
      let ?W = "\<lambda>a. if a \<in> in_sb (sb_start s) K W i then Cached t c else W a"
      from inv_take_partial[OF i(3) _ Ki _ cache1, unfolded st, folded i(1)] part obtain cb xs where
        cb: "push_list (t_caches s1 t c) (sbA (sb_start s) i + avail ?A * bs_of c) (count ?A) = Ret cb"
          "heap_inv (upd_cache t c cb (upd_desc d
             (\<lambda>x. x\<lparr>d_anchor := \<lparr>avail = bn_of c, count = 0, state = SB_FULL\<rparr>\<rparr>) s1)) n K ?W {}"
          "0 < count ?A" "count ?A < bn_of c" "avail ?A < bn_of c" "xs \<noteq> []" "bin_list (mem s1) cb xs"
        by auto
      let ?s2 = "upd_cache t c cb (upd_desc d (\<lambda>x. x\<lparr>d_anchor := \<lparr>avail = bn_of c, count = 0, state = SB_FULL\<rparr>\<rparr>) s1)"
      have run: "malloc_from_partial (Suc fuel) s t c = Ret (count ?A, ?s2)"
        using pop \<open>d \<noteq> 0\<close> part cb(1,5) sd(2-4) i(1) by (simp add: Let_def)
      have "live_map (sb_start s) K ?W = live_map (sb_start s) K W"
        by (rule live_map_same[OF inv_geo[OF inv] inv_own[OF inv]]) (auto simp: in_sb_def)
      moreover have "rep ?s2 n K ?W" using cb(2) tk n by (simp add: rep_def)
      moreover have "same_base s ?s2" using fr(1) same_base_trans upd_frame(1,2) by blast
      ultimately show ?thesis
        using run cb(3,4) fr(3,5) bin_list_num[OF cb(7,6)]
        by (intro exI[of _ "count ?A"] exI[of _ ?s2] exI[of _ K] exI[of _ ?W]) simp
    qed
  qed
qed

section \<open>A superblock from the free list or the region\<close>

lemma inv_upd_desc_taken:
  assumes "heap_inv s n K W X" and "K i = SbTaken"
  shows "heap_inv (upd_desc (dA (desc_start s) i) f s) n K W X"
  unfolding upd_desc_def
  using assms(2) by (intro inv_descs_frame[OF assms(1)]) (auto simp: used_desc_def)

lemma expand_count: "SB_REGION_EXPAND_SIZE div SBSIZE = 16384" "SB_REGION_EXPAND_SIZE = 16384 * SBSIZE"
  by (simp_all add: SB_REGION_EXPAND_SIZE_def SBSIZE_eq)

lemma live_same_notin:
  assumes "heap_inv s n K W X" and "\<And>i. K' i \<noteq> K i \<Longrightarrow> blocks (sb_start s) K i = {}"
  shows "live_map (sb_start s) K' W = live_map (sb_start s) K W"
  by (rule live_map_same[OF inv_geo[OF assms(1)] inv_own[OF assms(1)]]) (use assms(2) in auto)

lemma page_aligned_end:
  assumes "geo s n K"
  shows "align_up (unat (rm_curr_addr (sb_region s))) (2 ^ 12) = sb_start s + n * SBSIZE"
proof -
  have e: "unat (rm_curr_addr (sb_region s)) = sb_start s + n * SBSIZE" and d: "SBSIZE dvd sb_start s"
    using assms by (simp_all add: geo_def)
  have "(2::nat) ^ 12 dvd SBSIZE" by (simp add: SBSIZE_eq dvd_def)
  then have "2 ^ 12 dvd sb_start s + n * SBSIZE" using d by (meson dvd_add dvd_mult dvd_trans)
  then show ?thesis unfolding e by (rule align_up_id)
qed

lemma small_sb_expand_ok:
  assumes inv: "heap_inv s n K W {}" and n: "0 < n" and tk: "\<And>i. K i \<noteq> SbTaken"
  shows "(\<exists>s' K'. small_sb_expand s = Ret (sbA (sb_start s) n, s') \<and> heap_inv s' (n + 16384) K' W {}
      \<and> K' n = SbTaken \<and> (\<forall>j. j \<noteq> n \<longrightarrow> K' j \<noteq> SbTaken)
      \<and> live_map (sb_start s) K' W = live_map (sb_start s) K W
      \<and> same_base s s' \<and> t_caches s' = t_caches s \<and> mem s' = mem s)
    \<or> small_sb_expand s = Abort ''out of space in mmaped file'' \<and>
      unat (base_addr (sb_region s)) + unat (FILESIZE (sb_region s))
        < unat (rm_curr_addr (sb_region s)) + SB_REGION_EXPAND_SIZE"
proof -
  let ?r = "sb_region s" and ?sz = "word_of_nat SB_REGION_EXPAND_SIZE :: u64"
  have geo: "geo s n K" by (rule inv_geo[OF inv])
  have ok: "region_ok ?r" and e: "unat (rm_curr_addr ?r) = sb_start s + n * SBSIZE"
    and dv: "SBSIZE dvd sb_start s" using geo by (simp_all add: geo_def)
  have usz: "unat ?sz = SB_REGION_EXPAND_SIZE" by (rule unat_word_of_nat) (simp add: SB_REGION_EXPAND_SIZE_def)
  have lt: "unat ?sz < 2 ^ 63" unfolding usz by (simp add: SB_REGION_EXPAND_SIZE_def)
  have ne: "?sz \<noteq> 0"
  proof
    assume "?sz = 0"
    then have "unat ?sz = 0" by simp
    then show False unfolding usz by (simp add: SB_REGION_EXPAND_SIZE_def)
  qed
  note spec = nvm_region_allocator_spec[OF ok _ _ ne lt, of 12, unfolded page_aligned_end[OF geo] usz]
  show ?thesis
  proof (cases "sb_start s + n * SBSIZE + SB_REGION_EXPAND_SIZE \<le> unat (base_addr ?r) + unat (FILESIZE ?r)")
    case False
    then have "nvm_region_allocator ?r ?r (2 ^ 12) ?sz = (-1, None, ?r)" using spec by simp
    then have "small_sb_expand s = Abort ''out of space in mmaped file''"
      unfolding small_sb_expand_eq[OF ok] page_shift by simp
    then show ?thesis using False e by simp
  next
    case True
    then obtain r p where r: "nvm_region_allocator ?r ?r (2 ^ 12) ?sz = (1, Some p, r)" "region_ok r"
        "unat p = sb_start s + n * SBSIZE" "unat (rm_curr_addr r) = sb_start s + n * SBSIZE + SB_REGION_EXPAND_SIZE"
      using spec by auto
    have p: "unat p = sbA (sb_start s) n" "unat p + SBSIZE = sbA (sb_start s) (n + 1)"
      using r(3) by (simp_all add: sbA_def)
    let ?s1 = "s\<lparr>sb_region := r\<rparr>"
    let ?K1 = "\<lambda>i. if n \<le> i \<and> i < n + 16384 then SbTaken else K i"
    have inv1: "heap_inv ?s1 (n + 16384) ?K1 W {}"
      using r(2,4) by (intro inv_grow[OF inv n]) (simp_all add: expand_count(2) algebra_simps)
    let ?s2 = "organize_sb_list ?s1 (sbA (sb_start s) (n + 1)) 16383"
    let ?K2 = "\<lambda>i. if n + 1 \<le> i \<and> i < n + 1 + 16383 then SbFree else ?K1 i"
    have "heap_inv (organize_sb_list ?s1 (sbA (sb_start ?s1) (n + 1)) 16383) (n + 16384) ?K2 W {}"
      by (rule inv_organize[OF inv1]) simp_all
    then have inv2: "heap_inv ?s2 (n + 16384) ?K2 W {}" by simp
    have b: "sb_start ?s2 = sb_start s" "desc_start ?s2 = desc_start s" "roots ?s2 = roots s"
      using organize_frame(1)[of ?s1 "sbA (sb_start s) (n + 1)" 16383] by (simp_all add: same_base_def)
    have lk: "desc_lookup ?s2 (sbA (sb_start s) n) = dA (desc_start ?s2) n"
      using desc_lookup_sbA[of ?s2 n] dv b by simp
    let ?s3 = "upd_desc (dA (desc_start ?s2) n) (\<lambda>_. Descriptor_init) ?s2"
    have inv3: "heap_inv ?s3 (n + 16384) ?K2 W {}" by (rule inv_upd_desc_taken[OF inv2]) simp
    have run: "small_sb_expand s = Ret (sbA (sb_start s) n, ?s3)"
      unfolding small_sb_expand_eq[OF ok] page_shift r(1) using p lk by (simp add: expand_count(1) Let_def)
    have "blocks (sb_start s) K i = {}" if "?K2 i \<noteq> K i" for i
    proof -
      have "n \<le> i" using that by (auto split: if_splits)
      then have "K i = Unmapped" using geo unfolding geo_def by blast
      then show ?thesis by (simp add: blocks_def)
    qed
    then have "live_map (sb_start s) ?K2 W = live_map (sb_start s) K W" by (rule live_same_notin[OF inv])
    moreover have "same_base s ?s3" using b by (simp add: same_base_def upd_desc_def)
    moreover have "t_caches ?s3 = t_caches s" "mem ?s3 = mem s" by (simp_all add: organize_frame)
    moreover have "?K2 j \<noteq> SbTaken" if "j \<noteq> n" for j using tk that by auto
    ultimately show ?thesis using run inv3 by (intro disjI1 exI[of _ ?s3] exI[of _ ?K2]) simp
  qed
qed

lemma small_sb_alloc_ok:
  assumes rep: "rep s n K W"
  shows "(\<exists>s' i n' K'. small_sb_alloc s SBSIZE = Ret (sbA (sb_start s) i, s') \<and> heap_inv s' n' K' W {}
      \<and> 0 < n' \<and> K' i = SbTaken \<and> (\<forall>j. j \<noteq> i \<longrightarrow> K' j \<noteq> SbTaken)
      \<and> live_map (sb_start s) K' W = live_map (sb_start s) K W
      \<and> same_base s s' \<and> t_caches s' = t_caches s \<and> mem s' = mem s)
    \<or> small_sb_alloc s SBSIZE = Abort ''out of space in mmaped file'' \<and>
      unat (base_addr (sb_region s)) + unat (FILESIZE (sb_region s))
        < unat (rm_curr_addr (sb_region s)) + SB_REGION_EXPAND_SIZE"
proof -
  have inv: "heap_inv s n K W {}" and n: "0 < n" and tk: "\<And>i. K i \<noteq> SbTaken"
    using rep by (auto simp: rep_def)
  show ?thesis
  proof (cases "h_ptr (avail_sb s) = 0")
    case True
    then have "small_sb_alloc s SBSIZE = small_sb_expand s" by (simp add: small_sb_alloc_def)
    moreover have "0 < n + 16384" by simp
    ultimately show ?thesis using small_sb_expand_ok[OF inv n tk] by metis
  next
    case False
    from inv_pop_free[OF inv this] obtain i hd' where
      i: "K i = SbFree" "small_sb_alloc s SBSIZE = Ret (sbA (sb_start s) i, s\<lparr>avail_sb := hd'\<rparr>)"
        "heap_inv (s\<lparr>avail_sb := hd'\<rparr>) n (K(i := SbTaken)) W {}" by blast
    have "live_map (sb_start s) (K(i := SbTaken)) W = live_map (sb_start s) K W"
      using i(1) by (intro live_same_notin[OF inv]) (auto simp: blocks_def split: if_splits)
    then show ?thesis using i n tk
      by (intro disjI1 exI[of _ "s\<lparr>avail_sb := hd'\<rparr>"] exI[of _ i] exI[of _ n] exI[of _ "K(i := SbTaken)"]) simp
  qed
qed

end
