(* ===== verification/AllocThms.thy ===== *)
theory AllocThms
  imports AllocSpec
begin

text \<open>
  Filling and flushing caches, the entry points \<^verbatim>\<open>do_malloc\<close> and \<^verbatim>\<open>do_free\<close>, the
  constructor, and arbitrary sequences of operations of several threads.
\<close>

section \<open>Filling a cache\<close>

definition no_room :: "ralloc \<Rightarrow> nat \<Rightarrow> bool" where
  "no_room s sz \<longleftrightarrow>
     unat (base_addr (sb_region s)) + unat (FILESIZE (sb_region s))
       < unat (rm_curr_addr (sb_region s)) + sz"

lemma newsb_comm:
  "upd_desc d g (upd_cache t c cb ((upd_desc d f s)\<lparr>mem := m\<rparr>)) =
   upd_cache t c cb ((upd_desc d (\<lambda>x. g (f x)) s)\<lparr>mem := m\<rparr>)"
  by (simp add: upd_desc_def upd_cache_def)

lemma malloc_from_newsb_ok:
  assumes rep: "rep s n K W" and c: "1 \<le> c" "c < MAX_SZ_IDX"
    and empty: "cb_block_num (t_caches s t c) = 0"
  shows "(\<exists>s' n' K' W'. malloc_from_newsb s t c = Ret (bn_of c, s') \<and> rep s' n' K' W'
      \<and> live_map (sb_start s) K' W' = live_map (sb_start s) K W
      \<and> same_base s s' \<and> untouched (live_map (sb_start s) K W) s s' \<and> cb_block_num (t_caches s' t c) \<noteq> 0)
    \<or> malloc_from_newsb s t c = Abort ''out of space in mmaped file'' \<and> no_room s SB_REGION_EXPAND_SIZE"
proof -
  have sz: "sb_size (get_sizeclass_by_idx c) = SBSIZE" by (rule class_data(1)[OF c])
  from small_sb_alloc_ok[OF rep] show ?thesis
  proof
    assume a: "small_sb_alloc s SBSIZE = Abort ''out of space in mmaped file'' \<and>
      unat (base_addr (sb_region s)) + unat (FILESIZE (sb_region s))
        < unat (rm_curr_addr (sb_region s)) + SB_REGION_EXPAND_SIZE"
    then show ?thesis using sz by (simp add: malloc_from_newsb_def no_room_def)
  next
    assume "\<exists>s' i n' K'. small_sb_alloc s SBSIZE = Ret (sbA (sb_start s) i, s') \<and> heap_inv s' n' K' W {}
      \<and> 0 < n' \<and> K' i = SbTaken \<and> (\<forall>j. j \<noteq> i \<longrightarrow> K' j \<noteq> SbTaken)
      \<and> live_map (sb_start s) K' W = live_map (sb_start s) K W
      \<and> same_base s s' \<and> t_caches s' = t_caches s \<and> mem s' = mem s"
    then obtain s1 i n1 K1 where a: "small_sb_alloc s SBSIZE = Ret (sbA (sb_start s) i, s1)"
        "heap_inv s1 n1 K1 W {}" "0 < n1" "K1 i = SbTaken" "\<And>j. j \<noteq> i \<Longrightarrow> K1 j \<noteq> SbTaken"
        "live_map (sb_start s) K1 W = live_map (sb_start s) K W" "same_base s s1" "t_caches s1 = t_caches s"
        "mem s1 = mem s"
      by blast
    have st: "sb_start s1 = sb_start s" "desc_start s1 = desc_start s"
      using a(7) by (simp_all add: same_base_def)
    have geo: "0 < sb_start s" "SBSIZE dvd sb_start s"
      using inv_geo[OF a(2)] st by (auto simp: geo_def)
    let ?sb = "sbA (sb_start s) i" and ?d = "dA (desc_start s) i"
    have lk: "desc_lookup s1 ?sb = ?d" using desc_lookup_sbA[of s1 i] geo st by simp
    have sb0: "?sb \<noteq> 0" using geo by (simp add: sbA_def)
    let ?A = "\<lparr>avail = bn_of c, count = 0, state = SB_FULL\<rparr>"
    let ?f = "\<lambda>x. x\<lparr>d_heap := Some c, d_block_size := bs_of c, d_maxcount := bn_of c, d_superblock := ?sb,
                  d_anchor := ?A\<rparr>"
    let ?s2 = "upd_desc ?d ?f s1"
    let ?m = "link_blocks (bn_of c - 1) 0 ?sb (bs_of c) (mem s1)"
    let ?s3 = "?s2\<lparr>mem := ?m\<rparr>"
    let ?xs = "map (\<lambda>k. ?sb + k * bs_of c) [0..<bn_of c]"
    note pos = class_pos[OF c]
    have inv2: "heap_inv ?s2 n1 K1 W {}"
      using inv_upd_desc_taken[OF a(2,4), of ?f] st by simp
    have in_sb_i: "sbA (sb_start s1) i \<le> b \<and> b < sbA (sb_start s1) i + SBSIZE" if "?m b \<noteq> mem s1 b" for b
    proof -
      have "\<exists>k<bn_of c - 1. b = ?sb + (0 + k) * bs_of c"
        using link_blocks_spec(2)[OF pos(1), of "bn_of c - 1" b ?sb 0 "mem s1"] that by blast
      then obtain k where k: "k < bn_of c - 1" "b = ?sb + k * bs_of c" by auto
      have "k * bs_of c + bs_of c \<le> SBSIZE" using block_span[OF c, of k] k(1) by simp
      then show ?thesis using k(2) pos(1) st by simp
    qed
    then have "W b = NoBlock" if "?m b \<noteq> mem s1 b" for b
      using a(4) that by (intro no_block_in[OF a(2), of i]) (simp_all add: blocks_def)
    then have inv3: "heap_inv ?s3 n1 K1 W {}" by (intro inv_mem_frame[OF inv2]) auto
    have chain: "chain ?m ?sb ?xs"
      using chain_array[of "bn_of c" ?m ?sb 0 "bs_of c"]
        link_blocks_spec(1)[OF pos(1), of _ "bn_of c - 1" 0 ?sb "mem s1"]
      by simp
    have dist: "distinct ?xs" using pos(1) by (auto simp: distinct_map inj_on_def)
    have empty3: "cb_block_num (t_caches ?s3 t c) = 0" using empty a(8) by simp
    obtain cb where cb: "push_list (t_caches ?s3 t c) ?sb (bn_of c) = Ret cb" "bin_list ?m cb ?xs"
      using push_list_list[OF empty3 chain dist, of "bn_of c"] by auto
    have set_xs: "set ?xs = blocks (sb_start s) (K1(i := SbSmall c)) i"
      by (auto simp: blocks_def)
    let ?W = "\<lambda>b. if b \<in> set ?xs then Cached t c else W b"
    have inv4: "heap_inv (upd_cache t c cb ?s3) n1 (K1(i := SbSmall c)) ?W {}"
      by (rule inv_new_small[OF inv3 a(4) c]) (use st cb(2) set_xs empty3 in \<open>simp_all add: upd_desc_def\<close>)
    have rep': "rep (upd_cache t c cb ?s3) n1 (K1(i := SbSmall c)) ?W"
      using inv4 a(3,5) by (simp add: rep_def)
    have newsb: "malloc_from_newsb s t c = Ret (bn_of c, upd_cache t c cb ?s3)"
      using a(1) sz sb0 lk cb(1) pos(2)
      by (simp add: malloc_from_newsb_def Let_def newsb_comm)
    have "W b \<noteq> Live" if "b \<in> set ?xs" for b
    proof -
      have "b \<in> blocks (sb_start s) (K1(i := SbSmall c)) i" using that set_xs by simp
      then have "sbA (sb_start s1) i \<le> b" "b < sbA (sb_start s1) i + SBSIZE"
        using blocks_range[OF geo_upd[OF inv_geo[OF a(2)], of i "SbSmall c"]] a(4) c st by auto
      then show ?thesis using no_block_in[OF a(2), of i b] a(4) by (simp add: blocks_def)
    qed
    then have "live_map (sb_start s1) (K1(i := SbSmall c)) ?W = live_map (sb_start s1) K1 W"
      using a(4) by (intro live_map_same[OF inv_geo[OF a(2)] inv_own[OF a(2)]]) (auto simp: blocks_def split: if_splits)
    then have "live_map (sb_start s) (K1(i := SbSmall c)) ?W = live_map (sb_start s) K W" using a(6) st by simp
    moreover have "same_base s (upd_cache t c cb ?s3)"
      using a(7) by (simp add: same_base_def upd_cache_def upd_desc_def)
    moreover have "cb_block_num (t_caches (upd_cache t c cb ?s3) t c) \<noteq> 0"
      using cb(2) pos(2) by (simp add: bin_list_def)
    moreover have "untouched (live_map (sb_start s1) K1 W) s1 (upd_cache t c cb ?s3)"
    proof (rule untouchedI[OF inv_geo[OF a(2)] inv_own[OF a(2)]], rule disjI2)
      fix b assume "mem (upd_cache t c cb ?s3) b \<noteq> mem s1 b"
      then have "?m b \<noteq> mem s1 b" by simp
      from in_sb_i[OF this] show "\<exists>k. sbA (sb_start s1) k \<le> b \<and> b < sbA (sb_start s1) k + SBSIZE
          \<and> blocks (sb_start s1) K1 k = {} \<and> K1 k \<noteq> SbTail"
        using a(4) by (intro exI[of _ i]) (simp add: blocks_def)
    qed
    then have "untouched (live_map (sb_start s) K W) s (upd_cache t c cb ?s3)"
      using a(6,9) st by (simp add: untouched_def)
    ultimately show ?thesis using newsb rep' by (intro disjI1) blast
  qed
qed

lemma fill_cache_ok:
  assumes rep: "rep s n K W" and c: "1 \<le> c" "c < MAX_SZ_IDX"
    and empty: "cb_block_num (t_caches s t c) = 0"
  shows "(\<exists>s' n' K' W'. fill_cache s t c = Ret s' \<and> rep s' n' K' W'
      \<and> live_map (sb_start s) K' W' = live_map (sb_start s) K W
      \<and> same_base s s' \<and> untouched (live_map (sb_start s) K W) s s' \<and> cb_block_num (t_caches s' t c) \<noteq> 0)
    \<or> fill_cache s t c = Abort ''out of space in mmaped file'' \<and> no_room s SB_REGION_EXPAND_SIZE"
proof -
  have inv: "heap_inv s n K W {}" using rep by (simp add: rep_def)
  have "card {j. K j = SbSmall c} \<le> card {..<n}"
    using small_lt[OF inv] by (intro card_mono) auto
  moreover have "retry_bound s = n + 1"
    using inv_geo[OF inv] by (simp add: retry_bound_def geo_def)
  ultimately have fuel: "card {j. K j = SbSmall c} < retry_bound s" by simp
  from malloc_from_partial_ok[OF rep c empty fuel] obtain k s1 K1 W1 where
    p: "malloc_from_partial (retry_bound s) s t c = Ret (k, s1)" "rep s1 n K1 W1"
      "live_map (sb_start s) K1 W1 = live_map (sb_start s) K W" "same_base s s1" "sb_region s1 = sb_region s"
      "mem s1 = mem s"
      "if k = 0 then cb_block_num (t_caches s1 t c) = 0 else k < bn_of c \<and> cb_block_num (t_caches s1 t c) \<noteq> 0"
    by blast
  have st: "sb_start s1 = sb_start s" using p(4) by (simp add: same_base_def)
  note cbn = class_data(2,3)[OF c]
  show ?thesis
  proof (cases "k = 0")
    case False
    then have "fill_cache s t c = Ret s1"
      using p(1,7) cbn by (simp add: fill_cache_def)
    then show ?thesis using p False untouched_eq[OF p(6)] by auto
  next
    case True
    then have e1: "cb_block_num (t_caches s1 t c) = 0" using p(7) by simp
    from malloc_from_newsb_ok[OF p(2) c e1] show ?thesis
    proof
      assume "malloc_from_newsb s1 t c = Abort ''out of space in mmaped file'' \<and> no_room s1 SB_REGION_EXPAND_SIZE"
      then show ?thesis using p(1,5) True by (simp add: fill_cache_def no_room_def)
    next
      assume "\<exists>s' n' K' W'. malloc_from_newsb s1 t c = Ret (bn_of c, s') \<and> rep s' n' K' W'
        \<and> live_map (sb_start s1) K' W' = live_map (sb_start s1) K1 W1
        \<and> same_base s1 s' \<and> untouched (live_map (sb_start s1) K1 W1) s1 s' \<and> cb_block_num (t_caches s' t c) \<noteq> 0"
      then obtain s2 n2 K2 W2 where q: "malloc_from_newsb s1 t c = Ret (bn_of c, s2)" "rep s2 n2 K2 W2"
          "live_map (sb_start s1) K2 W2 = live_map (sb_start s1) K1 W1" "same_base s1 s2"
          "untouched (live_map (sb_start s1) K1 W1) s1 s2" "cb_block_num (t_caches s2 t c) \<noteq> 0" by blast
      have "fill_cache s t c = Ret s2"
        using p(1) q(1) True class_pos(2)[OF c] cbn by (simp add: fill_cache_def)
      moreover have "untouched (live_map (sb_start s) K W) s s2"
        using q(5) p(3,6) st by (simp add: untouched_def)
      ultimately show ?thesis using q(2-4,6) p(3,4) st same_base_trans by metis
    qed
  qed
qed

section \<open>Flushing a cache\<close>

lemma flush_scan_spec:
  assumes "chain m (m tail) xs"
  shows "flush_scan m sb sz (length xs) tail k =
    (last (tail # takeWhile (\<lambda>p. \<not> (p < sb \<or> p \<ge> sb + sz)) xs),
     k + length (takeWhile (\<lambda>p. \<not> (p < sb \<or> p \<ge> sb + sz)) xs))"
  using assms
proof (induction xs arbitrary: tail k)
  case Nil
  then show ?case by simp
next
  case (Cons x xs)
  then have x: "m tail = x" "chain m (m x) xs" by auto
  show ?case using Cons.IH[OF x(2), of "k + 1"] x(1) by simp
qed

lemma upd_comm:
  "upd_desc d f ((upd_cache t c cb s)\<lparr>mem := m\<rparr>) = upd_cache t c cb (upd_desc d f (s\<lparr>mem := m\<rparr>))"
  by (simp add: upd_desc_def upd_cache_def)

lemma flush_step_ok:
  assumes rep: "rep s n K W" and c: "1 \<le> c" "c < MAX_SZ_IDX"
    and ne: "cb_block_num (t_caches s t c) > 0"
  shows "\<exists>s' K' W'. flush_step s t c = Ret s' \<and> rep s' n K' W'
    \<and> live_map (sb_start s) K' W' = live_map (sb_start s) K W
    \<and> same_base s s' \<and> untouched (live_map (sb_start s) K W) s s'
    \<and> cb_block_num (t_caches s' t c) < cb_block_num (t_caches s t c)"
proof -
  have inv: "heap_inv s n K W {}" and n: "0 < n" and tk: "\<And>i. K i \<noteq> SbTaken"
    using rep by (auto simp: rep_def)
  note geo = inv_geo[OF inv] and own = inv_own[OF inv]
  obtain l where l: "bin_list (mem s) (t_caches s t c) l" "set l = {a. W a = Cached t c}"
      "cb_block_num (t_caches s t c) = length l"
    using cache_list[OF inv c, of t] by auto
  obtain x xs where xs: "l = x # xs" using l(3) ne by (cases l) auto
  have hd: "cb_block (t_caches s t c) = x" and ch: "chain (mem s) (mem s x) xs"
    using l(1) xs by (auto simp: bin_list_def)
  obtain i where i: "K i = SbSmall c" "x \<in> blocks (sb_start s) K i"
    using free_block_small[OF own, of x t c] l(2) xs by auto
  let ?st = "sb_start s" and ?d = "dA (desc_start s) i"
  let ?sb = "sbA ?st i"
  let ?P = "\<lambda>p. \<not> (p < ?sb \<or> p \<ge> ?sb + SBSIZE)"
  define ys where "ys = x # takeWhile ?P xs"
  define zs where "zs = dropWhile ?P xs"
  have l_eq: "l = ys @ zs" using xs by (simp add: ys_def zs_def)
  have ysb: "set ys \<subseteq> blocks ?st K i"
  proof
    fix a assume a: "a \<in> set ys"
    show "a \<in> blocks ?st K i"
    proof (cases "a = x")
      case False
      then have P: "?P a" using a by (auto simp: ys_def dest: set_takeWhileD)
      have "W a = Cached t c" using a l(2) l_eq by auto
      then obtain j where j: "a \<in> blocks ?st K j" using owner_block[OF own, of a] by auto
      have "j = i" using blocks_range[OF geo j] P sb_index_unique[of ?st j a i] by auto
      with j show ?thesis by simp
    qed (use i in simp)
  qed
  note sd = small_desc[OF inv i(1)]
  have lk: "desc_lookup s x = ?d" using desc_lookup_block[OF geo i(2)] .
  have scan: "flush_scan (mem s) ?sb SBSIZE (cb_block_num (t_caches s t c) - 1) x 1 = (last ys, length ys)"
    using flush_scan_spec[OF ch, of ?sb SBSIZE 1] l(3) xs by (simp add: ys_def)
  have ne_ys: "ys \<noteq> []" by (simp add: ys_def)
  let ?A = "d_anchor (descs s ?d)"
  let ?idx = "(hd ys - ?sb) div bs_of c"
  let ?W = "\<lambda>a. if a \<in> set ys then InSb else W a"
  let ?m = "(mem s)(last ys := ?sb + avail ?A * bs_of c)"
  have hd_ys: "hd ys = x" by (simp add: ys_def)
  have "\<exists>cb A'. pop_list (t_caches s t c) (mem s (last ys)) (length ys) = Ret cb
    \<and> flush_anchor ?A ?idx (length ys) (bn_of c) = Ret A'
    \<and> (avail ?A < bn_of c \<or> state ?A = SB_FULL) \<and> avail A' < bn_of c \<and> count A' < bn_of c
    \<and> state A' \<noteq> SB_FULL
    \<and> heap_inv (upd_cache t c cb (upd_desc ?d (\<lambda>x. x\<lparr>d_anchor := A'\<rparr>) (s\<lparr>mem := ?m\<rparr>)))
         n K ?W (if state ?A = SB_FULL then insert i {} else {})
    \<and> bin_list ?m cb zs"
    by (rule inv_flush[OF inv i(1)]) (use l l_eq ne_ys ysb in simp_all)
  then obtain cb A' where fl: "pop_list (t_caches s t c) (mem s (last ys)) (length ys) = Ret cb"
      "flush_anchor ?A ?idx (length ys) (bn_of c) = Ret A'"
      "avail ?A < bn_of c \<or> state ?A = SB_FULL" "avail A' < bn_of c" "count A' < bn_of c" "state A' \<noteq> SB_FULL"
      "heap_inv (upd_cache t c cb (upd_desc ?d (\<lambda>x. x\<lparr>d_anchor := A'\<rparr>) (s\<lparr>mem := ?m\<rparr>)))
         n K ?W (if state ?A = SB_FULL then {i} else {})" "bin_list ?m cb zs"
    by blast
  let ?s3 = "upd_cache t c cb (upd_desc ?d (\<lambda>x. x\<lparr>d_anchor := A'\<rparr>) (s\<lparr>mem := ?m\<rparr>))"
  have ci: "compute_idx ?sb x c = Ret ?idx" using block_index(1)[OF geo i] hd_ys by simp
  have step: "flush_step s t c =
      (if state ?A = SB_FULL then
         (if state A' = SB_EMPTY then small_sb_retire ?s3 ?sb SBSIZE else heap_push_partial ?s3 ?d)
       else Ret ?s3)"
    using fl(1-5) scan ci lk sd(3,4) class_data(1)[OF c]
    by (simp add: flush_step_def Let_def hd upd_comm)
  have live: "live_map ?st K ?W = live_map ?st K W"
  proof (rule live_map_same[OF geo own])
    have "W a = Cached t c" if "a \<in> set ys" for a using that l(2) l_eq by auto
    then show "(?W a = Live) = (W a = Live)" for a by auto
  qed auto
  have base: "same_base s ?s3" "sb_start ?s3 = ?st" "desc_start ?s3 = desc_start s"
    by (simp_all add: same_base_def upd_cache_def upd_desc_def)
  have num: "cb_block_num (t_caches ?s3 t c) < cb_block_num (t_caches s t c)"
    using fl(8) l(3) l_eq ne_ys by (simp add: bin_list_def)
  have anc: "d_anchor (descs ?s3 ?d) = A'" by (simp add: upd_desc_def)
  have unt3: "untouched (live_map ?st K W) s ?s3"
  proof (rule untouchedI[OF geo own], rule disjI1)
    fix b assume "mem ?s3 b \<noteq> mem s b"
    then have "b = last ys" by (simp split: if_splits)
    then have "b \<in> set ys" using ne_ys by simp
    moreover from this have "W b = Cached t c" using l(2) l_eq by auto
    ultimately show "\<exists>k. b \<in> blocks ?st K k \<and> W b \<noteq> Live" using ysb by (intro exI[of _ i]) auto
  qed
  show ?thesis
  proof (cases "state ?A = SB_FULL")
    case False
    then have "flush_step s t c = Ret ?s3" using step by simp
    moreover have "rep ?s3 n K ?W" using fl(7) False n tk by (simp add: rep_def)
    ultimately show ?thesis using live base(1) num unt3 by (intro exI[of _ ?s3] exI[of _ K] exI[of _ ?W]) simp
  next
    case True
    then have inv3: "heap_inv ?s3 n K ?W {i}" using fl(7) by simp
    show ?thesis
    proof (cases "state A' = SB_EMPTY")
      case True
      from retire_ok[OF inv3 _ i(1), unfolded base] anc True obtain s4 W4 where
        r: "small_sb_retire ?s3 ?sb SBSIZE = Ret s4" "heap_inv s4 n (K(i := SbFree)) W4 {}"
          "live_map ?st (K(i := SbFree)) W4 = live_map ?st K ?W" "same_base ?s3 s4" "t_caches s4 = t_caches ?s3"
          "mem s4 = mem ?s3"
        by auto
      have "flush_step s t c = Ret s4" using step \<open>state ?A = SB_FULL\<close> True r(1) by simp
      moreover have "rep s4 n (K(i := SbFree)) W4" using r(2) n tk by (simp add: rep_def)
      moreover have "same_base s s4" using base(1) r(4) same_base_trans by blast
      moreover have "untouched (live_map ?st K W) s s4"
        using untouched_trans[OF unt3 untouched_eq[OF r(6)]] .
      ultimately show ?thesis using r(3,5) live num
        by (intro exI[of _ s4] exI[of _ "K(i := SbFree)"] exI[of _ W4]) simp
    next
      case False
      from inv_push_partial[OF inv3, of i, unfolded base] obtain s4 where
        r: "heap_push_partial ?s3 ?d = Ret s4" "heap_inv s4 n K ?W {}" by auto
      note fr = push_partial_frame[OF r(1)]
      have "flush_step s t c = Ret s4" using step \<open>state ?A = SB_FULL\<close> False r(1) by simp
      moreover have "rep s4 n K ?W" using r(2) n tk by (simp add: rep_def)
      moreover have "same_base s s4" using base(1) fr(1) same_base_trans by blast
      moreover have "untouched (live_map ?st K W) s s4"
        using untouched_trans[OF unt3 untouched_eq[OF fr(4)]] .
      ultimately show ?thesis using fr(2) live num
        by (intro exI[of _ s4] exI[of _ K] exI[of _ ?W]) simp
    qed
  qed
qed

lemma flush_loop_ok:
  assumes "rep s n K W" and "1 \<le> c" and "c < MAX_SZ_IDX"
    and "cb_block_num (t_caches s t c) \<le> k"
  shows "\<exists>s' K' W'. flush_loop k s t c = Ret s' \<and> rep s' n K' W'
    \<and> live_map (sb_start s) K' W' = live_map (sb_start s) K W
    \<and> same_base s s' \<and> untouched (live_map (sb_start s) K W) s s' \<and> cb_block_num (t_caches s' t c) = 0"
  using assms
proof (induction k arbitrary: s K W)
  case 0
  then show ?case by auto
next
  case (Suc k)
  show ?case
  proof (cases "cb_block_num (t_caches s t c) > 0")
    case False
    then show ?thesis using Suc.prems by auto
  next
    case True
    from flush_step_ok[OF Suc.prems(1-3) True] obtain s1 K1 W1 where
      a: "flush_step s t c = Ret s1" "rep s1 n K1 W1" "live_map (sb_start s) K1 W1 = live_map (sb_start s) K W"
        "same_base s s1" "cb_block_num (t_caches s1 t c) < cb_block_num (t_caches s t c)"
        "untouched (live_map (sb_start s) K W) s s1" by blast
    have st: "sb_start s1 = sb_start s" using a(4) by (simp add: same_base_def)
    have "cb_block_num (t_caches s1 t c) \<le> k" using a(5) Suc.prems(4) by simp
    from Suc.IH[OF a(2) Suc.prems(2,3) this] obtain s2 K2 W2 where
      b: "flush_loop k s1 t c = Ret s2" "rep s2 n K2 W2" "live_map (sb_start s) K2 W2 = live_map (sb_start s) K1 W1"
        "same_base s1 s2" "cb_block_num (t_caches s2 t c) = 0"
        "untouched (live_map (sb_start s) K1 W1) s1 s2" unfolding st by blast
    have "flush_loop (Suc k) s t c = Ret s2" using True a(1) b(1) by simp
    moreover have "untouched (live_map (sb_start s) K W) s s2"
      using untouched_trans[OF a(6)] b(6) a(3) by simp
    ultimately show ?thesis using a(3,4) b(2-5) same_base_trans by metis
  qed
qed

lemma flush_cache_ok:
  assumes "rep s n K W" and "1 \<le> c" and "c < MAX_SZ_IDX"
  shows "\<exists>s' K' W'. flush_cache s t c = Ret s' \<and> rep s' n K' W'
    \<and> live_map (sb_start s) K' W' = live_map (sb_start s) K W
    \<and> same_base s s' \<and> untouched (live_map (sb_start s) K W) s s' \<and> cb_block_num (t_caches s' t c) = 0"
  using flush_loop_ok[OF assms, of t "cb_block_num (t_caches s t c)"] by (simp add: flush_cache_def)

end
