(* ===== verification/HeapIface.thy ===== *)
theory HeapIface
  imports Prelude
begin

text \<open>
  What a client of a multi-threaded allocator relies on, as a locale. The abstract state is the
  map from live blocks to their sizes. A client is a sequence of operations of any threads in
  any order; it frees and writes only blocks it got and did not free. The lemmas of the locale
  say what holds for every client of every allocator that keeps the laws.
\<close>

text \<open>
  One run of a client: the state, the blocks it holds with the sizes it asked for, and the
  values it wrote and may expect to read back.
\<close>

datatype heap_op =
    OpMalloc nat nat
  | OpFree nat nat
  | OpExit nat
  | OpWrite nat nat

inductive client ::
  "('s \<Rightarrow> nat \<Rightarrow> nat \<Rightarrow> (nat \<times> 's) run) \<Rightarrow> ('s \<Rightarrow> nat \<Rightarrow> nat \<Rightarrow> 's run) \<Rightarrow> ('s \<Rightarrow> nat \<Rightarrow> 's run) \<Rightarrow>
   ('s \<Rightarrow> nat \<Rightarrow> nat \<Rightarrow> 's) \<Rightarrow> nat \<Rightarrow>
   's \<Rightarrow> (nat \<rightharpoonup> nat) \<Rightarrow> (nat \<rightharpoonup> nat) \<Rightarrow> heap_op list \<Rightarrow> 's \<Rightarrow> (nat \<rightharpoonup> nat) \<Rightarrow> (nat \<rightharpoonup> nat) \<Rightarrow> bool"
  for malloc free thread_exit wr limit where
  client_nil: "client malloc free thread_exit wr limit s C V [] s C V"
| client_malloc: "sz \<le> limit \<Longrightarrow> malloc s t sz = Ret (p, s1) \<Longrightarrow>
    client malloc free thread_exit wr limit s1 (C(p \<mapsto> sz)) V ops s' C' V' \<Longrightarrow>
    client malloc free thread_exit wr limit s C V (OpMalloc t sz # ops) s' C' V'"
| client_free: "C p = Some sz \<Longrightarrow> free s t p = Ret s1 \<Longrightarrow>
    client malloc free thread_exit wr limit s1 (C(p := None))
      (\<lambda>b. if p \<le> b \<and> b < p + sz then None else V b) ops s' C' V' \<Longrightarrow>
    client malloc free thread_exit wr limit s C V (OpFree t p # ops) s' C' V'"
| client_exit: "thread_exit s t = Ret s1 \<Longrightarrow>
    client malloc free thread_exit wr limit s1 C V ops s' C' V' \<Longrightarrow>
    client malloc free thread_exit wr limit s C V (OpExit t # ops) s' C' V'"
| client_write: "C p = Some sz \<Longrightarrow> p \<le> b \<Longrightarrow> b < p + sz \<Longrightarrow>
    client malloc free thread_exit wr limit (wr s b v) C (V(b \<mapsto> v)) ops s' C' V' \<Longrightarrow>
    client malloc free thread_exit wr limit s C V (OpWrite b v # ops) s' C' V'"

text \<open>What the client holds is covered by what the allocator considers live.\<close>

definition covered :: "(nat \<rightharpoonup> nat) \<Rightarrow> (nat \<rightharpoonup> nat) \<Rightarrow> bool" where
  "covered C L \<longleftrightarrow> (\<forall>a sz. C a = Some sz \<longrightarrow> (\<exists>x. L a = Some x \<and> sz \<le> x))"

definition readable :: "(nat \<rightharpoonup> nat) \<Rightarrow> (nat \<rightharpoonup> nat) \<Rightarrow> (nat \<Rightarrow> nat) \<Rightarrow> bool" where
  "readable C V m \<longleftrightarrow>
     (\<forall>b v. V b = Some v \<longrightarrow> m b = v \<and> (\<exists>a sz. C a = Some sz \<and> a \<le> b \<and> b < a + sz))"

definition apart :: "(nat \<rightharpoonup> nat) \<Rightarrow> bool" where
  "apart C \<longleftrightarrow>
     (\<forall>a x b y. C a = Some x \<longrightarrow> C b = Some y \<longrightarrow> a \<noteq> b \<longrightarrow> a + x \<le> b \<or> b + y \<le> a)"

lemma apart_covered: "apart L \<Longrightarrow> covered C L \<Longrightarrow> apart C"
  unfolding apart_def covered_def by (meson add_le_mono le_trans order_refl)

locale heap_interface =
  fixes ok :: "'s \<Rightarrow> (nat \<rightharpoonup> nat) \<Rightarrow> bool"
    and malloc :: "'s \<Rightarrow> nat \<Rightarrow> nat \<Rightarrow> (nat \<times> 's) run"
    and free :: "'s \<Rightarrow> nat \<Rightarrow> nat \<Rightarrow> 's run"
    and thread_exit :: "'s \<Rightarrow> nat \<Rightarrow> 's run"
    and wr :: "'s \<Rightarrow> nat \<Rightarrow> nat \<Rightarrow> 's"
    and content :: "'s \<Rightarrow> nat \<Rightarrow> nat"
    and limit :: nat
  assumes live_apart: "ok s L \<Longrightarrow> apart L"
    and malloc_law: "ok s L \<Longrightarrow> sz \<le> limit \<Longrightarrow> malloc s t sz = Ret (p, s') \<Longrightarrow>
      L p = None \<and> (\<exists>x. sz \<le> x \<and> ok s' (L(p \<mapsto> x))) \<and>
      (\<forall>a x b. L a = Some x \<longrightarrow> a \<le> b \<longrightarrow> b < a + x \<longrightarrow> content s' b = content s b)"
    and free_law: "ok s L \<Longrightarrow> L p = Some x \<Longrightarrow>
      \<exists>s'. free s t p = Ret s' \<and> ok s' (L(p := None)) \<and>
      (\<forall>a x b. (L(p := None)) a = Some x \<longrightarrow> a \<le> b \<longrightarrow> b < a + x \<longrightarrow> content s' b = content s b)"
    and exit_law: "ok s L \<Longrightarrow>
      \<exists>s'. thread_exit s t = Ret s' \<and> ok s' L \<and>
      (\<forall>a x b. L a = Some x \<longrightarrow> a \<le> b \<longrightarrow> b < a + x \<longrightarrow> content s' b = content s b)"
    and write_law: "ok s L \<Longrightarrow> L a = Some x \<Longrightarrow> a \<le> b \<Longrightarrow> b < a + x \<Longrightarrow>
      ok (wr s b v) L \<and> content (wr s b v) = (content s)(b := v)"
begin

lemma readable_keep:
  assumes r: "readable C V m" and c: "covered C L" and sub: "\<And>a sz. C' a = Some sz \<Longrightarrow> C a = Some sz"
    and V: "\<And>b v. V' b = Some v \<Longrightarrow> V b = Some v \<and> (\<exists>a sz. C' a = Some sz \<and> a \<le> b \<and> b < a + sz)"
    and keep: "\<And>a x b. C' a \<noteq> None \<Longrightarrow> L a = Some x \<Longrightarrow> a \<le> b \<Longrightarrow> b < a + x \<Longrightarrow> m' b = m b"
  shows "readable C' V' m'"
  unfolding readable_def
proof (intro allI impI)
  fix b v assume b: "V' b = Some v"
  then obtain a sz where a: "C' a = Some sz" "a \<le> b" "b < a + sz" "V b = Some v" using V by blast
  then obtain x where x: "L a = Some x" "sz \<le> x" using c sub unfolding covered_def by blast
  have "m' b = m b" using keep[of a x b] a x by simp
  moreover have "m b = v" using r a(4) unfolding readable_def by blast
  ultimately show "m' b = v \<and> (\<exists>a sz. C' a = Some sz \<and> a \<le> b \<and> b < a + sz)" using a by blast
qed

lemma readable_mono:
  "readable C V m \<Longrightarrow> (\<And>a sz. C a = Some sz \<Longrightarrow> C' a = Some sz) \<Longrightarrow> readable C' V m"
  unfolding readable_def by blast

lemma readable_same:
  assumes r: "readable C V m" and c: "covered C L"
    and keep: "\<And>a x b. L a = Some x \<Longrightarrow> a \<le> b \<Longrightarrow> b < a + x \<Longrightarrow> m' b = m b"
  shows "readable C V m'"
proof (rule readable_keep[OF r c])
  show "V b = Some v \<and> (\<exists>a sz. C a = Some sz \<and> a \<le> b \<and> b < a + sz)" if "V b = Some v" for b v
    using r that unfolding readable_def by blast
qed (use keep in auto)

theorem client_safe:
  assumes "client malloc free thread_exit wr limit s C V ops s' C' V'"
    and "ok s L" and "covered C L" and "readable C V (content s)"
  shows "\<exists>L'. ok s' L' \<and> covered C' L' \<and> apart C' \<and> readable C' V' (content s')"
  using assms
proof (induction arbitrary: L rule: client.induct)
  case (client_nil s C V)
  then show ?case using live_apart apart_covered by blast
next
  case (client_malloc sz s t p s1 C V ops s' C' V')
  from malloc_law[OF client_malloc.prems(1) client_malloc.hyps(1,2)] obtain x where
    x: "L p = None" "sz \<le> x" "ok s1 (L(p \<mapsto> x))"
      "\<And>a x b. L a = Some x \<Longrightarrow> a \<le> b \<Longrightarrow> b < a + x \<Longrightarrow> content s1 b = content s b" by blast
  have cov: "covered (C(p \<mapsto> sz)) (L(p \<mapsto> x))" using client_malloc.prems(2) x(2) by (auto simp: covered_def)
  have Cp: "C p = None" using client_malloc.prems(2) x(1) unfolding covered_def by (metis option.exhaust option.distinct(1))
  have "readable C V (content s1)"
    by (rule readable_same[OF client_malloc.prems(3,2) x(4)])
  then have "readable (C(p \<mapsto> sz)) V (content s1)"
    by (rule readable_mono) (use Cp in auto)
  from client_malloc.IH[OF x(3) cov this] show ?case .
next
  case (client_free C p sz s t s1 V ops s' C' V')
  obtain x where Lp: "L p = Some x" "sz \<le> x" using client_free.prems(2) client_free.hyps(1) by (auto simp: covered_def)
  from free_law[OF client_free.prems(1) Lp(1), of t] client_free.hyps(2) have
    f: "ok s1 (L(p := None))"
      "\<And>a x b. (L(p := None)) a = Some x \<Longrightarrow> a \<le> b \<Longrightarrow> b < a + x \<Longrightarrow> content s1 b = content s b" by auto
  have cov: "covered (C(p := None)) (L(p := None))" using client_free.prems(2) by (auto simp: covered_def)
  have "readable (C(p := None)) (\<lambda>b. if p \<le> b \<and> b < p + sz then None else V b) (content s1)"
  proof (rule readable_keep[OF client_free.prems(3,2)])
    show "V b = Some v \<and> (\<exists>a sz. (C(p := None)) a = Some sz \<and> a \<le> b \<and> b < a + sz)"
      if v: "(if p \<le> b \<and> b < p + sz then None else V b) = Some v" for b v
    proof -
      have nb: "\<not> (p \<le> b \<and> b < p + sz)" "V b = Some v" using v by (auto split: if_splits)
      then obtain a y where a: "C a = Some y" "a \<le> b" "b < a + y"
        using client_free.prems(3) unfolding readable_def by blast
      with nb(1) client_free.hyps(1) have "a \<noteq> p" by auto
      with a nb(2) show ?thesis by auto
    qed
    show "content s1 b = content s b"
      if "(C(p := None)) a \<noteq> None" "L a = Some x" "a \<le> b" "b < a + x" for a x b
      using f(2)[of a x b] that by (cases "a = p") auto
  qed (auto split: if_splits)
  from client_free.IH[OF f(1) cov this] show ?case .
next
  case (client_exit s t s1 C V ops s' C' V')
  from exit_law[OF client_exit.prems(1), of t] client_exit.hyps(1) have
    f: "ok s1 L" "\<And>a x b. L a = Some x \<Longrightarrow> a \<le> b \<Longrightarrow> b < a + x \<Longrightarrow> content s1 b = content s b" by auto
  have "readable C V (content s1)"
    by (rule readable_same[OF client_exit.prems(3,2) f(2)])
  from client_exit.IH[OF f(1) client_exit.prems(2) this] show ?case .
next
  case (client_write C p sz b s v V ops s' C' V')
  obtain x where Lp: "L p = Some x" "sz \<le> x" using client_write.prems(2) client_write.hyps(1) by (auto simp: covered_def)
  have w: "ok (wr s b v) L" "content (wr s b v) = (content s)(b := v)"
    using write_law[OF client_write.prems(1) Lp(1) client_write.hyps(2), of v] client_write.hyps(3) Lp(2) by auto
  have "readable C (V(b \<mapsto> v)) (content (wr s b v))"
    unfolding readable_def w(2)
  proof (intro allI impI)
    fix b' v' assume v': "(V(b \<mapsto> v)) b' = Some v'"
    show "((content s)(b := v)) b' = v' \<and> (\<exists>a sz. C a = Some sz \<and> a \<le> b' \<and> b' < a + sz)"
    proof (cases "b' = b")
      case True
      then show ?thesis using v' client_write.hyps(1-3) by auto
    next
      case False
      then show ?thesis using v' client_write.prems(3) unfolding readable_def by simp
    qed
  qed
  from client_write.IH[OF w(1) client_write.prems(2) this] show ?case .
qed

text \<open>No operation of such a client other than an allocation can fail.\<close>

theorem client_progress:
  assumes "ok s L" and "covered C L"
  shows "C p = Some sz \<Longrightarrow> \<exists>s'. free s t p = Ret s'" and "\<exists>s'. thread_exit s t = Ret s'"
proof -
  show "C p = Some sz \<Longrightarrow> \<exists>s'. free s t p = Ret s'"
    using assms free_law[of s L p _ t] unfolding covered_def by metis
  show "\<exists>s'. thread_exit s t = Ret s'" using exit_law[OF assms(1)] by blast
qed

end

end
