(* ===== verification/Allocator.thy ===== *)
theory Allocator
  imports AllocThms HeapIface
begin

text \<open>
  The entry points of the allocator against its contract: allocation, deallocation, thread
  exit and the constructor, the interpretation of the allocator interface, and the properties
  of the allocator.
\<close>

section \<open>Updates of the abstract state\<close>

lemma live_map_add:
  assumes geo: "geo s n K" and own: "own_ok st K W"
    and K: "\<And>i a. a \<in> blocks st K i \<Longrightarrow> W a = Live \<Longrightarrow> K' i = K i"
    and p: "usable st K' p = x"
  shows "live_map st K' (W(p := Live)) = (live_map st K W)(p \<mapsto> x)"
proof
  fix a
  show "live_map st K' (W(p := Live)) a = ((live_map st K W)(p \<mapsto> x)) a"
  proof (cases "a = p")
    case False
    have "live_map st K' W = live_map st K W" by (rule live_map_same[OF geo own]) (use K in auto)
    then have "live_map st K' W a = live_map st K W a" by simp
    then show ?thesis using False by (simp add: live_map_def)
  qed (use p in \<open>simp add: live_map_def\<close>)
qed

lemma live_map_remove:
  assumes "w \<noteq> Live" and geo: "geo s n K" and own: "own_ok st K W"
    and K: "\<And>i a. a \<in> blocks st K i \<Longrightarrow> W a = Live \<Longrightarrow> a \<noteq> p \<Longrightarrow> K' i = K i"
  shows "live_map st K' (W(p := w)) = (live_map st K W)(p := None)"
proof
  fix a
  show "live_map st K' (W(p := w)) a = ((live_map st K W)(p := None)) a"
  proof (cases "a = p")
    case False
    show ?thesis
    proof (cases "W a = Live")
      case True
      then obtain i where i: "a \<in> blocks st K i" using owner_block[OF own, of a] by auto
      have "usable st K' a = usable st K a" using block_sb[OF geo i] K[OF i True False] by (simp add: usable_def)
      then show ?thesis using False by (simp add: live_map_def)
    qed (use False in \<open>simp add: live_map_def\<close>)
  qed (use assms(1) in \<open>simp add: live_map_def\<close>)
qed

section \<open>Small blocks\<close>

lemma do_malloc_small_ok:
  assumes rep: "rep s n K W" and sz: "sz \<le> MAX_SZ"
  defines "L \<equiv> live_map (sb_start s) K W"
  shows "(\<exists>p s' n' K' W'. do_malloc s t sz = Ret (p, s') \<and> rep s' n' K' W' \<and> L p = None
      \<and> live_map (sb_start s) K' W' = L(p \<mapsto> bs_of (get_sizeclass sz))
      \<and> same_base s s' \<and> untouched L s s')
    \<or> do_malloc s t sz = Abort ''out of space in mmaped file'' \<and> no_room s SB_REGION_EXPAND_SIZE"
proof -
  let ?c = "get_sizeclass sz"
  have c: "1 \<le> ?c" "?c < MAX_SZ_IDX" using get_sizeclass_spec(1,2)[OF sz] .
  have take: "\<exists>p s' W'. bind_run (pop_block (mem s1) (t_caches s1 t ?c)) (\<lambda>(p, cache'). Ret (p, upd_cache t ?c cache' s1)) = Ret (p, s')
      \<and> rep s' n1 K1 W' \<and> L p = None \<and> live_map (sb_start s) K1 W' = L(p \<mapsto> bs_of ?c)
      \<and> same_base s s' \<and> untouched L s s'"
    if r1: "rep s1 n1 K1 W1" and ne: "cb_block_num (t_caches s1 t ?c) \<noteq> 0"
      and L1: "live_map (sb_start s) K1 W1 = L" and b: "same_base s s1" and u: "untouched L s s1" for s1 n1 K1 W1
  proof -
    have inv: "heap_inv s1 n1 K1 W1 {}" using r1 by (simp add: rep_def)
    have st: "sb_start s1 = sb_start s" using b by (simp add: same_base_def)
    from inv_pop_block[OF inv c ne] obtain p cb i where
      p: "pop_block (mem s1) (t_caches s1 t ?c) = Ret (p, cb)" "W1 p = Cached t ?c" "K1 i = SbSmall ?c"
        "p \<in> blocks (sb_start s1) K1 i" "heap_inv (upd_cache t ?c cb s1) n1 K1 (W1(p := Live)) {}" by blast
    have us: "usable (sb_start s1) K1 p = bs_of ?c" using usable_block[OF inv_geo[OF inv] p(4)] p(3) by simp
    have "live_map (sb_start s1) K1 (W1(p := Live)) = (live_map (sb_start s1) K1 W1)(p \<mapsto> bs_of ?c)"
      by (rule live_map_add[OF inv_geo[OF inv] inv_own[OF inv] _ us]) simp
    moreover have "live_map (sb_start s1) K1 W1 p = None" using p(2) by (simp add: live_map_def)
    moreover have "rep (upd_cache t ?c cb s1) n1 K1 (W1(p := Live))" using p(5) r1 by (simp add: rep_def)
    moreover have "same_base s (upd_cache t ?c cb s1)" using b same_base_trans upd_frame(1) by blast
    moreover have "untouched L s (upd_cache t ?c cb s1)"
      using u untouched_eq[of "upd_cache t ?c cb s1" s1 L] untouched_trans by simp
    ultimately show ?thesis using p(1) L1 st by auto
  qed
  show ?thesis
  proof (cases "cb_block_num (t_caches s t ?c) = 0")
    case False
    have e: "do_malloc s t sz = bind_run (pop_block (mem s) (t_caches s t ?c)) (\<lambda>(p, cache'). Ret (p, upd_cache t ?c cache' s))"
      using False sz by (simp add: do_malloc_def Let_def)
    show ?thesis unfolding e using take[OF rep False] by (auto simp: L_def)
  next
    case True
    from fill_cache_ok[OF rep c True] show ?thesis
    proof
      assume a: "fill_cache s t ?c = Abort ''out of space in mmaped file'' \<and> no_room s SB_REGION_EXPAND_SIZE"
      then show ?thesis using True sz by (simp add: do_malloc_def Let_def)
    next
      assume "\<exists>s' n' K' W'. fill_cache s t ?c = Ret s' \<and> rep s' n' K' W'
        \<and> live_map (sb_start s) K' W' = live_map (sb_start s) K W
        \<and> same_base s s' \<and> untouched (live_map (sb_start s) K W) s s' \<and> cb_block_num (t_caches s' t ?c) \<noteq> 0"
      then obtain s1 n1 K1 W1 where f: "fill_cache s t ?c = Ret s1" "rep s1 n1 K1 W1"
          "live_map (sb_start s) K1 W1 = L" "same_base s s1" "untouched L s s1" "cb_block_num (t_caches s1 t ?c) \<noteq> 0"
        unfolding L_def by blast
      have e: "do_malloc s t sz = bind_run (pop_block (mem s1) (t_caches s1 t ?c)) (\<lambda>(p, cache'). Ret (p, upd_cache t ?c cache' s1))"
        using True sz f(1) by (simp add: do_malloc_def Let_def)
      show ?thesis unfolding e using take[OF f(2,6,3,4,5)] by blast
    qed
  qed
qed

lemma free_range:
  assumes inv: "heap_inv s n K W X" and a: "a \<in> blocks (sb_start s) K i"
  shows "in_range_sb s a" and "a \<noteq> 0"
proof -
  have "K i \<noteq> Unmapped" using a by (auto simp: blocks_def)
  then have i: "i < n" using inv_geo[OF inv] unfolding geo_def by (meson not_le)
  have "sbA (sb_start s) i \<le> a" "a < sbA (sb_start s) i + SBSIZE" using blocks_range[OF inv_geo[OF inv] a] .
  moreover have "sbA (sb_start s) i + SBSIZE \<le> sb_start s + n * SBSIZE"
  proof -
    have "(i + 1) * SBSIZE \<le> n * SBSIZE" using i by (intro mult_le_mono1) simp
    then show ?thesis by (simp add: sbA_def algebra_simps)
  qed
  ultimately show "in_range_sb s a" "a \<noteq> 0"
    using inv_geo[OF inv] by (auto simp: in_range_sb_def geo_def sbA_def)
qed

lemma do_free_small_ok:
  assumes rep: "rep s n K W" and Wp: "W p = Live" and Ki: "K i = SbSmall c"
    and p: "p \<in> blocks (sb_start s) K i"
  defines "L \<equiv> live_map (sb_start s) K W"
  shows "\<exists>s' K' W'. do_free s t p = Ret s' \<and> rep s' n K' W'
    \<and> live_map (sb_start s) K' W' = L(p := None) \<and> same_base s s' \<and> untouched (L(p := None)) s s'"
proof -
  have inv: "heap_inv s n K W {}" using rep by (simp add: rep_def)
  note sd = small_desc[OF inv Ki]
  note c = sd(6,7)
  have lk: "desc_lookup s p = dA (desc_start s) i" by (rule desc_lookup_block[OF inv_geo[OF inv] p])
  have push: "\<exists>m' cb W'. push_block (mem s1) (t_caches s1 t c) p = (m', cb)
      \<and> rep (upd_cache t c cb (s1\<lparr>mem := m'\<rparr>)) n K1 W'
      \<and> live_map (sb_start s) K1 W' = L(p := None)
      \<and> same_base s (upd_cache t c cb (s1\<lparr>mem := m'\<rparr>))
      \<and> untouched (L(p := None)) s (upd_cache t c cb (s1\<lparr>mem := m'\<rparr>))"
    if r1: "rep s1 n K1 W1" and L1: "live_map (sb_start s) K1 W1 = L" and b: "same_base s s1"
      and u: "untouched L s s1" and room: "cb_block_num (t_caches s1 t c) < bn_of c" for s1 K1 W1
  proof -
    have inv1: "heap_inv s1 n K1 W1 {}" using r1 by (simp add: rep_def)
    have st: "sb_start s1 = sb_start s" using b by (simp add: same_base_def)
    have "L p = Some (bs_of c)" using Wp usable_block[OF inv_geo[OF inv] p] Ki by (simp add: L_def live_map_def)
    then have Lp: "live_map (sb_start s) K1 W1 p = Some (bs_of c)" using L1 by simp
    then have Wp1: "W1 p = Live" and up: "usable (sb_start s) K1 p = bs_of c"
      by (auto simp: live_map_def split: if_splits)
    have idx: "(p - sb_start s) div SBSIZE = i" by (rule block_sb[OF inv_geo[OF inv] p])
    obtain j where j: "p \<in> blocks (sb_start s1) K1 j"
      using owner_block[OF inv_own[OF inv1], of p] Wp1 by auto
    have "j = i" using block_sb[OF inv_geo[OF inv1] j] idx st by simp
    with j have p1: "p \<in> blocks (sb_start s1) K1 i" by simp
    have K1i: "K1 i = SbSmall c"
    proof (cases "K1 i")
      case (SbSmall c')
      then have "bs_of c' = bs_of c" using up idx by (simp add: usable_def)
      moreover have "c' < MAX_SZ_IDX" using geo_class[OF inv_geo[OF inv1] SbSmall] by simp
      ultimately have "c' = c" using bs_of_mono[of c c'] bs_of_mono[of c' c] c(2)
        by (metis linorder_neqE_nat less_irrefl)
      then show ?thesis using SbSmall by simp
    next
      case (SbLarge m)
      then have "m * SBSIZE = bs_of c" "0 < m" using up idx large_desc(4)[OF inv1 SbLarge] by (simp_all add: usable_def)
      moreover have "bs_of c < SBSIZE" using bs_of_facts(3)[OF c] by (simp add: MAX_SZ_val SBSIZE_eq)
      ultimately show ?thesis by (cases m) auto
    qed (use p1 in \<open>auto simp: blocks_def\<close>)
    from inv_push_block[OF inv1 K1i p1 Wp1 room] obtain m' cb where
      m: "push_block (mem s1) (t_caches s1 t c) p = (m', cb)"
        "heap_inv (upd_cache t c cb (s1\<lparr>mem := m'\<rparr>)) n K1 (W1(p := Cached t c)) {}" by blast
    have "live_map (sb_start s1) K1 (W1(p := Cached t c)) = (live_map (sb_start s1) K1 W1)(p := None)"
      by (rule live_map_remove[OF _ inv_geo[OF inv1] inv_own[OF inv1]]) simp_all
    then have l: "live_map (sb_start s) K1 (W1(p := Cached t c)) = L(p := None)" using L1 st by simp
    have "untouched (L(p := None)) s1 (upd_cache t c cb (s1\<lparr>mem := m'\<rparr>))"
      unfolding l[symmetric] st[symmetric]
    proof (rule untouchedI[OF inv_geo[OF inv1]])
      show "own_ok (sb_start s1) K1 (W1(p := Cached t c))" using inv_own[OF m(2)] by simp
      fix b assume "mem (upd_cache t c cb (s1\<lparr>mem := m'\<rparr>)) b \<noteq> mem s1 b"
      then have "b = p" using m(1) by (auto simp: push_block_def split: if_splits)
      then show "(\<exists>k. b \<in> blocks (sb_start s1) K1 k \<and> (W1(p := Cached t c)) b \<noteq> Live) \<or>
        (\<exists>k. sbA (sb_start s1) k \<le> b \<and> b < sbA (sb_start s1) k + SBSIZE \<and>
          blocks (sb_start s1) K1 k = {} \<and> K1 k \<noteq> SbTail)" using p1 by auto
    qed
    then have "untouched (L(p := None)) s (upd_cache t c cb (s1\<lparr>mem := m'\<rparr>))"
      using u unfolding untouched_def by auto
    moreover have "same_base s (upd_cache t c cb (s1\<lparr>mem := m'\<rparr>))"
      using b by (simp add: same_base_def upd_cache_def)
    moreover have "rep (upd_cache t c cb (s1\<lparr>mem := m'\<rparr>)) n K1 (W1(p := Cached t c))"
      using m(2) r1 by (simp add: rep_def)
    ultimately show ?thesis using m(1) l by blast
  qed
  have run: "do_free s t p =
      bind_run (if cb_block_num (t_caches s t c) \<ge> cache_block_num (get_sizeclass_by_idx c)
                then flush_cache s t c else Ret s) (\<lambda>s1.
      case push_block (mem s1) (t_caches s1 t c) p of
        (m', cache') \<Rightarrow> Ret (upd_cache t c cache' (s1\<lparr>mem := m'\<rparr>)))"
    using free_range[OF inv p] lk sd(1) c(1) by (simp add: do_free_def Let_def)
  note cbn = class_data(2,3)[OF c]
  show ?thesis
  proof (cases "cb_block_num (t_caches s t c) \<ge> cache_block_num (get_sizeclass_by_idx c)")
    case False
    then have "cb_block_num (t_caches s t c) < bn_of c" using cbn by simp
    from push[OF rep _ _ _ this] obtain m' cb W' where
      "push_block (mem s) (t_caches s t c) p = (m', cb)" "rep (upd_cache t c cb (s\<lparr>mem := m'\<rparr>)) n K W'"
      "live_map (sb_start s) K W' = L(p := None)" "same_base s (upd_cache t c cb (s\<lparr>mem := m'\<rparr>))"
      "untouched (L(p := None)) s (upd_cache t c cb (s\<lparr>mem := m'\<rparr>))" by (auto simp: L_def)
    then show ?thesis using run False by auto
  next
    case True
    from flush_cache_ok[OF rep c, of t] obtain s1 K1 W1 where
      f: "flush_cache s t c = Ret s1" "rep s1 n K1 W1" "live_map (sb_start s) K1 W1 = L"
        "same_base s s1" "untouched L s s1" "cb_block_num (t_caches s1 t c) = 0"
      unfolding L_def by blast
    have "cb_block_num (t_caches s1 t c) < bn_of c" using f(6) class_pos(2)[OF c] by simp
    from push[OF f(2-5) this] obtain m' cb W' where
      "push_block (mem s1) (t_caches s1 t c) p = (m', cb)" "rep (upd_cache t c cb (s1\<lparr>mem := m'\<rparr>)) n K1 W'"
      "live_map (sb_start s) K1 W' = L(p := None)" "same_base s (upd_cache t c cb (s1\<lparr>mem := m'\<rparr>))"
      "untouched (L(p := None)) s (upd_cache t c cb (s1\<lparr>mem := m'\<rparr>))" by blast
    then show ?thesis using run True f(1) by auto
  qed
qed

section \<open>Large blocks\<close>

lemma clear_low_bits:
  assumes "k < 64"
  shows "unat ((a :: u64) AND NOT (2 ^ k - 1)) = unat a div 2 ^ k * 2 ^ k"
proof -
  have "a AND NOT (2 ^ k - 1) = push_bit k (drop_bit k a)"
    by (rule bit_word_eqI) (auto simp: bit_simps mask_eq_exp_minus_1[symmetric])
  also have "\<dots> = a - take_bit k a" using bits_ident[of k a] by (metis add_diff_cancel_right')
  finally have e: "a AND NOT (2 ^ k - 1) = a - take_bit k a" .
  have t: "unat (take_bit k a) = unat a mod 2 ^ k"
    by (simp only: unsigned_take_bit_eq take_bit_eq_mod[where 'a = nat])
  have "unat a mod 2 ^ k \<le> unat a" by simp
  then have "take_bit k a \<le> a" unfolding word_le_nat_alt t .
  then have "unat (a - take_bit k a) = unat a - unat a mod 2 ^ k" by (simp only: unat_diff_word t)
  then show ?thesis unfolding e by (simp add: minus_mod_eq_div_mult)
qed

lemma round_up_eq:
  assumes "sz < 2 ^ 63"
  shows "round_up sz SBSIZE = (sz + (SBSIZE - 1)) div SBSIZE * SBSIZE"
proof -
  have w: "word_of_nat sz + word_of_nat SBSIZE - 1 = (word_of_nat (sz + (SBSIZE - 1)) :: u64)"
    by (simp add: SBSIZE_eq algebra_simps)
  have s: "(word_of_nat SBSIZE :: u64) = 2 ^ 16" by (simp add: SBSIZE_eq)
  have u: "unat (word_of_nat (sz + (SBSIZE - 1)) :: u64) = sz + (SBSIZE - 1)"
    using assms by (intro unat_word_of_nat) (simp add: SBSIZE_eq)
  have p: "SBSIZE = 2 ^ 16" by (simp add: SBSIZE_eq)
  show ?thesis unfolding round_up_def w unfolding s
    using clear_low_bits[of 16 "word_of_nat (sz + (SBSIZE - 1))"] unfolding u by (simp add: p)
qed

definition MAX_LARGE :: nat where "MAX_LARGE = 2 ^ 32 - SBSIZE"

lemma do_malloc_large_ok:
  assumes rep: "rep s n K W" and sz: "MAX_SZ < sz" "sz \<le> MAX_LARGE"
  defines "L \<equiv> live_map (sb_start s) K W"
  defines "m \<equiv> (sz + (SBSIZE - 1)) div SBSIZE"
  shows "(\<exists>p s' n' K' W'. do_malloc s t sz = Ret (p, s') \<and> rep s' n' K' W' \<and> L p = None
      \<and> live_map (sb_start s) K' W' = L(p \<mapsto> m * SBSIZE) \<and> sz \<le> m * SBSIZE
      \<and> same_base s s' \<and> untouched L s s')
    \<or> do_malloc s t sz = Abort ''space runs out!'' \<and> no_room s (m * SBSIZE)"
proof -
  have inv: "heap_inv s n K W {}" and n: "0 < n" and tk: "\<And>i. K i \<noteq> SbTaken"
    using rep by (auto simp: rep_def)
  note geo = inv_geo[OF inv]
  have ok: "region_ok (sb_region s)" and e: "unat (rm_curr_addr (sb_region s)) = sb_start s + n * SBSIZE"
    and dv: "SBSIZE dvd sb_start s" and st0: "0 < sb_start s" using geo by (simp_all add: geo_def)
  have szs: "sz + (SBSIZE - 1) < 2 ^ 32" "14336 < sz"
    using sz by (simp_all add: MAX_LARGE_def SBSIZE_eq MAX_SZ_val)
  have m: "0 < m" "m < 65536" "m * SBSIZE < 2 ^ 32" "sz \<le> m * SBSIZE"
  proof -
    let ?q = "sz + (SBSIZE - 1)"
    have d: "m * SBSIZE + ?q mod SBSIZE = ?q" "?q mod SBSIZE < SBSIZE"
      unfolding m_def by (simp_all add: div_mult_mod_eq)
    then show "m * SBSIZE < 2 ^ 32" "sz \<le> m * SBSIZE" using szs by (simp_all add: SBSIZE_eq)
    then show "0 < m" "m < 65536" using szs by (simp_all add: SBSIZE_eq)
  qed
  have ru: "round_up sz SBSIZE = m * SBSIZE" using szs by (simp add: round_up_eq m_def)
  let ?sz = "word_of_nat (m * SBSIZE) :: u64"
  have usz: "unat ?sz = m * SBSIZE" using m(3) by (intro unat_word_of_nat) simp
  have lt: "unat ?sz < 2 ^ 63" unfolding usz using m(3) by simp
  have ne: "?sz \<noteq> 0"
  proof
    assume "?sz = 0"
    then have "unat ?sz = 0" by simp
    then show False unfolding usz using m(1) by (simp add: SBSIZE_eq)
  qed
  note spec = nvm_region_allocator_spec[OF ok _ _ ne lt, of 12, unfolded page_aligned_end[OF geo] usz]
  let ?r = "sb_region s"
  show ?thesis
  proof (cases "sb_start s + n * SBSIZE + m * SBSIZE \<le> unat (base_addr ?r) + unat (FILESIZE ?r)")
    case False
    then have "nvm_region_allocator ?r ?r (2 ^ 12) ?sz = (-1, None, ?r)" using spec by simp
    then have "expand_get_large_sb s (m * SBSIZE) = Abort ''space runs out!''"
      unfolding expand_get_large_sb_def page_shift by simp
    then have "do_malloc s t sz = Abort ''space runs out!''"
      using sz(1) ru by (simp add: do_malloc_def do_malloc_large_def alloc_large_block_def large_sb_alloc_def)
    then show ?thesis using False e by (simp add: no_room_def)
  next
    case True
    then obtain r p where r: "nvm_region_allocator ?r ?r (2 ^ 12) ?sz = (1, Some p, r)" "region_ok r"
        "unat p = sb_start s + n * SBSIZE" "unat (rm_curr_addr r) = sb_start s + n * SBSIZE + m * SBSIZE"
      using spec by auto
    let ?p = "sbA (sb_start s) n" and ?d = "dA (desc_start s) n"
    have p: "unat p = ?p" using r(3) by (simp add: sbA_def)
    let ?s1 = "s\<lparr>sb_region := r\<rparr>"
    let ?K1 = "\<lambda>i. if n \<le> i \<and> i < n + m then SbTaken else K i"
    have inv1: "heap_inv ?s1 (n + m) ?K1 W {}"
      using r(2,4) by (intro inv_grow[OF inv n]) (simp_all add: algebra_simps)
    have K1n: "?K1 n = SbTaken" using m(1) by simp
    have lk1: "desc_lookup ?s1 ?p = ?d" using desc_lookup_sbA[of ?s1 n] dv by simp
    let ?f = "\<lambda>x::Descriptor. x\<lparr>d_heap := Some 0, d_block_size := m * SBSIZE mod 2 ^ 32, d_maxcount := 1,
        d_superblock := ?p, d_anchor := \<lparr>avail = 0, count = 0, state = SB_FULL\<rparr>\<rparr>"
    let ?s2 = "upd_desc ?d (\<lambda>_. Descriptor_init) ?s1"
    let ?s3 = "upd_desc ?d ?f ?s2"
    have inv2: "heap_inv ?s2 (n + m) ?K1 W {}" using inv_upd_desc_taken[OF inv1 K1n] by simp
    have inv3: "heap_inv ?s3 (n + m) ?K1 W {}" using inv_upd_desc_taken[OF inv2 K1n, of ?f] by simp
    let ?K2 = "\<lambda>j. if j = n then SbLarge m else if n < j \<and> j < n + m then SbTail else ?K1 j"
    let ?W2 = "W(sbA (sb_start ?s3) n := Live)"
    have inv4: "heap_inv ?s3 (n + m) ?K2 ?W2 {}"
      by (rule inv_new_large[OF inv3 m(1,2)]) (use m(3) in \<open>simp_all add: upd_desc_def\<close>)
    have lk2: "desc_lookup ?s2 ?p = ?d" using desc_lookup_sbA[of ?s2 n] dv by (simp add: upd_desc_def)
    have ex: "expand_get_large_sb s (m * SBSIZE) = Ret (?p, ?s2)"
      unfolding expand_get_large_sb_def page_shift r(1) using p lk1 by simp
    have run: "do_malloc s t sz = Ret (?p, ?s3)"
      using sz(1) ru ex lk2 st0
      by (simp add: do_malloc_def do_malloc_large_def alloc_large_block_def large_sb_alloc_def sbA_def)
    have Kn: "K j = Unmapped" if "n \<le> j" for j using geo that unfolding geo_def by blast
    have us: "usable (sb_start s) ?K2 ?p = m * SBSIZE" by (simp add: usable_def sbA_def)
    have live: "live_map (sb_start s) ?K2 (W(?p := Live)) = L(?p \<mapsto> m * SBSIZE)" unfolding L_def
    proof (rule live_map_add[OF geo inv_own[OF inv] _ us])
      fix i a assume "a \<in> blocks (sb_start s) K i"
      then have "\<not> n \<le> i" using Kn[of i] by (auto simp: blocks_def)
      then show "?K2 i = K i" by simp
    qed
    have "blocks (sb_start s) K n = {}" using Kn[of n] by (simp add: blocks_def)
    then have "W ?p = NoBlock" using no_block_in[OF inv, of n ?p] by simp
    then have "L ?p = None" by (simp add: L_def live_map_def)
    moreover have "rep ?s3 (n + m) ?K2 (W(?p := Live))" using inv4 n tk by (simp add: rep_def)
    moreover have "same_base s ?s3" by (simp add: same_base_def upd_desc_def)
    moreover have "untouched L s ?s3" by (rule untouched_eq) simp
    ultimately show ?thesis using run live m(4) by (intro disjI1) blast
  qed
qed

lemma do_free_large_ok:
  assumes rep: "rep s n K W" and Ki: "K i = SbLarge m"
  defines "L \<equiv> live_map (sb_start s) K W" and "p \<equiv> sbA (sb_start s) i"
  shows "\<exists>s' K' W'. do_free s t p = Ret s' \<and> rep s' n K' W'
    \<and> live_map (sb_start s) K' W' = L(p := None) \<and> same_base s s' \<and> untouched (L(p := None)) s s'"
proof -
  have inv: "heap_inv s n K W {}" and n: "0 < n" and tk: "\<And>i. K i \<noteq> SbTaken"
    using rep by (auto simp: rep_def)
  note ld = large_desc[OF inv Ki]
  have p: "p \<in> blocks (sb_start s) K i" using Ki by (simp add: blocks_def p_def)
  have lk: "desc_lookup s p = dA (desc_start s) i" by (rule desc_lookup_block[OF inv_geo[OF inv] p])
  let ?K1 = "\<lambda>j. if i \<le> j \<and> j < i + m then SbTaken else K j"
  let ?W1 = "W(p := NoBlock)"
  have inv1: "heap_inv s n ?K1 ?W1 {}" unfolding p_def by (rule inv_take_large[OF inv Ki])
  let ?K2 = "\<lambda>j. if i \<le> j \<and> j < i + m then SbFree else ?K1 j"
  let ?s = "organize_sb_list s p m"
  have inv2: "heap_inv ?s n ?K2 ?W1 {}" unfolding p_def
    by (rule inv_organize[OF inv1[unfolded p_def] ld(4)]) simp
  have run: "do_free s t p = Ret ?s"
    using free_range[OF inv p] lk ld by (simp add: do_free_def Let_def large_sb_retire_def p_def)
  have "rep ?s n ?K2 ?W1" using inv2 n tk by (simp add: rep_def)
  moreover have "live_map (sb_start s) ?K2 ?W1 = L(p := None)" unfolding L_def
  proof (rule live_map_remove[OF _ inv_geo[OF inv] inv_own[OF inv]])
    fix j a assume a: "a \<in> blocks (sb_start s) K j" "W a = Live" "a \<noteq> p"
    have "\<not> (i \<le> j \<and> j < i + m)"
    proof
      assume j: "i \<le> j \<and> j < i + m"
      show False
      proof (cases "j = i")
        case True
        then show False using a Ki by (simp add: blocks_def p_def)
      next
        case False
        then have "K (i + (j - i)) = SbTail" using j by (intro ld(6)) auto
        then show False using a(1) j by (simp add: blocks_def)
      qed
    qed
    then show "?K2 j = K j" by auto
  qed simp
  moreover have "untouched (L(p := None)) s ?s" by (rule untouched_eq) (rule organize_frame)
  ultimately show ?thesis using run organize_frame(1) by blast
qed

section \<open>Thread exit\<close>

lemma small_sb_retire_frame:
  "small_sb_retire s sb z = Ret s' \<Longrightarrow> t_caches s' = t_caches s"
  by (auto simp: small_sb_retire_def run_simps upd_desc_def Let_def)

lemma flush_step_frame:
  assumes "flush_step s t c = Ret s'" and "t' \<noteq> t \<or> c' \<noteq> c"
  shows "t_caches s' t' c' = t_caches s t' c'"
proof -
  have "\<exists>cb. t_caches s' = t_caches (upd_cache t c cb s)"
    using assms(1) unfolding flush_step_def Let_def
    by (auto simp: run_simps dest!: small_sb_retire_frame push_partial_frame(2)
        split: prod.splits if_splits)
  then show ?thesis using assms(2) by (auto simp: upd_cache_def)
qed

lemma flush_loop_frame:
  "flush_loop k s t c = Ret s' \<Longrightarrow> t' \<noteq> t \<or> c' \<noteq> c \<Longrightarrow> t_caches s' t' c' = t_caches s t' c'"
proof (induction k arbitrary: s)
  case 0
  then show ?case by (auto split: if_splits)
next
  case (Suc k)
  show ?case
  proof (cases "cb_block_num (t_caches s t c) > 0")
    case True
    then obtain s1 where "flush_step s t c = Ret s1" "flush_loop k s1 t c = Ret s'"
      using Suc.prems(1) by (auto simp: run_simps)
    then show ?thesis using Suc.IH[of s1] Suc.prems(2) flush_step_frame[of s t c s1 t' c'] by simp
  qed (use Suc.prems in simp)
qed

lemma flush_classes_ok:
  assumes "rep s n K W" and "\<forall>c \<in> set cs. 1 \<le> c \<and> c < MAX_SZ_IDX" and "distinct cs"
  shows "\<exists>s' K' W'. flush_classes cs s t = Ret s' \<and> rep s' n K' W'
    \<and> live_map (sb_start s) K' W' = live_map (sb_start s) K W
    \<and> same_base s s' \<and> untouched (live_map (sb_start s) K W) s s'
    \<and> (\<forall>c \<in> set cs. cb_block_num (t_caches s' t c) = 0)
    \<and> (\<forall>c. c \<notin> set cs \<longrightarrow> t_caches s' t c = t_caches s t c)"
  using assms
proof (induction cs arbitrary: s K W)
  case Nil
  then show ?case by auto
next
  case (Cons c cs)
  have c: "1 \<le> c" "c < MAX_SZ_IDX" using Cons.prems(2) by auto
  from flush_cache_ok[OF Cons.prems(1) c, of t] obtain s1 K1 W1 where
    a: "flush_cache s t c = Ret s1" "rep s1 n K1 W1" "live_map (sb_start s) K1 W1 = live_map (sb_start s) K W"
      "same_base s s1" "untouched (live_map (sb_start s) K W) s s1" "cb_block_num (t_caches s1 t c) = 0" by blast
  have st: "sb_start s1 = sb_start s" using a(4) by (simp add: same_base_def)
  have cs: "\<forall>c \<in> set cs. 1 \<le> c \<and> c < MAX_SZ_IDX" "distinct cs" "c \<notin> set cs" using Cons.prems by auto
  from Cons.IH[OF a(2) cs(1,2)] obtain s2 K2 W2 where
    b: "flush_classes cs s1 t = Ret s2" "rep s2 n K2 W2" "live_map (sb_start s) K2 W2 = live_map (sb_start s) K1 W1"
      "same_base s1 s2" "untouched (live_map (sb_start s) K1 W1) s1 s2"
      "\<forall>c \<in> set cs. cb_block_num (t_caches s2 t c) = 0" "\<And>c. c \<notin> set cs \<Longrightarrow> t_caches s2 t c = t_caches s1 t c"
    unfolding st by blast
  have fr: "t_caches s1 t c' = t_caches s t c'" if "c' \<noteq> c" for c'
    using a(1) that unfolding flush_cache_def by (intro flush_loop_frame) auto
  have "flush_classes (c # cs) s t = Ret s2" using a(1) b(1) by simp
  moreover have "untouched (live_map (sb_start s) K W) s s2"
    using untouched_trans[OF a(5)] b(5) a(3) by simp
  moreover have "same_base s s2" using a(4) b(4) same_base_trans by blast
  moreover have "\<forall>c' \<in> set (c # cs). cb_block_num (t_caches s2 t c') = 0"
    using b(6,7) a(6) cs(3) by simp
  moreover have "\<forall>c'. c' \<notin> set (c # cs) \<longrightarrow> t_caches s2 t c' = t_caches s t c'" using b(7) fr by simp
  ultimately show ?case using b(2,3) a(3) by (intro exI[of _ s2] exI[of _ K2] exI[of _ W2]) simp
qed

section \<open>The constructor\<close>

lemma empty_inv:
  assumes r: "region_ok r" "unat (rm_curr_addr r) = st + n * SBSIZE"
    and st: "0 < st" "SBSIZE dvd st" and d: "0 < dstart" "DESCSIZE dvd dstart" and n: "0 < n"
  shows "heap_inv \<lparr>sb_region = r, sb_start = st, desc_start = dstart, descs = ds, mem = m,
      avail_sb = \<lparr>h_ptr = 0, h_cnt = 0\<rparr>, partial_list = (\<lambda>_. \<lparr>h_ptr = 0, h_cnt = 0\<rparr>), roots = rs,
      t_caches = (\<lambda>_ _. TCacheBin_init)\<rparr> n
    (\<lambda>i. if 1 \<le> i \<and> i < n then SbTaken else Unmapped) (\<lambda>_. NoBlock) {}"
    (is "heap_inv ?s n ?K ?W {}")
proof (rule heap_invI)
  show "geo ?s n ?K" using assms by (auto simp: geo_def)
  have bl: "blocks st ?K i = {}" for i by (simp add: blocks_def)
  then show "own_ok (sb_start ?s) ?K ?W" by (auto simp: own_ok_def)
  show "free_ok ?s ?K" by (auto simp: free_ok_def intro!: exI[of _ "[]"])
  show "part_ok ?s ?K {} c" for c by (auto simp: part_ok_def nonfull_def intro!: exI[of _ "[]"])
  show "desc_ok ?s ?K ?W i" for i by (intro desc_ok_unused) auto
  show "cache_ok ?s ?W t c" if "1 \<le> c" "c < MAX_SZ_IDX" for t c
    using bin_list_init[of m] by (auto simp: cache_ok_def TCacheBin_init_def intro!: exI[of _ "[]"])
qed simp

lemma init_ok:
  assumes ok: "region_ok r" and d: "0 < dstart" "DESCSIZE dvd dstart"
    and room: "align_up (unat (rm_curr_addr r)) SBSIZE + SB_REGION_EXPAND_SIZE
      \<le> unat (base_addr r) + unat (FILESIZE r)"
  shows "\<exists>s K W. BaseMeta_init r dstart ds m = Ret s \<and> rep s 16384 K W \<and> live_map (sb_start s) K W = Map.empty
    \<and> sb_start s = align_up (unat (rm_curr_addr r)) SBSIZE
    \<and> fetch_heap_start (sb_region s) = word_of_nat (sb_start s)
    \<and> base_addr (sb_region s) = base_addr r \<and> FILESIZE (sb_region s) = FILESIZE r
    \<and> unat (rm_curr_addr (sb_region s)) = sb_start s + SB_REGION_EXPAND_SIZE"
proof -
  let ?sz = "word_of_nat SB_REGION_EXPAND_SIZE :: u64"
  have usz: "unat ?sz = SB_REGION_EXPAND_SIZE" by (rule unat_word_of_nat) (simp add: SB_REGION_EXPAND_SIZE_def)
  have lt: "unat ?sz < 2 ^ 63" unfolding usz by (simp add: SB_REGION_EXPAND_SIZE_def)
  have ne: "?sz \<noteq> 0"
  proof
    assume "?sz = 0"
    then have "unat ?sz = 0" by simp
    then show False unfolding usz by (simp add: SB_REGION_EXPAND_SIZE_def)
  qed
  have sb: "(word_of_nat SBSIZE :: u64) = 2 ^ 16" "(2::nat) ^ 16 = SBSIZE" by (simp_all add: SBSIZE_eq)
  note spec = nvm_region_allocator_spec[OF ok _ _ ne lt, of 16, unfolded usz sb(2)]
  let ?st = "align_up (unat (rm_curr_addr r)) SBSIZE"
  obtain r1 p where r1: "nvm_region_allocator r r (2 ^ 16) ?sz = (1, Some p, r1)" "region_ok r1"
      "unat p = ?st" "unat (rm_curr_addr r1) = ?st + SB_REGION_EXPAND_SIZE"
      "base_addr r1 = base_addr r" "FILESIZE r1 = FILESIZE r"
    using spec room by auto
  let ?r2 = "store_heap_start r1 p"
  have curr: "rm_curr_addr ?r2 = rm_curr_addr r1" by (simp add: rm_curr_addr_def store_heap_start_def)
  have ok2: "region_ok ?r2" using r1(2) unfolding region_ok_def curr by (simp add: store_heap_start_def)
  have e2: "unat (rm_curr_addr ?r2) = ?st + 16384 * SBSIZE" using r1(4) curr expand_count(2) by simp
  have pos: "0 < ?st"
  proof -
    have "0 < unat (rm_curr_addr r)" using ok by (auto simp: region_ok_def word_less_nat_alt)
    then show ?thesis using align_up_ge[of "unat (rm_curr_addr r)" SBSIZE] by simp
  qed
  have dv: "SBSIZE dvd ?st" by (rule align_up_dvd) simp
  let ?t = "\<lparr>sb_region = ?r2, sb_start = ?st, desc_start = dstart, descs = ds, mem = m,
      avail_sb = \<lparr>h_ptr = 0, h_cnt = 0\<rparr>, partial_list = (\<lambda>_. \<lparr>h_ptr = 0, h_cnt = 0\<rparr>), roots = (\<lambda>_. 0),
      t_caches = (\<lambda>_ _. TCacheBin_init)\<rparr>"
  let ?J = "\<lambda>i. if 1 \<le> i \<and> i < 16384 then SbTaken else Unmapped"
  have inv0: "heap_inv ?t 16384 ?J (\<lambda>_. NoBlock) {}"
    by (rule empty_inv[OF ok2 e2 pos dv d]) simp
  let ?s = "organize_sb_list ?t (sbA (sb_start ?t) 1) 16383"
  let ?K = "\<lambda>i. if 1 \<le> i \<and> i < 1 + 16383 then SbFree else ?J i"
  have inv: "heap_inv ?s 16384 ?K (\<lambda>_. NoBlock) {}" by (rule inv_organize[OF inv0]) auto
  have run: "BaseMeta_init r dstart ds m = Ret ?s"
    unfolding BaseMeta_init_def sb(1) r1(1) using r1(3) expand_count(1) by (simp add: sbA_def)
  have b: "sb_start ?s = ?st" "sb_region ?s = ?r2"
  proof -
    have "same_base ?t ?s" by (rule organize_frame)
    then show "sb_start ?s = ?st" by (simp add: same_base_def)
    show "sb_region ?s = ?r2" by (subst organize_frame) simp
  qed
  have "rep ?s 16384 ?K (\<lambda>_. NoBlock)" using inv by (simp add: rep_def)
  moreover have "live_map (sb_start ?s) ?K (\<lambda>_. NoBlock) = Map.empty" by (auto simp: live_map_def)
  moreover have "fetch_heap_start (sb_region ?s) = word_of_nat (sb_start ?s)"
    unfolding b using r1(3)[symmetric] by (simp add: fetch_heap_start_def store_heap_start_def)
  moreover have "base_addr (sb_region ?s) = base_addr r" "FILESIZE (sb_region ?s) = FILESIZE r"
    "unat (rm_curr_addr (sb_region ?s)) = sb_start ?s + SB_REGION_EXPAND_SIZE"
    unfolding b curr using r1(4-6) by (simp_all add: store_heap_start_def)
  ultimately show ?thesis using run b(1) by blast
qed

section \<open>The contract\<close>

lemma live_facts:
  assumes "heap_ok s L" and "L a = Some x"
  shows "sb_start s + SBSIZE \<le> a" and "a + x \<le> unat (rm_curr_addr (sb_region s))" and "8 dvd a" and "8 \<le> x"
proof -
  obtain n K W where r: "rep s n K W" "L = live_map (sb_start s) K W" using assms(1) by (auto simp: heap_ok_def)
  have inv: "heap_inv s n K W {}" using r(1) by (simp add: rep_def)
  note geo = inv_geo[OF inv]
  have Wa: "W a = Live" and x: "x = usable (sb_start s) K a"
    using assms(2) r(2) by (auto simp: live_map_def split: if_splits)
  obtain i where i: "a \<in> blocks (sb_start s) K i" using owner_block[OF inv_own[OF inv], of a] Wa by auto
  have Ki: "K i \<noteq> Unmapped" using i by (auto simp: blocks_def)
  have un: "K j = Unmapped \<longleftrightarrow> j = 0 \<or> j \<ge> n" for j using geo unfolding geo_def by blast
  have i1: "1 \<le> i" "i < n" using Ki un[of i] by auto
  have e: "unat (rm_curr_addr (sb_region s)) = sb_start s + n * SBSIZE" and dv: "SBSIZE dvd sb_start s"
    using geo by (simp_all add: geo_def)
  have "SBSIZE \<le> i * SBSIZE" using i1(1) by (cases i) auto
  then show "sb_start s + SBSIZE \<le> a" using blocks_range(1)[OF geo i] unfolding sbA_def by linarith
  have d8: "8 dvd sbA (sb_start s) i"
  proof -
    have "8 dvd SBSIZE" by (simp add: SBSIZE_eq)
    then show ?thesis using dv unfolding sbA_def by (meson dvd_add dvd_mult dvd_trans)
  qed
  have "a + x \<le> sb_start s + n * SBSIZE \<and> 8 dvd a \<and> 8 \<le> x"
  proof (cases "K i")
    case (SbSmall c)
    have c: "1 \<le> c" "c < MAX_SZ_IDX" using geo_class[OF geo SbSmall] by auto
    obtain k where k: "k < bn_of c" "a = sbA (sb_start s) i + k * bs_of c" using i SbSmall by (auto simp: blocks_def)
    have xb: "x = bs_of c" using x usable_block[OF geo i] SbSmall by simp
    have "(i + 1) * SBSIZE \<le> n * SBSIZE" using i1 by (intro mult_le_mono1) simp
    then have "a + x \<le> sb_start s + n * SBSIZE"
      using block_span[OF c k(1)] k(2) xb by (simp add: sbA_def)
    moreover have "8 dvd a" using k(2) d8 bs_of_facts(2)[OF c] by (simp add: mod_eq_0_iff_dvd)
    ultimately show ?thesis using xb bs_of_facts(1)[OF c] by simp
  next
    case (SbLarge m)
    have a: "a = sbA (sb_start s) i" "x = m * SBSIZE" using i x usable_block[OF geo i] SbLarge by (auto simp: blocks_def)
    have m: "0 < m" "\<And>j. 0 < j \<Longrightarrow> j < m \<Longrightarrow> K (i + j) = SbTail" using large_desc(4,6)[OF inv SbLarge] by auto
    have "K (i + (m - 1)) \<noteq> Unmapped"
    proof (cases "m = 1")
      case False
      then have "K (i + (m - 1)) = SbTail" using m(1) by (intro m(2)) auto
      then show ?thesis by simp
    qed (use Ki in simp)
    then have "i + m \<le> n" using un[of "i + (m - 1)"] m(1) by auto
    then have "(i + m) * SBSIZE \<le> n * SBSIZE" by (rule mult_le_mono1)
    then show ?thesis using a d8 m(1) by (simp add: sbA_def algebra_simps SBSIZE_eq)
  qed (use i in \<open>auto simp: blocks_def\<close>)
  then show "a + x \<le> unat (rm_curr_addr (sb_region s))" "8 dvd a" "8 \<le> x" using e by auto
qed

lemma live_apart_ok:
  assumes "heap_ok s L"
  shows "apart L"
  unfolding apart_def
proof (intro allI impI)
  fix a x b y assume ab: "L a = Some x" "L b = Some y" "a \<noteq> b"
  obtain n K W where r: "rep s n K W" "L = live_map (sb_start s) K W" using assms by (auto simp: heap_ok_def)
  have inv: "heap_inv s n K W {}" using r(1) by (simp add: rep_def)
  have blk: "\<exists>i. c \<in> blocks (sb_start s) K i \<and> z = usable (sb_start s) K c" if "L c = Some z" for c z
    using that r(2) owner_block[OF inv_own[OF inv], of c] by (auto simp: live_map_def split: if_splits)
  show "a + x \<le> b \<or> b + y \<le> a"
    using blk[OF ab(1)] blk[OF ab(2)] usable_block_unique[OF inv_geo[OF inv]] ab(3)
    by (metis linorder_not_less nat_le_linear)
qed

definition user_write :: "ralloc \<Rightarrow> nat \<Rightarrow> nat \<Rightarrow> ralloc" where
  "user_write s b v = s\<lparr>mem := (mem s)(b := v)\<rparr>"

lemma user_write_ok:
  assumes "heap_ok s L" and "L a = Some x" and "a \<le> b" and "b < a + x"
  shows "heap_ok (user_write s b v) L"
proof -
  obtain n K W where r: "rep s n K W" "L = live_map (sb_start s) K W" using assms(1) by (auto simp: heap_ok_def)
  have inv: "heap_inv s n K W {}" using r(1) by (simp add: rep_def)
  have Wa: "W a = Live" "x = usable (sb_start s) K a" using assms(2) r(2) by (auto simp: live_map_def split: if_splits)
  obtain i where i: "a \<in> blocks (sb_start s) K i" using owner_block[OF inv_own[OF inv], of a] Wa by auto
  have "((mem s)(b := v)) c = mem s c" if w: "W c \<noteq> NoBlock" "W c \<noteq> Live" for c
  proof -
    obtain k where "c \<in> blocks (sb_start s) K k" using owner_block[OF inv_own[OF inv] w(1)] by blast
    then have "c \<noteq> b" using usable_block_unique[OF inv_geo[OF inv] i assms(3)] assms(4) Wa w(2) by auto
    then show ?thesis by simp
  qed
  then have "heap_inv (user_write s b v) n K W {}" unfolding user_write_def by (intro inv_mem_frame[OF inv])
  then show ?thesis using r unfolding heap_ok_def rep_def by (intro exI[of _ n] exI[of _ K] exI[of _ W]) (simp add: user_write_def)
qed

lemma malloc_contract:
  assumes "heap_ok s L" and "sz \<le> MAX_LARGE"
  shows "(\<exists>p s' x. do_malloc s t sz = Ret (p, s') \<and> L p = None \<and> sz \<le> x \<and> heap_ok s' (L(p \<mapsto> x))
      \<and> same_base s s' \<and> untouched L s s')
    \<or> (\<exists>msg. do_malloc s t sz = Abort msg \<and> no_room s (max SB_REGION_EXPAND_SIZE (sz + SBSIZE)))"
proof -
  obtain n K W where r: "rep s n K W" "L = live_map (sb_start s) K W" using assms(1) by (auto simp: heap_ok_def)
  have nr: "no_room s q" if "no_room s q'" "q' \<le> q" for q q' using that by (simp add: no_room_def)
  show ?thesis
  proof (cases "sz \<le> MAX_SZ")
    case True
    from do_malloc_small_ok[OF r(1) True, of t] show ?thesis
    proof
      assume "do_malloc s t sz = Abort ''out of space in mmaped file'' \<and> no_room s SB_REGION_EXPAND_SIZE"
      then show ?thesis using nr by (intro disjI2) auto
    next
      assume "\<exists>p s' n' K' W'. do_malloc s t sz = Ret (p, s') \<and> rep s' n' K' W' \<and> live_map (sb_start s) K W p = None
        \<and> live_map (sb_start s) K' W' = (live_map (sb_start s) K W)(p \<mapsto> bs_of (get_sizeclass sz))
        \<and> same_base s s' \<and> untouched (live_map (sb_start s) K W) s s'"
      then obtain p s' n' K' W' where m: "do_malloc s t sz = Ret (p, s')" "rep s' n' K' W'" "L p = None"
          "live_map (sb_start s) K' W' = L(p \<mapsto> bs_of (get_sizeclass sz))" "same_base s s'" "untouched L s s'"
        unfolding r(2)[symmetric] by blast
      have "heap_ok s' (L(p \<mapsto> bs_of (get_sizeclass sz)))"
        unfolding heap_ok_def using m(2,4,5) by (metis same_base_def)
      then show ?thesis using m get_sizeclass_spec(3)[OF True] by blast
    qed
  next
    case False
    then have big: "MAX_SZ < sz" by simp
    let ?m = "(sz + (SBSIZE - 1)) div SBSIZE"
    have le: "?m * SBSIZE \<le> sz + SBSIZE"
      using div_times_less_eq_dividend[of "sz + (SBSIZE - 1)" SBSIZE] by (simp add: SBSIZE_eq)
    from do_malloc_large_ok[OF r(1) big assms(2), of t] show ?thesis
    proof
      assume "do_malloc s t sz = Abort ''space runs out!'' \<and> no_room s (?m * SBSIZE)"
      then show ?thesis using nr le by (intro disjI2) (metis le_max_iff_disj)
    next
      assume "\<exists>p s' n' K' W'. do_malloc s t sz = Ret (p, s') \<and> rep s' n' K' W' \<and> live_map (sb_start s) K W p = None
        \<and> live_map (sb_start s) K' W' = (live_map (sb_start s) K W)(p \<mapsto> ?m * SBSIZE) \<and> sz \<le> ?m * SBSIZE
        \<and> same_base s s' \<and> untouched (live_map (sb_start s) K W) s s'"
      then obtain p s' n' K' W' where m: "do_malloc s t sz = Ret (p, s')" "rep s' n' K' W'" "L p = None"
          "live_map (sb_start s) K' W' = L(p \<mapsto> ?m * SBSIZE)" "sz \<le> ?m * SBSIZE" "same_base s s'" "untouched L s s'"
        unfolding r(2)[symmetric] by blast
      have "heap_ok s' (L(p \<mapsto> ?m * SBSIZE))"
        unfolding heap_ok_def using m(2,4,6) by (metis same_base_def)
      then show ?thesis using m by blast
    qed
  qed
qed

lemma free_contract:
  assumes "heap_ok s L" and "L p = Some x"
  shows "\<exists>s'. do_free s t p = Ret s' \<and> heap_ok s' (L(p := None)) \<and> same_base s s' \<and> untouched (L(p := None)) s s'"
proof -
  obtain n K W where r: "rep s n K W" "L = live_map (sb_start s) K W" using assms(1) by (auto simp: heap_ok_def)
  have inv: "heap_inv s n K W {}" using r(1) by (simp add: rep_def)
  have Wp: "W p = Live" using assms(2) r(2) by (auto simp: live_map_def split: if_splits)
  obtain i where i: "p \<in> blocks (sb_start s) K i" using owner_block[OF inv_own[OF inv], of p] Wp by auto
  have "\<exists>s' K' W'. do_free s t p = Ret s' \<and> rep s' n K' W'
      \<and> live_map (sb_start s) K' W' = L(p := None) \<and> same_base s s' \<and> untouched (L(p := None)) s s'"
  proof (cases "K i")
    case (SbSmall c)
    show ?thesis unfolding r(2) by (rule do_free_small_ok[OF r(1) Wp SbSmall i])
  next
    case (SbLarge m)
    then have "p = sbA (sb_start s) i" using i by (simp add: blocks_def)
    then show ?thesis using do_free_large_ok[OF r(1) SbLarge, of t] unfolding r(2) by simp
  qed (use i in \<open>auto simp: blocks_def\<close>)
  then show ?thesis unfolding heap_ok_def by (metis same_base_def)
qed

lemma exit_contract:
  assumes "heap_ok s L"
  shows "\<exists>s'. public_flush_cache True s t = Ret s' \<and> heap_ok s' L \<and> same_base s s' \<and> untouched L s s'
    \<and> (\<forall>c. 1 \<le> c \<and> c < MAX_SZ_IDX \<longrightarrow> cb_block_num (t_caches s' t c) = 0)"
proof -
  obtain n K W where r: "rep s n K W" "L = live_map (sb_start s) K W" using assms(1) by (auto simp: heap_ok_def)
  have "\<forall>c \<in> set [1..<MAX_SZ_IDX]. 1 \<le> c \<and> c < MAX_SZ_IDX" by simp
  from flush_classes_ok[OF r(1) this, of t] obtain s' K' W' where
    f: "flush_classes [1..<MAX_SZ_IDX] s t = Ret s'" "rep s' n K' W'" "live_map (sb_start s) K' W' = L"
      "same_base s s'" "untouched L s s'" "\<forall>c \<in> set [1..<MAX_SZ_IDX]. cb_block_num (t_caches s' t c) = 0"
    unfolding r(2) by auto
  have "heap_ok s' L" unfolding heap_ok_def using f(2,3,4) by (metis same_base_def)
  moreover have "\<forall>c. 1 \<le> c \<and> c < MAX_SZ_IDX \<longrightarrow> cb_block_num (t_caches s' t c) = 0" using f(6) by simp
  ultimately show ?thesis using f(1,4,5) by (simp add: public_flush_cache_def)
qed

section \<open>The allocator implements the interface\<close>

interpretation ra: heap_interface heap_ok do_malloc do_free "public_flush_cache True" user_write mem MAX_LARGE
proof unfold_locales
  fix s L assume "heap_ok s L"
  then show "apart L" by (rule live_apart_ok)
next
  fix s L sz t p s'
  assume a: "heap_ok s L" "sz \<le> MAX_LARGE" "do_malloc s t sz = Ret (p, s')"
  show "L p = None \<and> (\<exists>x. sz \<le> x \<and> heap_ok s' (L(p \<mapsto> x))) \<and>
      (\<forall>a x b. L a = Some x \<longrightarrow> a \<le> b \<longrightarrow> b < a + x \<longrightarrow> mem s' b = mem s b)"
    using malloc_contract[OF a(1,2), of t] a(3) by (auto simp: untouched_def)
next
  fix s L p x t
  assume "heap_ok s L" "L p = Some x"
  from free_contract[OF this, of t] show "\<exists>s'. do_free s t p = Ret s' \<and> heap_ok s' (L(p := None)) \<and>
      (\<forall>a x b. (L(p := None)) a = Some x \<longrightarrow> a \<le> b \<longrightarrow> b < a + x \<longrightarrow> mem s' b = mem s b)"
    unfolding untouched_def by blast
next
  fix s L t assume "heap_ok s L"
  from exit_contract[OF this, of t] show "\<exists>s'. public_flush_cache True s t = Ret s' \<and> heap_ok s' L \<and>
      (\<forall>a x b. L a = Some x \<longrightarrow> a \<le> b \<longrightarrow> b < a + x \<longrightarrow> mem s' b = mem s b)"
    unfolding untouched_def by blast
next
  fix s L a x b v assume "heap_ok s L" "L a = Some x" "a \<le> b" "b < a + x"
  then show "heap_ok (user_write s b v) L \<and> mem (user_write s b v) = (mem s)(b := v)"
    using user_write_ok by (simp add: user_write_def)
qed

section \<open>A concrete heap\<close>

text \<open>A superblock region of four gigabytes, mapped at \<open>0x10000\<close>.\<close>

definition example_sb_region :: RegionManager where
  "example_sb_region =
     map_persistent_region 0x100000000 0x10000 \<lparr>f_curr_addr = 0, f_heap_start = 0, f_size = 0\<rparr>"

lemma example_sb_region_ok:
  "region_ok example_sb_region" "unat (rm_curr_addr example_sb_region) = 0x11000"
  "unat (base_addr example_sb_region) = 0x10000" "unat (FILESIZE example_sb_region) = 0x100000000"
  using region_ok_map[of "0x10000" "0x100000000" "\<lparr>f_curr_addr = 0, f_heap_start = 0, f_size = 0\<rparr>"]
  by (simp_all add: example_sb_region_def PAGESIZE64_def)
     (simp_all add: map_persistent_region_def)

lemma example_align: "align_up 0x11000 SBSIZE = 0x20000"
  by (simp add: align_up_def SBSIZE_eq)

lemma example_init:
  "\<exists>s. BaseMeta_init example_sb_region 0x40 (\<lambda>_. Descriptor_init) (\<lambda>_. 0) = Ret s \<and> heap_ok s Map.empty
     \<and> \<not> no_room s (max SB_REGION_EXPAND_SIZE (100 + SBSIZE))"
proof -
  have room: "align_up (unat (rm_curr_addr example_sb_region)) SBSIZE + SB_REGION_EXPAND_SIZE
      \<le> unat (base_addr example_sb_region) + unat (FILESIZE example_sb_region)"
    unfolding example_sb_region_ok(2-4) example_align by (simp add: SB_REGION_EXPAND_SIZE_def)
  have d: "(0::nat) < 0x40" "DESCSIZE dvd 0x40" by (simp_all add: DESCSIZE_def)
  obtain s K W where s: "BaseMeta_init example_sb_region 0x40 (\<lambda>_. Descriptor_init) (\<lambda>_. 0) = Ret s"
      "rep s 16384 K W" "live_map (sb_start s) K W = Map.empty"
      "sb_start s = align_up (unat (rm_curr_addr example_sb_region)) SBSIZE"
      "base_addr (sb_region s) = base_addr example_sb_region" "FILESIZE (sb_region s) = FILESIZE example_sb_region"
      "unat (rm_curr_addr (sb_region s)) = sb_start s + SB_REGION_EXPAND_SIZE"
    using init_ok[OF example_sb_region_ok(1) d room, of "\<lambda>_. Descriptor_init" "\<lambda>_. 0"] by blast
  have "sb_start s = 0x20000" using s(4) unfolding example_sb_region_ok(2) example_align .
  then have "\<not> no_room s (max SB_REGION_EXPAND_SIZE (100 + SBSIZE))"
    unfolding no_room_def s(5-7) example_sb_region_ok by (simp add: SB_REGION_EXPAND_SIZE_def SBSIZE_eq)
  then show ?thesis using s(1-3) unfolding heap_ok_def by metis
qed

lemma example_live: "\<exists>s p x. heap_ok s [p \<mapsto> x] \<and> 100 \<le> x"
proof -
  obtain s where s: "heap_ok s Map.empty" "\<not> no_room s (max SB_REGION_EXPAND_SIZE (100 + SBSIZE))"
    using example_init by blast
  have "100 \<le> MAX_LARGE" by (simp add: MAX_LARGE_def SBSIZE_eq)
  from malloc_contract[OF s(1) this, of 0] s(2) show ?thesis by blast
qed

text \<open>The first allocation takes a superblock from the free list and does not expand the region, so a second one has room.\<close>

lemma init_first_malloc:
  assumes init: "BaseMeta_init r dstart ds m = Ret s" "0 < dstart" and sz: "sz \<le> MAX_SZ" and run: "do_malloc s t sz = Ret (p, s')"
  shows "sb_region s' = sb_region s"
proof -
  have s: "partial_list s = (\<lambda>_. \<lparr>h_ptr = 0, h_cnt = 0\<rparr>)" "t_caches s = (\<lambda>_ _. TCacheBin_init)" "h_ptr (avail_sb s) \<noteq> 0"
    using init by (auto simp: BaseMeta_init_def organize_sb_list_def Let_def head_set_def desc_lookup_def
        split: prod.splits if_splits option.splits)
  show ?thesis
    using run sz s
    by (auto simp: do_malloc_def Let_def fill_cache_def retry_bound_def heap_pop_partial_def malloc_from_newsb_def small_sb_alloc_def
        upd_cache_def upd_desc_def assert_run_def run_simps TCacheBin_init_def split: if_splits prod.splits)
qed

lemma example_live_room: "\<exists>s p x. heap_ok s [p \<mapsto> x] \<and> 100 \<le> x \<and> x \<le> SBSIZE \<and> \<not> no_room s SB_REGION_EXPAND_SIZE"
proof -
  obtain s where s: "BaseMeta_init example_sb_region 0x40 (\<lambda>_. Descriptor_init) (\<lambda>_. 0) = Ret s" "heap_ok s Map.empty"
    "\<not> no_room s (max SB_REGION_EXPAND_SIZE (100 + SBSIZE))" using example_init by blast
  have sz: "100 \<le> MAX_SZ" by (simp add: MAX_SZ_def)
  have nr: "\<not> no_room s SB_REGION_EXPAND_SIZE" using s(3) by (simp add: no_room_def)
  obtain n K W where r: "rep s n K W" "live_map (sb_start s) K W = Map.empty" using s(2) by (auto simp: heap_ok_def)
  let ?x = "bs_of (get_sizeclass 100)"
  obtain p s' n' K' W' where m: "do_malloc s 0 100 = Ret (p, s')" "rep s' n' K' W'" "live_map (sb_start s) K' W' = [p \<mapsto> ?x]" "same_base s s'"
    using do_malloc_small_ok[OF r(1) sz, of 0] nr unfolding r(2) by blast
  have "heap_ok s' [p \<mapsto> ?x]" unfolding heap_ok_def using m(2-4) by (metis same_base_def)
  moreover have "sb_region s' = sb_region s" by (rule init_first_malloc[OF s(1) _ sz m(1)]) simp
  then have "\<not> no_room s' SB_REGION_EXPAND_SIZE" using nr by (simp add: no_room_def)
  moreover have "100 \<le> ?x" by (rule get_sizeclass_spec(3)[OF sz])
  moreover have "?x \<le> SBSIZE" using block_span[of "get_sizeclass 100" 0] class_pos get_sizeclass_spec(1,2)[OF sz] by simp
  ultimately show ?thesis by blast
qed

section \<open>Properties\<close>

text \<open>
  C1. Allocation: on every state that represents the live blocks \<open>L\<close>, a request of a thread for at most
  \<open>MAX_LARGE\<close> bytes (\<open>2 ^ 32\<close> minus one superblock; the size of a larger block does not fit its descriptor) returns a non-null, 8-aligned block of at least the requested size inside the superblock region
  that overlaps no live block, adds exactly this block to the live ones and changes no byte of
  the others; the only other outcome is an abort when the region cannot grow by the expansion
  step or by the rounded request. In particular no assertion of the routine fails and the
  retry loop ends.
\<close>

theorem malloc_correct:
  assumes "heap_ok s L" and "sz \<le> MAX_LARGE"
  shows "(\<exists>p s' x. do_malloc s t sz = Ret (p, s') \<and> sz \<le> x \<and> p \<noteq> 0 \<and> 8 dvd p
      \<and> sb_start s \<le> p \<and> p + x \<le> unat (rm_curr_addr (sb_region s'))
      \<and> (\<forall>a y. L a = Some y \<longrightarrow> a + y \<le> p \<or> p + x \<le> a)
      \<and> heap_ok s' (L(p \<mapsto> x)) \<and> untouched L s s')
    \<or> (\<exists>msg. do_malloc s t sz = Abort msg \<and> no_room s (max SB_REGION_EXPAND_SIZE (sz + SBSIZE)))"
proof -
  from malloc_contract[OF assms, of t] show ?thesis
  proof
    assume "\<exists>p s' x. do_malloc s t sz = Ret (p, s') \<and> L p = None \<and> sz \<le> x \<and> heap_ok s' (L(p \<mapsto> x))
      \<and> same_base s s' \<and> untouched L s s'"
    then obtain p s' x where m: "do_malloc s t sz = Ret (p, s')" "L p = None" "sz \<le> x" "heap_ok s' (L(p \<mapsto> x))"
        "same_base s s'" "untouched L s s'" by blast
    note f = live_facts[OF m(4), of p x]
    have dis: "a + y \<le> p \<or> p + x \<le> a" if "L a = Some y" for a y
      using live_apart_ok[OF m(4)] that m(2) unfolding apart_def
      by (metis fun_upd_other fun_upd_same option.distinct(1))
    have "sb_start s' = sb_start s" using m(5) by (simp add: same_base_def)
    then show ?thesis using f m dis by (intro disjI1 exI[of _ p] exI[of _ s'] exI[of _ x]) (simp add: SBSIZE_eq)
  qed blast
qed

theorem malloc_correct_witness:
  "\<exists>s p s' x. heap_ok s Map.empty \<and> do_malloc s 7 100 = Ret (p, s') \<and> 100 \<le> x \<and> heap_ok s' [p \<mapsto> x]"
proof -
  obtain s where s: "heap_ok s Map.empty" "\<not> no_room s (max SB_REGION_EXPAND_SIZE (100 + SBSIZE))"
    using example_init by blast
  have "100 \<le> MAX_LARGE" by (simp add: MAX_LARGE_def SBSIZE_eq)
  from malloc_correct[OF s(1) this, of 7] s show ?thesis by blast
qed

text \<open>
  C3. Deallocation: any thread may free any live block; the call returns, the block is no longer
  live, all others stay live and keep their contents. No assertion fails, also when the thread's
  cache is full and is flushed first, and when a superblock becomes empty and is retired.
\<close>

theorem free_correct:
  assumes "heap_ok s L" and "L p = Some x"
  shows "\<exists>s'. do_free s t p = Ret s' \<and> heap_ok s' (L(p := None)) \<and> untouched (L(p := None)) s s'"
  using free_contract[OF assms, of t] by blast

theorem free_correct_witness:
  "\<exists>s p x s'. heap_ok s [p \<mapsto> x] \<and> do_free s 3 p = Ret s' \<and> heap_ok s' ([p \<mapsto> x](p := None))"
proof -
  obtain s p x where s: "heap_ok s [p \<mapsto> x]" using example_live by blast
  from free_correct[OF s, of p x 3] s show ?thesis by fastforce
qed

text \<open>
  C2. Every program: for any sequence of allocations of at most \<open>MAX_LARGE\<close> bytes each, frees, thread exits and
  writes of any threads, one call after the other, that starts on a state of the allocator with no live blocks and frees and
  writes only what it holds, the blocks it holds never overlap and reading back gives the last value written
  to every byte it holds.
\<close>

theorem heap_client_safe:
  assumes "heap_ok s Map.empty"
    and "client do_malloc do_free (public_flush_cache True) user_write MAX_LARGE
           s Map.empty Map.empty ops s' C V"
  shows "apart C \<and> (\<forall>b v. V b = Some v \<longrightarrow> mem s' b = v) \<and> (\<exists>L. heap_ok s' L \<and> covered C L)"
proof -
  obtain L where "heap_ok s' L" "covered C L" "apart C" "readable C V (mem s')"
    using ra.client_safe[OF assms(2,1)] by (auto simp: covered_def readable_def)
  then show ?thesis unfolding readable_def by blast
qed

theorem heap_client_safe_witness:
  "\<exists>s s' C V. heap_ok s Map.empty \<and>
     client do_malloc do_free (public_flush_cache True) user_write MAX_LARGE s Map.empty Map.empty
       [OpMalloc 1 100, OpExit 1] s' C V \<and> C \<noteq> Map.empty \<and> apart C"
proof -
  obtain s where s: "heap_ok s Map.empty" "\<not> no_room s (max SB_REGION_EXPAND_SIZE (100 + SBSIZE))"
    using example_init by blast
  have l: "100 \<le> MAX_LARGE" by (simp add: MAX_LARGE_def SBSIZE_eq)
  obtain p s1 x where m: "do_malloc s 1 100 = Ret (p, s1)" "heap_ok s1 [p \<mapsto> x]"
    using malloc_contract[OF s(1) l, of 1] s(2) by blast
  obtain s2 where e: "public_flush_cache True s1 1 = Ret s2" using exit_contract[OF m(2), of 1] by blast
  have run: "client do_malloc do_free (public_flush_cache True) user_write MAX_LARGE s Map.empty Map.empty
      [OpMalloc 1 100, OpExit 1] s2 [p \<mapsto> 100] Map.empty"
    by (rule client_malloc, rule l, rule m(1), rule client_exit, rule e, rule client_nil)
  have "[p \<mapsto> 100] \<noteq> Map.empty" by simp
  moreover have "apart [p \<mapsto> 100]" using heap_client_safe[OF s(1) run] by simp
  ultimately show ?thesis using s(1) run
    by (intro exI[of _ s] exI[of _ s2] exI[of _ "[p \<mapsto> 100]"] exI[of _ Map.empty]) simp
qed

text \<open>
  C4. Thread exit: flushing the caches of a thread returns, leaves the live blocks and their
  contents as they are and leaves no block in any of the thread's caches.
\<close>

theorem exit_correct:
  assumes "heap_ok s L"
  shows "\<exists>s'. public_flush_cache True s t = Ret s' \<and> heap_ok s' L \<and> untouched L s s'
    \<and> (\<forall>c. 1 \<le> c \<longrightarrow> c < MAX_SZ_IDX \<longrightarrow> cb_block_num (t_caches s' t c) = 0)"
  using exit_contract[OF assms, of t] by blast

theorem exit_correct_witness:
  "\<exists>s s'. heap_ok s Map.empty \<and> public_flush_cache True s 5 = Ret s' \<and> heap_ok s' Map.empty"
proof -
  obtain s where "heap_ok s Map.empty" using example_init by blast
  from exit_correct[OF this, of 5] this show ?thesis by blast
qed

text \<open>
  C5. The constructor: on a fresh superblock region with room for the first gigabyte after the
  alignment to the superblock size, it returns a state with no live block, and records the
  aligned start as the start of the heap.
\<close>

theorem init_correct:
  assumes "region_ok r" and "0 < dstart" and "DESCSIZE dvd dstart"
    and "align_up (unat (rm_curr_addr r)) SBSIZE + SB_REGION_EXPAND_SIZE \<le> unat (base_addr r) + unat (FILESIZE r)"
  shows "\<exists>s. BaseMeta_init r dstart ds m = Ret s \<and> heap_ok s Map.empty
    \<and> fetch_heap_start (sb_region s) = word_of_nat (sb_start s) \<and> SBSIZE dvd sb_start s"
proof -
  obtain s K W where s: "BaseMeta_init r dstart ds m = Ret s" "rep s 16384 K W"
      "live_map (sb_start s) K W = Map.empty" "fetch_heap_start (sb_region s) = word_of_nat (sb_start s)"
      "sb_start s = align_up (unat (rm_curr_addr r)) SBSIZE"
    using init_ok[OF assms] by blast
  have "SBSIZE dvd sb_start s" unfolding s(5) by (rule align_up_dvd) simp
  moreover have "heap_ok s Map.empty" unfolding heap_ok_def using s(2,3) by metis
  ultimately show ?thesis using s(1,4) by blast
qed

theorem init_correct_witness:
  "\<exists>s. BaseMeta_init example_sb_region 0x40 (\<lambda>_. Descriptor_init) (\<lambda>_. 0) = Ret s \<and> heap_ok s Map.empty"
proof -
  have "align_up (unat (rm_curr_addr example_sb_region)) SBSIZE + SB_REGION_EXPAND_SIZE
      \<le> unat (base_addr example_sb_region) + unat (FILESIZE example_sb_region)"
    unfolding example_sb_region_ok(2-4) example_align by (simp add: SB_REGION_EXPAND_SIZE_def)
  then show ?thesis
    using init_correct[OF example_sb_region_ok(1), of "0x40" "\<lambda>_. Descriptor_init" "\<lambda>_. 0"]
    by (auto simp: DESCSIZE_def)
qed

end
