(* ===== verification/Recovery.thy ===== *)
theory Recovery
  imports Allocator
begin

text \<open>
  Recovery after a crash: class \<^verbatim>\<open>GarbageCollection\<close> of \<^verbatim>\<open>ralloc/src/BaseMeta.hpp\<close> and
  \<^verbatim>\<open>BaseMeta.cpp\<close>, the persistent roots, the dirty flag and \<^verbatim>\<open>restart\<close>/\<^verbatim>\<open>writeback\<close> of
  \<^verbatim>\<open>BaseMeta\<close>. Collection marks what is reachable from the roots and rebuilds every free
  list and anchor from the persistent fields of the descriptors.

  A filter function is a type tag \<open>'ty\<close> (the template argument of \<^verbatim>\<open>filter_func<T>\<close>); the
  parameter \<open>flt\<close> gives the pointers, with the tag they are marked with, that the filter
  function of a tag passes to \<^verbatim>\<open>mark_func\<close> for a node, in order. The specialisations belong
  to the application; the default one is \<open>filter_func_default\<close>.
\<close>

section \<open>Marking\<close>

text \<open>
  The state of a collection: \<^verbatim>\<open>std::set<char*> marked_blk\<close> in ascending order, and the two
  stacks, pushed and popped together, as one stack of pairs.
\<close>

record 'ty GarbageCollection =
  marked_blk :: "nat list"
  to_filter :: "(nat \<times> 'ty) list"

definition GarbageCollection_init :: "'ty GarbageCollection" where
  "GarbageCollection_init = \<lparr>marked_blk = [], to_filter = []\<rparr>"

definition mark_func :: "ralloc \<Rightarrow> nat \<times> 'ty \<Rightarrow> 'ty GarbageCollection \<Rightarrow> 'ty GarbageCollection" where
  "mark_func s x gc =
     (if \<not> in_range_sb s (fst x) then gc
      else if fst x \<notin> set (marked_blk gc)
      then gc\<lparr>marked_blk := insort (fst x) (marked_blk gc), to_filter := x # to_filter gc\<rparr>
      else gc)"

text \<open>
  The default filter function: at each byte of the block the next eight bytes (\<open>rd\<close>) are
  read as a \<^verbatim>\<open>pptr\<close>, and what is not null is marked as a \<^verbatim>\<open>char*\<close>, tag \<open>ty\<close>.
\<close>

definition filter_func_default :: "(nat \<Rightarrow> u64) \<Rightarrow> 'ty \<Rightarrow> ralloc \<Rightarrow> nat \<Rightarrow> (nat \<times> 'ty) list" where
  "filter_func_default rd ty s p =
     (let desc = desc_lookup s p; sz = d_block_size (descs s desc)
      in map (\<lambda>v. (v, ty))
           (filter (\<lambda>v. v \<noteq> 0)
             (map (\<lambda>i. unat (from_pptr_off (rd (p + i)) (word_of_nat (p + i)))) [0..<sz])))"

text \<open>
  The loop over the roots; \<open>rf i\<close> is \<^verbatim>\<open>roots_filter_func[i]\<close>, \<open>None\<close> when no
  \<^verbatim>\<open>get_root(i)\<close> has set it: calling it throws \<^verbatim>\<open>bad_function_call\<close>.
\<close>

fun mark_roots ::
  "ralloc \<Rightarrow> (nat \<Rightarrow> 'ty option) \<Rightarrow> nat list \<Rightarrow> 'ty GarbageCollection \<Rightarrow> 'ty GarbageCollection run" where
  "mark_roots s rf [] gc = Ret gc"
| "mark_roots s rf (i # is) gc =
     (if cross_is_null (roots s i) then mark_roots s rf is gc
      else case rf i of
             None \<Rightarrow> Abort ''bad_function_call''
           | Some ty \<Rightarrow>
               mark_roots s rf is
                 (mark_func s (unat (cross_cast (word_of_nat (sb_start s)) (roots s i)), ty) gc))"

lemma in_range_finite: "finite {p. in_range_sb s p}"
  by (rule finite_subset[of _ "{..<unat (rm_curr_addr (sb_region s))}"]) (auto simp: in_range_sb_def)

definition unmarked :: "ralloc \<Rightarrow> 'ty GarbageCollection \<Rightarrow> nat" where
  "unmarked s gc = card ({p. in_range_sb s p} - set (marked_blk gc))"

lemma mark_func_measure:
  "2 * unmarked s (mark_func s x gc) + length (to_filter (mark_func s x gc))
     \<le> 2 * unmarked s gc + length (to_filter gc)"
proof (cases "in_range_sb s (fst x) \<and> fst x \<notin> set (marked_blk gc)")
  case True
  let ?A = "{p. in_range_sb s p} - set (marked_blk gc)"
  have "fst x \<in> ?A" "finite ?A" using True in_range_finite[of s] by simp_all
  then have "Suc (card (?A - {fst x})) = card ?A" by (intro card_Suc_Diff1)
  moreover have "{p. in_range_sb s p} - set (insort (fst x) (marked_blk gc)) = ?A - {fst x}"
    unfolding set_insort_key by blast
  ultimately show ?thesis using True unfolding mark_func_def unmarked_def by simp
next
  case False
  then have "mark_func s x gc = gc" unfolding mark_func_def by argo
  then show ?thesis by simp
qed

lemma mark_fold_measure:
  "2 * unmarked s (fold (mark_func s) xs gc) + length (to_filter (fold (mark_func s) xs gc))
     \<le> 2 * unmarked s gc + length (to_filter gc)"
proof (induction xs arbitrary: gc)
  case (Cons x xs)
  show ?case using Cons.IH[of "mark_func s x gc"] mark_func_measure[of s x gc] by simp
qed simp

text \<open>The loop over the stack. Every address in range is pushed at most once, so it ends.\<close>

function mark_loop ::
  "('ty \<Rightarrow> ralloc \<Rightarrow> nat \<Rightarrow> (nat \<times> 'ty) list) \<Rightarrow> ralloc \<Rightarrow> 'ty GarbageCollection \<Rightarrow> 'ty GarbageCollection" where
  "mark_loop flt s gc =
     (case to_filter gc of
        [] \<Rightarrow> gc
      | (node, func) # rest \<Rightarrow>
          mark_loop flt s (fold (mark_func s) (flt func s node) (gc\<lparr>to_filter := rest\<rparr>)))"
  by pat_completeness auto

termination
proof (relation "measure (\<lambda>(flt, s, gc). 2 * unmarked s gc + length (to_filter gc))")
  fix flt s and gc :: "'a GarbageCollection" and x21 x22 x y
  assume "to_filter gc = x21 # x22" and "(x, y) = x21"
  then show "((flt, s, fold (mark_func s) (flt y s x) (gc\<lparr>to_filter := x22\<rparr>)), flt, s, gc)
    \<in> measure (\<lambda>(flt, s, gc). 2 * unmarked s gc + length (to_filter gc))"
    using mark_fold_measure[of s "flt y s x" "gc\<lparr>to_filter := x22\<rparr>"]
    by (simp add: unmarked_def)
qed simp

declare mark_loop.simps [simp del]

section \<open>Sweeping\<close>

text \<open>
  The two loops that put the blocks from \<open>fb\<close> up to \<open>limit\<close> on the list of free blocks. A
  block size of 0 would keep the loop from ending.
\<close>

function sweep_free :: "nat \<Rightarrow> nat \<Rightarrow> nat \<Rightarrow> mem \<times> nat \<times> nat \<Rightarrow> (mem \<times> nat \<times> nat) run" where
  "sweep_free limit bsize fb (m, fh, c) =
     (if fb < limit then
        if bsize = 0 then OutOfFuel
        else sweep_free limit bsize (fb + bsize) (m(fb := fh), fb, c + 1)
      else Ret (m, fh, c))"
  by pat_completeness auto
termination by (relation "measure (\<lambda>(limit, bsize, fb, acc). limit - fb)") auto

declare sweep_free.simps [simp del]

text \<open>
  The loop over the marked blocks in the superblock \<open>sb\<close> with descriptor \<open>d\<close>. The
  accumulator is the anchor's state, \<^verbatim>\<open>last_possible_free_block\<close>, the memory,
  \<^verbatim>\<open>free_blocks_head\<close> and the anchor's count.
\<close>

type_synonym sweep_acc = "SuperblockState \<times> nat \<times> mem \<times> nat \<times> nat"

fun sweep_marked ::
  "Descriptor \<Rightarrow> nat \<Rightarrow> nat list \<Rightarrow> sweep_acc \<Rightarrow> (nat list \<times> sweep_acc) run" where
  "sweep_marked D sb [] acc = Ret ([], acc)"
| "sweep_marked D sb (b # bs) (st, lpf, m, fh, c) =
     (if sb div 2 ^ SB_SHIFT = b div 2 ^ SB_SHIFT then
        case d_heap D of
          None \<Rightarrow> sweep_marked D sb bs (st, lpf, m, fh, c)
        | Some sc_idx \<Rightarrow>
            if d_superblock D \<noteq> sb then sweep_marked D sb bs (st, lpf, m, fh, c)
            else if sc_idx = 0 then
              bind_run (assert_run (d_maxcount D = 1) ''maxcount == 1'') (\<lambda>_.
              sweep_marked D sb bs (SB_FULL, lpf, m, fh, c))
            else
              bind_run (sweep_free b (d_block_size D) lpf (m, fh, c)) (\<lambda>(m', fh', c').
              sweep_marked D sb bs (SB_PARTIAL, b + d_block_size D, m', fh', c'))
      else Ret (b # bs, (st, lpf, m, fh, c)))"

text \<open>The end of the round for a small superblock in use.\<close>

definition sweep_small :: "ralloc \<Rightarrow> nat \<Rightarrow> nat \<Rightarrow> nat \<Rightarrow> nat \<Rightarrow> nat \<Rightarrow> ralloc run" where
  "sweep_small s sb d lpf fh0 c0 =
     (let D = descs s d
      in bind_run (sweep_free (sb + (d_maxcount D * d_block_size D) mod 2 ^ 32) (d_block_size D) lpf
                     (mem s, fh0, c0)) (\<lambda>(m, fh, c).
         let s1 = s\<lparr>mem := m\<rparr>
         in if c = 0 then
              Ret (upd_desc d (\<lambda>x. x\<lparr>d_next_free := 0, d_next_partial := 0,
                     d_anchor := \<lparr>avail = d_maxcount D, count = c, state = SB_FULL\<rparr>\<rparr>) s1)
            else
              bind_run (assert_run (fh \<noteq> 0) ''free_blocks_head != nullptr'') (\<lambda>_.
              bind_run (assert_run ((fh - sb) mod d_block_size D = 0) ''block boundary'') (\<lambda>_.
              let anchor = \<lparr>avail = (fh - sb) div d_block_size D, count = c, state = SB_PARTIAL\<rparr>
              in bind_run (heap_push_partial (upd_desc d (\<lambda>x. x\<lparr>d_next_free := 0\<rparr>) s1) d) (\<lambda>s2.
                 Ret (upd_desc d (\<lambda>x. x\<lparr>d_anchor := anchor\<rparr>) s2))))))"

text \<open>
  One round of the loop over the superblocks: the state, \<^verbatim>\<open>curr_sb\<close>, \<^verbatim>\<open>curr_desc\<close>, the
  marked blocks left and \<^verbatim>\<open>avail_sb\<close>, the head of the new list of free superblocks.
\<close>

type_synonym sweep_state = "ralloc \<times> nat \<times> nat \<times> nat list \<times> nat"

definition sweep_one :: "sweep_state \<Rightarrow> sweep_state run" where
  "sweep_one q =
     (case q of (s, sb, d, ms, av) \<Rightarrow>
       let D = descs s d
       in bind_run (sweep_marked D sb ms (SB_EMPTY, sb, mem s, 0, 0)) (\<lambda>(ms', st, lpf, m, fh, c).
          let s1 = s\<lparr>mem := m\<rparr>
          in if st = SB_EMPTY then
               Ret (upd_desc d (\<lambda>_. Descriptor_init\<lparr>d_next_free := av\<rparr>) s1,
                    sb + SBSIZE, d + DESCSIZE, ms', d)
             else if d_heap D = Some 0 then
               let s2 = upd_desc d (\<lambda>x. x\<lparr>d_next_free := 0, d_next_partial := 0,
                          d_anchor := \<lparr>avail = 0, count = 0, state = SB_FULL\<rparr>\<rparr>) s1;
                   sb' = sb + d_block_size D
               in Ret (s2, sb', desc_lookup s2 sb', ms', av)
             else
               bind_run (sweep_small s1 sb d lpf fh c) (\<lambda>s2.
               Ret (s2, sb + SBSIZE, d + DESCSIZE, ms', av))))"

lemma sweep_marked_length:
  "sweep_marked D sb ms (st, lpf, m, fh, c) = Ret (ms', st', lpf', m', fh', c') \<Longrightarrow>
     length ms' \<le> length ms \<and> (st' \<noteq> st \<longrightarrow> length ms' < length ms)"
proof (induction D sb ms "(st, lpf, m, fh, c)" arbitrary: st lpf m fh c rule: sweep_marked.induct)
  case (2 D sb b bs st lpf m fh c)
  show ?case
  proof (cases "sb div 2 ^ SB_SHIFT = b div 2 ^ SB_SHIFT")
    case same: True
    show ?thesis
    proof (cases "d_heap D")
      case None
      then show ?thesis using 2(1)[OF same None] 2(5) same by auto
    next
      case (Some h)
      show ?thesis
      proof (cases "d_superblock D \<noteq> sb")
        case True
        then show ?thesis using 2(2)[OF same Some True] 2(5) same Some by auto
      next
        case F: False
        show ?thesis
        proof (cases "h = 0")
          case True
          have *: "sweep_marked D sb bs (SB_FULL, lpf, m, fh, c) = Ret (ms', st', lpf', m', fh', c')"
            and "d_maxcount D = 1" using 2(5) same Some F True by (auto simp: run_simps)
          then show ?thesis using 2(3)[OF same Some F True _ *] by auto
        next
          case nz: False
          obtain m2 fh2 c2 where f: "sweep_free b (d_block_size D) lpf (m, fh, c) = Ret (m2, fh2, c2)"
            and *: "sweep_marked D sb bs (SB_PARTIAL, b + d_block_size D, m2, fh2, c2)
                      = Ret (ms', st', lpf', m', fh', c')"
            using 2(5) same Some F nz by (auto simp: run_simps)
          then show ?thesis using 2(4)[OF same Some F nz f refl refl *] by auto
        qed
      qed
    qed
  next
    case False
    then show ?thesis using 2(5) by auto
  qed
qed simp

lemma sweep_one_decreases:
  assumes "sweep_one (s, sb, d, ms, av) = Ret (s', sb', d', ms', av')"
  shows "sb < sb' \<or> sb' = sb \<and> length ms' < length ms"
proof -
  obtain ms1 st lpf m fh c
    where sm: "sweep_marked (descs s d) sb ms (SB_EMPTY, sb, mem s, 0, 0) = Ret (ms1, st, lpf, m, fh, c)"
    using assms unfolding sweep_one_def Let_def by (auto simp: bind_run_Ret_iff)
  note len = sweep_marked_length[OF sm]
  show ?thesis
  proof (cases "st = SB_EMPTY")
    case True
    then show ?thesis using assms unfolding sweep_one_def Let_def by (simp add: sm SBSIZE_eq)
  next
    case st: False
    show ?thesis
    proof (cases "d_heap (descs s d) = Some 0")
      case True
      then have "sb' = sb + d_block_size (descs s d)" "ms' = ms1"
        using assms st unfolding sweep_one_def Let_def by (simp_all add: sm)
      then show ?thesis using len st by auto
    next
      case False
      then have "sb' = sb + SBSIZE"
        using assms st unfolding sweep_one_def Let_def by (auto simp: sm bind_run_Ret_iff)
      then show ?thesis by (simp add: SBSIZE_eq)
    qed
  qed
qed

text \<open>
  The loop. A round moves on by at least one superblock, or (a large block whose recorded size
  is 0) consumes a marked block, so the loop ends.
\<close>

function sweep :: "nat \<Rightarrow> sweep_state \<Rightarrow> sweep_state run" where
  "sweep sb_end (s, sb, d, ms, av) =
     (if sb < sb_end then bind_run (sweep_one (s, sb, d, ms, av)) (sweep sb_end)
      else Ret (s, sb, d, ms, av))"
  by pat_completeness auto

termination
proof (relation "measures [\<lambda>(e, s, sb, d, ms, av). e - sb, \<lambda>(e, s, sb, d, ms, av). length ms]")
  fix e s sb d ms av and q :: sweep_state
  assume a: "sb < e" "sweep_one (s, sb, d, ms, av) = Ret q"
  obtain s' sb' d' ms' av' where q: "q = (s', sb', d', ms', av')" by (cases q)
  from sweep_one_decreases[OF a(2)[unfolded q]] a(1)
  show "((e, q), e, s, sb, d, ms, av)
    \<in> measures [\<lambda>(e, s, sb, d, ms, av). e - sb, \<lambda>(e, s, sb, d, ms, av). length ms]"
    unfolding q by (elim disjE) (simp_all add: diff_less_mono2)
qed simp

declare sweep.simps [simp del]

section \<open>The collection\<close>

text \<open>Step 0: the lists of the transient state are emptied.\<close>

definition gc_init :: "ralloc \<Rightarrow> ralloc" where
  "gc_init s =
     s\<lparr>avail_sb := \<lparr>h_ptr = 0, h_cnt = 0\<rparr>,
       partial_list := (\<lambda>i. if i < MAX_SZ_IDX then \<lparr>h_ptr = 0, h_cnt = 0\<rparr> else partial_list s i)\<rparr>"

definition collect ::
  "('ty \<Rightarrow> ralloc \<Rightarrow> nat \<Rightarrow> (nat \<times> 'ty) list) \<Rightarrow> (nat \<Rightarrow> 'ty option) \<Rightarrow> ralloc \<Rightarrow> ralloc run" where
  "collect flt rf s =
     (let s0 = gc_init s
      in bind_run (mark_roots s0 rf [0..<MAX_ROOTS] GarbageCollection_init) (\<lambda>gc0.
         let gc = mark_loop flt s0 gc0;
             sb = unat (translate (word_of_nat (sb_start s0)) (word_of_nat SBSIZE))
         in bind_run (sweep (unat (rm_curr_addr (sb_region s0)))
                        (s0, sb, desc_lookup s0 sb, marked_blk gc, 0)) (\<lambda>(s1, _, _, ms, av).
            bind_run (assert_run (ms = []) ''curr_marked_blk == marked_blk.end()'') (\<lambda>_.
            Ret (s1\<lparr>avail_sb := head_set av 0\<rparr>)))))"

section \<open>Roots\<close>

definition set_root :: "ralloc \<Rightarrow> u64 \<Rightarrow> nat \<Rightarrow> (u64 \<times> ralloc) run" where
  "set_root s p i =
     bind_run (assert_run (i < MAX_ROOTS) ''i<MAX_ROOTS'') (\<lambda>_.
     let rb = word_of_nat (sb_start s);
         res = (if \<not> cross_is_null (roots s i) then cross_cast rb (roots s i) else 0)
     in Ret (res, s\<lparr>roots := (roots s)(i := cross_assign rb p)\<rparr>))"

text \<open>\<^verbatim>\<open>get_root<T>\<close> also registers the filter function of the root's type.\<close>

definition get_root ::
  "ralloc \<Rightarrow> (nat \<Rightarrow> 'ty option) \<Rightarrow> 'ty \<Rightarrow> nat \<Rightarrow> (u64 \<times> (nat \<Rightarrow> 'ty option)) run" where
  "get_root s rf ty i =
     bind_run (assert_run (i < MAX_ROOTS) ''i<MAX_ROOTS'') (\<lambda>_.
     Ret (cross_cast (word_of_nat (sb_start s)) (roots s i), rf(i \<mapsto> ty)))"

end
