(* ===== verification/RecoveryOps.thy ===== *)
theory RecoveryOps
  imports Recovery
begin

text \<open>
  Lemmas on the collection of theory \<open>Recovery\<close>: what marking marks, what a sweep of one
  superblock does to its list of free blocks, and the steps by which a sweep turns a heap of
  superblocks of unknown use into one that satisfies the allocator's invariant.
\<close>

section \<open>Superblocks come back into use\<close>

text \<open>
  A superblock in no list, with a descriptor that says it is small and an anchor that lists
  the blocks outside \<open>M\<close>, is in use: the blocks of \<open>M\<close> are live, the others are free in it.
\<close>

lemma inv_new_used:
  assumes inv: "heap_inv s n K W X" and Ki: "K i = SbTaken" and c: "1 \<le> c" "c < MAX_SZ_IDX"
    and d: "d_heap (descs s (dA (desc_start s) i)) = Some c"
      "d_block_size (descs s (dA (desc_start s) i)) = bs_of c"
      "d_maxcount (descs s (dA (desc_start s) i)) = bn_of c"
      "d_superblock (descs s (dA (desc_start s) i)) = sbA (sb_start s) i"
    and A: "anchor_ok s i c (blocks (sb_start s) (K(i := SbSmall c)) i)
      (blocks (sb_start s) (K(i := SbSmall c)) i - M) (d_anchor (descs s (dA (desc_start s) i)))"
  defines "W' \<equiv> \<lambda>a. if a \<in> blocks (sb_start s) (K(i := SbSmall c)) i
                      then (if a \<in> M then Live else InSb) else W a"
  shows "heap_inv s n (K(i := SbSmall c)) W'
    (if state (d_anchor (descs s (dA (desc_start s) i))) = SB_FULL then X else insert i X)"
    (is "heap_inv s n ?K W' ?X")
proof (rule heap_invI)
  let ?st = "sb_start s"
  let ?B = "blocks ?st ?K i"
  note geo = inv_geo[OF inv] and own = inv_own[OF inv]
  show geo': "geo s n ?K" using geo_upd[OF geo, of i "SbSmall c"] Ki c by simp
  have old: "W a = NoBlock" if "a \<in> ?B" for a
    using no_block_in[OF inv, of i a] blocks_range[OF geo', of a ?st i] that Ki
    by (simp add: blocks_def)
  have bl: "blocks ?st ?K j = blocks ?st K j" if "j \<noteq> i" for j using that by (simp add: blocks_def)
  have W': "W' a = W a" if "a \<in> blocks ?st K j" for a j
    using old[of a] block_owner[OF own that] by (auto simp: W'_def)
  have empty_i: "blocks ?st K i = {}" using Ki by (simp add: blocks_def)
  show "own_ok ?st ?K W'"
  proof (rule own_okI)
    show "W' a \<noteq> NoBlock \<longleftrightarrow> (\<exists>j. a \<in> blocks ?st ?K j)" for a
    proof (cases "a \<in> ?B")
      case True
      then show ?thesis by (auto simp: W'_def)
    next
      case False
      have "(\<exists>j. a \<in> blocks ?st ?K j) \<longleftrightarrow> (\<exists>j. a \<in> blocks ?st K j)"
        using False bl empty_i by (metis empty_iff)
      then show ?thesis using False own by (simp add: own_ok_def W'_def)
    qed
    show "W' (sbA ?st j) = Live" if "?K j = SbLarge q" for j q
    proof -
      have "K j = SbLarge q" using that by (auto split: if_splits)
      then show ?thesis using W'[of "sbA ?st j" j] own_large[OF own] by (simp add: blocks_def)
    qed
    show "c2 = c1" if "?K j = SbSmall c1" "a \<in> blocks ?st ?K j" "W' a = Cached t' c2" for j c1 a t' c2
    proof (cases "j = i")
      case True
      then show ?thesis using that by (auto simp: W'_def split: if_splits)
    next
      case False
      then have j: "K j = SbSmall c1" "a \<in> blocks ?st K j" using that bl by auto
      with that(3) W' show ?thesis by (intro own_class[OF own]) auto
    qed
  qed
  have "{j. ?K j = SbFree} = {j. K j = SbFree}" using Ki by auto
  then show "free_ok s ?K" using inv_free[OF inv] by (simp add: free_ok_def)
  have nX: "i \<notin> X" using inv Ki unfolding heap_inv_def nonfull_def by force
  have nf: "nonfull s ?K c' - ?X = nonfull s K c' - X" for c'
    using Ki nX by (auto simp: nonfull_def split: if_splits)
  show "part_ok s ?K ?X c'" for c' using inv_part[OF inv, of c'] nf by (simp add: part_ok_def)
  show "desc_ok s ?K W' j" for j
  proof (cases "j = i")
    case True
    have "in_sb ?st ?K W' i = ?B - M" by (auto simp: in_sb_def W'_def)
    then show ?thesis using True d A by (simp add: desc_ok_def Let_def)
  next
    case False
    then show ?thesis using W' by (intro desc_ok_same[OF inv_desc[OF inv]] in_sb_same) auto
  qed
  show "cache_ok s W' t' c'" if "1 \<le> c'" "c' < MAX_SZ_IDX" for t' c'
  proof -
    have "{a. W' a = Cached t' c'} = {a. W a = Cached t' c'}" using old by (auto simp: W'_def)
    then show ?thesis using inv_cache[OF inv that, of t'] by (simp add: cache_ok_def)
  qed
  show "\<exists>c'. j \<in> nonfull s ?K c'" if j: "j \<in> ?X" for j
  proof (cases "j = i")
    case True
    then have "state (d_anchor (descs s (dA (desc_start s) i))) \<noteq> SB_FULL" using j nX by (auto split: if_splits)
    then show ?thesis using True by (auto simp: nonfull_def)
  next
    case False
    then have "j \<in> X" using j by (auto split: if_splits)
    then obtain c' where "j \<in> nonfull s K c'" using inv unfolding heap_inv_def by blast
    then have "j \<in> nonfull s ?K c'" using False by (simp add: nonfull_def)
    then show ?thesis by blast
  qed
qed

text \<open>The counter of the list of free superblocks is no part of the invariant.\<close>

lemma inv_avail_cnt:
  assumes "heap_inv (s\<lparr>avail_sb := h\<rparr>) n K W X" and "h_ptr h' = h_ptr h"
  shows "heap_inv (s\<lparr>avail_sb := h'\<rparr>) n K W X"
  by (rule heap_invI) (use assms in \<open>auto simp: heap_inv_def geo_def free_ok_def part_ok_def nonfull_def
        desc_ok_def anchor_ok_def cache_ok_def Let_def cong: sbkind.case_cong SuperblockState.case_cong\<close>)

section \<open>The list of free blocks\<close>

lemma nlist_chain: "nlist m p xs \<Longrightarrow> chain m p xs"
  by (induction xs arbitrary: p) auto

lemma sweep_free_spec:
  assumes bs: "0 < bs" and i: "i \<le> j" and sb: "0 < sb"
    and xs: "nlist m fh xs" "set xs \<inter> (\<lambda>k. sb + k * bs) ` {i..<j} = {}"
  shows "\<exists>m' fh'. sweep_free (sb + j * bs) bs (sb + i * bs) (m, fh, c) = Ret (m', fh', c + (j - i))
    \<and> nlist m' fh' (map (\<lambda>k. sb + k * bs) (rev [i..<j]) @ xs)
    \<and> (\<forall>a. m' a \<noteq> m a \<longrightarrow> a \<in> (\<lambda>k. sb + k * bs) ` {i..<j})"
  using i xs
proof (induction "j - i" arbitrary: i m fh c xs)
  case 0
  then show ?case by (simp add: sweep_free.simps)
next
  case (Suc q)
  let ?b = "sb + i * bs"
  let ?m = "m(?b := fh)"
  have ij: "i < j" "q = j - Suc i" "Suc i \<le> j" using Suc.hyps(2) by simp_all
  have "?b \<in> (\<lambda>k. sb + k * bs) ` {i..<j}" using ij by (intro imageI) simp
  then have b: "?b \<notin> set xs" using Suc.prems(3) by blast
  have "nlist ?m fh xs" by (rule nlist_upd[OF Suc.prems(2)]) (use b in auto)
  then have n: "nlist ?m ?b (?b # xs)" using sb by simp
  have dis: "set (?b # xs) \<inter> (\<lambda>k. sb + k * bs) ` {Suc i..<j} = {}"
    using Suc.prems(3) bs by auto
  obtain m' fh' where IH:
    "sweep_free (sb + j * bs) bs (sb + Suc i * bs) (?m, ?b, c + 1) = Ret (m', fh', c + 1 + (j - Suc i))"
    "nlist m' fh' (map (\<lambda>k. sb + k * bs) (rev [Suc i..<j]) @ ?b # xs)"
    "\<forall>a. m' a \<noteq> ?m a \<longrightarrow> a \<in> (\<lambda>k. sb + k * bs) ` {Suc i..<j}"
    using Suc.hyps(1)[OF ij(2,3) n dis, of "c + 1"] by blast
  have "?b < sb + j * bs" using ij bs by simp
  then have "sweep_free (sb + j * bs) bs ?b (m, fh, c) = sweep_free (sb + j * bs) bs (sb + Suc i * bs) (?m, ?b, c + 1)"
    using bs by (subst sweep_free.simps) (simp add: ac_simps)
  moreover have "rev [i..<j] = rev [Suc i..<j] @ [i]" using ij by (simp add: upt_rec)
  moreover have "a \<in> (\<lambda>k. sb + k * bs) ` {i..<j}" if "m' a \<noteq> m a" for a
    using IH(3)[rule_format, of a] that ij by (cases "a = ?b") auto
  ultimately show ?case using IH(1,2) ij by (intro exI[of _ m'] exI[of _ fh']) simp
qed

text \<open>The marked blocks of a small superblock, by their indices \<open>ks\<close>.\<close>

lemma same_superblock:
  assumes "SBSIZE dvd sb"
  shows "sb div 2 ^ SB_SHIFT = b div 2 ^ SB_SHIFT \<longleftrightarrow> sb \<le> b \<and> b < sb + SBSIZE"
proof -
  obtain q where q: "sb = SBSIZE * q" using assms by (auto simp: dvd_def)
  have "b div SBSIZE = q \<longleftrightarrow> SBSIZE * q \<le> b \<and> b < SBSIZE * q + SBSIZE"
    by (auto simp: SBSIZE_eq)
  moreover have "sb div SBSIZE = q" by (simp add: q)
  ultimately show ?thesis unfolding SBSIZE_shift[symmetric] q by auto
qed

lemma sweep_marked_stop:
  assumes "SBSIZE dvd sb" and "\<And>b. b \<in> set rest \<Longrightarrow> sb + SBSIZE \<le> b"
  shows "sweep_marked D sb rest acc = Ret (rest, acc)"
proof (cases rest)
  case (Cons b bs)
  then have "sb + SBSIZE \<le> b" using assms(2) by simp
  then have "\<not> sb div 2 ^ SB_SHIFT = b div 2 ^ SB_SHIFT" using same_superblock[OF assms(1)] by simp
  then show ?thesis using Cons by (cases acc) simp
qed simp

lemma sweep_marked_small:
  assumes D: "d_heap D = Some c" "c \<noteq> 0" "d_superblock D = sb" "d_block_size D = bs"
    and bs: "0 < bs" "0 < sb" "SBSIZE dvd sb"
    and rest: "\<And>b. b \<in> set rest \<Longrightarrow> sb + SBSIZE \<le> b"
  shows "sorted_wrt (<) ks \<Longrightarrow> (\<And>k. k \<in> set ks \<Longrightarrow> j \<le> k \<and> k * bs < SBSIZE) \<Longrightarrow>
    nlist m fh xs \<Longrightarrow> distinct xs \<Longrightarrow> set xs \<subseteq> (\<lambda>k. sb + k * bs) ` {..<j} \<Longrightarrow>
    \<exists>m' fh' ys j'. sweep_marked D sb (map (\<lambda>k. sb + k * bs) ks @ rest) (st, sb + j * bs, m, fh, length xs)
        = Ret (rest, (if ks = [] then st else SB_PARTIAL), sb + j' * bs, m', fh', length ys)
      \<and> nlist m' fh' ys \<and> distinct ys
      \<and> set ys = set xs \<union> (\<lambda>k. sb + k * bs) ` ({j..<j'} - set ks)
      \<and> j \<le> j' \<and> (\<forall>k \<in> set ks. k < j') \<and> (ks \<noteq> [] \<longrightarrow> j' \<in> Suc ` set ks) \<and> (ks = [] \<longrightarrow> j' = j)
      \<and> (\<forall>a. m' a \<noteq> m a \<longrightarrow> a \<in> (\<lambda>k. sb + k * bs) ` ({j..<j'} - set ks))"
proof (induction ks arbitrary: st j m fh xs)
  case Nil
  then show ?case using sweep_marked_stop[OF bs(3) rest]
    by (intro exI[of _ m] exI[of _ fh] exI[of _ xs] exI[of _ j]) simp
next
  case (Cons k ks)
  let ?f = "\<lambda>k. sb + k * bs"
  have k: "j \<le> k" "k * bs < SBSIZE" using Cons.prems(2)[of k] by simp_all
  have inj: "?f a = ?f b \<longleftrightarrow> a = b" for a b using bs(1) by simp
  have below: "q < j" if "?f q \<in> set xs" for q
    using that Cons.prems(5) bs(1) by (auto simp: subset_iff)
  then have disj: "set xs \<inter> ?f ` {j..<k} = {}" by fastforce
  obtain m1 fh1 where f1: "sweep_free (?f k) bs (?f j) (m, fh, length xs) = Ret (m1, fh1, length xs + (k - j))"
      "nlist m1 fh1 (map ?f (rev [j..<k]) @ xs)" "\<forall>a. m1 a \<noteq> m a \<longrightarrow> a \<in> ?f ` {j..<k}"
    using sweep_free_spec[OF bs(1) k(1) bs(2) Cons.prems(3) disj, of "length xs"] by (elim exE conjE)
  let ?xs = "map ?f (rev [j..<k]) @ xs"
  have dx: "distinct ?xs" using Cons.prems(4) disj bs(1) by (auto simp: distinct_map inj_on_def)
  have sx: "set ?xs = set xs \<union> ?f ` {j..<k}" by auto
  have up: "?f ` {..<j} \<subseteq> ?f ` {..<Suc k}" "?f ` {j..<k} \<subseteq> ?f ` {..<Suc k}"
    using k(1) by (intro image_mono; force)+
  have sub: "set ?xs \<subseteq> ?f ` {..<Suc k}"
    unfolding sx by (rule Un_least[OF order_trans[OF Cons.prems(5) up(1)] up(2)])
  have so: "sorted_wrt (<) ks" "\<And>q. q \<in> set ks \<Longrightarrow> Suc k \<le> q \<and> q * bs < SBSIZE"
    using Cons.prems(1,2) by auto
  obtain m' fh' ys j' where IH:
      "sweep_marked D sb (map ?f ks @ rest) (SB_PARTIAL, ?f (Suc k), m1, fh1, length ?xs)
        = Ret (rest, SB_PARTIAL, ?f j', m', fh', length ys)"
      "nlist m' fh' ys" "distinct ys" "set ys = set ?xs \<union> ?f ` ({Suc k..<j'} - set ks)"
      "Suc k \<le> j'" "\<forall>q \<in> set ks. q < j'" "ks \<noteq> [] \<longrightarrow> j' \<in> Suc ` set ks" "ks = [] \<longrightarrow> j' = Suc k"
      "\<And>a. m' a \<noteq> m1 a \<Longrightarrow> a \<in> ?f ` ({Suc k..<j'} - set ks)"
    using Cons.IH[OF so f1(2) dx sub, of SB_PARTIAL] unfolding if_cancel by blast
  have idx: "{j..<j'} - set (k # ks) = {j..<k} \<union> ({Suc k..<j'} - set ks)"
  proof (rule set_eqI)
    fix q
    have "q \<in> set ks \<Longrightarrow> k < q" using so(2)[of q] by simp
    then show "q \<in> {j..<j'} - set (k # ks) \<longleftrightarrow> q \<in> {j..<k} \<union> ({Suc k..<j'} - set ks)"
      using k(1) IH(5) by (cases "q \<in> set ks") (simp, simp, linarith)
  qed
  have same: "sb div 2 ^ SB_SHIFT = ?f k div 2 ^ SB_SHIFT" using same_superblock[OF bs(3)] k(2) by simp
  have r1: "sweep_marked D sb (map ?f (k # ks) @ rest) (st, ?f j, m, fh, length xs)
      = Ret (rest, SB_PARTIAL, ?f j', m', fh', length ys)"
    using same D f1(1) IH(1) by (simp add: ac_simps)
  have r2: "set ys = set xs \<union> ?f ` ({j..<j'} - set (k # ks))"
    unfolding idx IH(4) sx image_Un by blast
  have r3: "a \<in> ?f ` ({j..<j'} - set (k # ks))" if "m' a \<noteq> m a" for a
    unfolding idx image_Un using IH(9)[of a] f1(3)[rule_format, of a] that by (cases "m' a = m1 a") auto
  have r4: "j \<le> j'" "\<forall>q \<in> set (k # ks). q < j'" using k(1) IH(5,6) by auto
  have r5: "j' \<in> Suc ` set (k # ks)" using IH(7,8) by (cases "ks = []") auto
  show ?case
    by (rule exI[of _ m'], rule exI[of _ fh'], rule exI[of _ ys], rule exI[of _ j'], intro conjI)
       (use r1 r2 r3 r4 r5 IH(2,3) in simp_all)
qed

text \<open>The list on which the rest of a small superblock is put, and the anchor that results.\<close>

lemma push_anchor:
  "bind_run (heap_push_partial s d) (\<lambda>s2. Ret (upd_desc d (\<lambda>x. x\<lparr>d_anchor := A\<rparr>) s2)) =
   heap_push_partial (upd_desc d (\<lambda>x. x\<lparr>d_anchor := A\<rparr>) s) d"
  by (auto simp: heap_push_partial_def upd_desc_def Let_def assert_run_def fun_eq_iff split: option.split)

lemma push_avail:
  "heap_push_partial (s\<lparr>avail_sb := h\<rparr>) d = bind_run (heap_push_partial s d) (\<lambda>s'. Ret (s'\<lparr>avail_sb := h\<rparr>))"
  by (auto simp: heap_push_partial_def upd_desc_def Let_def assert_run_def split: option.split)

definition swept_anchor :: "nat \<Rightarrow> nat \<Rightarrow> nat \<Rightarrow> nat list \<Rightarrow> Anchor" where
  "swept_anchor sb bs bn ys =
     (if ys = [] then \<lparr>avail = bn, count = 0, state = SB_FULL\<rparr>
      else \<lparr>avail = (hd ys - sb) div bs, count = length ys, state = SB_PARTIAL\<rparr>)"

definition swept_desc :: "nat \<Rightarrow> nat \<Rightarrow> nat \<Rightarrow> nat list \<Rightarrow> Descriptor \<Rightarrow> Descriptor" where
  "swept_desc sb bs bn ys x =
     (if ys = [] then x\<lparr>d_next_free := 0, d_next_partial := 0, d_anchor := swept_anchor sb bs bn ys\<rparr>
      else x\<lparr>d_next_free := 0, d_anchor := swept_anchor sb bs bn ys\<rparr>)"

lemma swept_desc_simps [simp]:
  "d_anchor (swept_desc sb bs bn ys x) = swept_anchor sb bs bn ys"
  "d_heap (swept_desc sb bs bn ys x) = d_heap x" "d_block_size (swept_desc sb bs bn ys x) = d_block_size x"
  "d_maxcount (swept_desc sb bs bn ys x) = d_maxcount x" "d_superblock (swept_desc sb bs bn ys x) = d_superblock x"
  by (simp_all add: swept_desc_def)

lemma sweep_small_spec:
  assumes D: "d_maxcount (descs s d) = bn" "d_block_size (descs s d) = bs"
    and bs: "0 < bs" "0 < sb" "bn * bs \<le> SBSIZE" and j: "j \<le> bn"
    and xs: "nlist (mem s) fh xs" "distinct xs" "set xs = (\<lambda>k. sb + k * bs) ` ({..<j} - ks)"
    and ks: "\<And>k. k \<in> ks \<Longrightarrow> k < j"
  shows "\<exists>m ys. nlist m (if ys = [] then 0 else hd ys) ys \<and> distinct ys
    \<and> set ys = (\<lambda>k. sb + k * bs) ` ({..<bn} - ks)
    \<and> (\<forall>a. m a \<noteq> mem s a \<longrightarrow> a \<in> (\<lambda>k. sb + k * bs) ` ({..<bn} - ks))
    \<and> sweep_small s sb d (sb + j * bs) fh (length xs) =
        (let s' = upd_desc d (swept_desc sb bs bn ys) (s\<lparr>mem := m\<rparr>)
         in if ys = [] then Ret s' else heap_push_partial s' d)"
proof -
  let ?f = "\<lambda>k. sb + k * bs"
  have "q < j" if "?f q \<in> set xs" for q using that bs(1) xs(3) by auto
  then have disj: "set xs \<inter> ?f ` {j..<bn} = {}" by fastforce
  obtain m fh' where f: "sweep_free (?f bn) bs (?f j) (mem s, fh, length xs) = Ret (m, fh', length xs + (bn - j))"
      "nlist m fh' (map ?f (rev [j..<bn]) @ xs)" "\<forall>a. m a \<noteq> mem s a \<longrightarrow> a \<in> ?f ` {j..<bn}"
    using sweep_free_spec[OF bs(1) j bs(2) xs(1) disj, of "length xs"] by (elim exE conjE)
  define ys where "ys = map ?f (rev [j..<bn]) @ xs"
  have len: "length ys = length xs + (bn - j)" by (simp add: ys_def)
  have dy: "distinct ys" unfolding ys_def using xs(2) disj bs(1) by (auto simp: distinct_map inj_on_def)
  have idx: "{..<bn} - ks = ({..<j} - ks) \<union> {j..<bn}"
  proof (rule set_eqI)
    show "q \<in> {..<bn} - ks \<longleftrightarrow> q \<in> ({..<j} - ks) \<union> {j..<bn}" for q
      using ks[of q] j by (cases "q \<in> ks") auto
  qed
  have sy: "set ys = ?f ` ({..<bn} - ks)" unfolding idx image_Un ys_def using xs(3) by auto
  have fh': "fh' = (if ys = [] then 0 else hd ys)" using f(2)[folded ys_def] by (cases ys) auto
  have lim: "bn * bs mod 4294967296 = bn * bs" using bs(3) by (simp add: SBSIZE_eq)
  have diff: "a \<in> ?f ` ({..<bn} - ks)" if "m a \<noteq> mem s a" for a
    unfolding idx image_Un using f(3) that by blast
  have run: "sweep_small s sb d (?f j) fh (length xs) =
        (let s' = upd_desc d (swept_desc sb bs bn ys) (s\<lparr>mem := m\<rparr>)
         in if ys = [] then Ret s' else heap_push_partial s' d)"
  proof (cases "ys = []")
    case True
    then have "length xs + (bn - j) = 0" using len by (metis list.size(3))
    then show ?thesis using True f(1)
      by (simp add: sweep_small_def Let_def lim D swept_desc_def swept_anchor_def upd_desc_def)
  next
    case False
    then have ne: "length xs + (bn - j) \<noteq> 0" using len by (metis length_0_conv)
    have "hd ys \<in> set ys" using False by (rule hd_in_set)
    then obtain k where k: "k < bn" "fh' = ?f k" unfolding sy using False fh' by auto
    then have as: "fh' \<noteq> 0" "(fh' - sb) mod bs = 0" using bs by simp_all
    define N where "N = length xs + (bn - j)"
    let ?A = "\<lparr>avail = (fh' - sb) div bs, count = N, state = SB_PARTIAL\<rparr>"
    have "sweep_small s sb d (?f j) fh (length xs) =
      bind_run (heap_push_partial (upd_desc d (\<lambda>x. x\<lparr>d_next_free := 0\<rparr>) (s\<lparr>mem := m\<rparr>)) d)
        (\<lambda>s2. Ret (upd_desc d (\<lambda>x. x\<lparr>d_anchor := ?A\<rparr>) s2))"
      using f(1)[folded N_def] ne[folded N_def] as by (simp add: sweep_small_def Let_def lim D)
    also have "\<dots> = heap_push_partial (upd_desc d (\<lambda>x. x\<lparr>d_anchor := ?A\<rparr>)
        (upd_desc d (\<lambda>x. x\<lparr>d_next_free := 0\<rparr>) (s\<lparr>mem := m\<rparr>))) d"
      by (rule push_anchor)
    also have "upd_desc d (\<lambda>x. x\<lparr>d_anchor := ?A\<rparr>) (upd_desc d (\<lambda>x. x\<lparr>d_next_free := 0\<rparr>) (s\<lparr>mem := m\<rparr>)) =
      upd_desc d (swept_desc sb bs bn ys) (s\<lparr>mem := m\<rparr>)"
      using False fh' len[folded N_def] by (simp add: upd_desc_def swept_desc_def swept_anchor_def fun_eq_iff)
    finally show ?thesis using False by (simp add: Let_def)
  qed
  show ?thesis
    by (rule exI[of _ m], rule exI[of _ ys], intro conjI)
       (use f(2)[folded ys_def] fh' dy sy diff run in simp_all)
qed

section \<open>The heap a sweep rebuilds\<close>

text \<open>
  What of a heap the collection relies on: the region, the starts of the regions and, for every
  superblock in use, the fields of its descriptor that are written once and flushed.
\<close>

definition persisted :: "ralloc \<Rightarrow> nat \<Rightarrow> (nat \<Rightarrow> sbkind) \<Rightarrow> bool" where
  "persisted s n K \<longleftrightarrow>
     geo s n K \<and>
     (\<forall>i. let d = descs s (dA (desc_start s) i)
          in case K i of
               SbSmall c \<Rightarrow> d_heap d = Some c \<and> d_block_size d = bs_of c \<and> d_maxcount d = bn_of c \<and>
                 d_superblock d = sbA (sb_start s) i
             | SbLarge m \<Rightarrow> d_heap d = Some 0 \<and> d_block_size d = m * SBSIZE \<and> d_maxcount d = 1 \<and>
                 d_superblock d = sbA (sb_start s) i
             | _ \<Rightarrow> True)"

text \<open>The use of a superblock after a collection that marked the blocks \<open>M\<close>.\<close>

definition rec_kind :: "nat \<Rightarrow> (nat \<Rightarrow> sbkind) \<Rightarrow> nat set \<Rightarrow> nat \<Rightarrow> sbkind" where
  "rec_kind st K M i =
     (case K i of
        Unmapped \<Rightarrow> Unmapped
      | SbSmall c \<Rightarrow> if blocks st K i \<inter> M = {} then SbFree else SbSmall c
      | SbLarge m \<Rightarrow> if sbA st i \<in> M then SbLarge m else SbFree
      | SbTail \<Rightarrow> if \<exists>j m. K j = SbLarge m \<and> j < i \<and> i < j + m \<and> sbA st j \<in> M then SbTail else SbFree
      | _ \<Rightarrow> SbFree)"

definition rec_own :: "nat \<Rightarrow> (nat \<Rightarrow> sbkind) \<Rightarrow> nat set \<Rightarrow> nat \<Rightarrow> owner" where
  "rec_own st R M a = (if \<exists>j. a \<in> blocks st R j then if a \<in> M then Live else InSb else NoBlock)"

text \<open>The uses while the superblocks below \<open>i\<close> have been swept.\<close>

definition part_kind :: "(nat \<Rightarrow> sbkind) \<Rightarrow> nat \<Rightarrow> nat \<Rightarrow> sbkind" where
  "part_kind R i j = (if j < i \<or> R j = Unmapped then R j else SbTaken)"

text \<open>The marked blocks: in ascending order, and each the start of a block.\<close>

definition marks_ok :: "nat \<Rightarrow> (nat \<Rightarrow> sbkind) \<Rightarrow> nat list \<Rightarrow> bool" where
  "marks_ok st K ms \<longleftrightarrow> sorted_wrt (<) ms \<and> (\<forall>a \<in> set ms. \<exists>i. a \<in> blocks st K i)"

lemma rec_kind_iff:
  "rec_kind st K M i = Unmapped \<longleftrightarrow> K i = Unmapped"
  "rec_kind st K M i = SbSmall c \<longleftrightarrow> K i = SbSmall c \<and> blocks st K i \<inter> M \<noteq> {}"
  "rec_kind st K M i = SbLarge m \<longleftrightarrow> K i = SbLarge m \<and> sbA st i \<in> M"
  "rec_kind st K M i = SbTail \<longleftrightarrow>
     K i = SbTail \<and> (\<exists>j m. K j = SbLarge m \<and> j < i \<and> i < j + m \<and> sbA st j \<in> M)"
  "rec_kind st K M i \<noteq> SbTaken"
  by (cases "K i"; simp add: rec_kind_def; fail)+

lemma rec_kind_cases:
  assumes "geo s n K" and "0 < i" "i < n"
  obtains (free) "rec_kind st K M i = SbFree"
  | (small) c where "K i = SbSmall c" "rec_kind st K M i = SbSmall c" "blocks st K i \<inter> M \<noteq> {}"
  | (large) m where "K i = SbLarge m" "rec_kind st K M i = SbLarge m" "sbA st i \<in> M"
  | (tail) "rec_kind st K M i = SbTail"
proof -
  have u: "K i \<noteq> Unmapped" using assms unfolding geo_def by force
  show thesis
  proof (cases "rec_kind st K M i")
    case (SbSmall c)
    then show thesis using small rec_kind_iff(2)[of st K M i c] by blast
  next
    case (SbLarge m)
    then show thesis using large rec_kind_iff(3)[of st K M i m] by blast
  qed (use u free tail rec_kind_iff(1,5)[of st K M i] in auto)
qed

lemma blocks_rec:
  "blocks st (rec_kind st K M) i = (if blocks st K i \<inter> M = {} then {} else blocks st K i)"
  by (cases "K i") (auto simp: blocks_def rec_kind_def)

lemma geo_rec:
  assumes "geo s n K"
  shows "geo s n (rec_kind st K M)"
proof -
  let ?R = "rec_kind st K M"
  note g = assms[unfolded geo_def] and la = rec_kind_iff(3)[THEN iffD1]
  have "?R (i + j) = SbTail" if "?R i = SbLarge m" "0 < j" "j < m" for i j m
  proof -
    have "K (i + j) = SbTail" using g la[OF that(1)] that(2,3) by blast
    moreover have "i < i + j" "i + j < i + m" using that(2,3) by simp_all
    ultimately show ?thesis using la[OF that(1)] rec_kind_iff(4)[of st K M "i + j"] by blast
  qed
  moreover have "0 < m \<and> m < 65536" if "?R i = SbLarge m" for i m using g la[OF that] by blast
  moreover have "1 \<le> c \<and> c < MAX_SZ_IDX" if "?R i = SbSmall c" for i c
    using g that unfolding rec_kind_iff by blast
  moreover have "?R i = Unmapped \<longleftrightarrow> i = 0 \<or> n \<le> i" for i using g rec_kind_iff(1)[of st K M i] by blast
  moreover have "\<exists>j m. ?R j = SbLarge m \<and> j < i \<and> i < j + m" if "?R i = SbTail" for i
    using that unfolding rec_kind_iff by blast
  ultimately show ?thesis using g unfolding geo_def by blast
qed

end
