(* ===== verification/RecoverySweep.thy ===== *)
theory RecoverySweep
  imports RecoveryOps
begin

text \<open>
  The sweep as a whole: its loop invariant, that every round preserves it, and what the heap is
  when the loop ends.
\<close>

section \<open>The loop invariant\<close>

text \<open>
  \<open>z\<close> is the heap the collection starts from and \<open>i\<close> the index of \<^verbatim>\<open>curr_sb\<close>. With the
  local list \<open>av\<close> as its list of free superblocks the heap satisfies the allocator's invariant,
  the superblocks from \<open>i\<close> on being in no list; their descriptors are as at the start.
\<close>

definition sweep_inv :: "ralloc \<Rightarrow> nat \<Rightarrow> (nat \<Rightarrow> sbkind) \<Rightarrow> nat list \<Rightarrow> nat \<Rightarrow> sweep_state \<Rightarrow> bool" where
  "sweep_inv z n K M i q =
     (case q of (s, sb, d, ms, av) \<Rightarrow>
        let st = sb_start z; R = rec_kind st K (set M); P = part_kind R i
        in heap_inv (s\<lparr>avail_sb := head_set av 0\<rparr>) n P (rec_own st P (set M)) {} \<and>
           sb = sbA st i \<and> d = dA (desc_start z) i \<and> ms = filter (\<lambda>a. sbA st i \<le> a) M \<and>
           same_base z s \<and> sb_region s = sb_region z \<and>
           (\<forall>j \<ge> i. descs s (dA (desc_start z) j) = descs z (dA (desc_start z) j)) \<and>
           (\<forall>b. mem s b \<noteq> mem z b \<longrightarrow> b \<notin> set M \<and> (\<exists>j. b \<in> blocks st P j)) \<and>
           0 < i \<and> i \<le> n \<and> R i \<noteq> SbTail)"

section \<open>Marked blocks by superblock\<close>

lemma sbA_Suc: "sbA st (Suc i) = sbA st i + SBSIZE" by (simp add: sbA_def)

lemma filter_split:
  fixes M :: "nat list"
  assumes "sorted_wrt (<) M" and "x \<le> y"
  shows "filter (\<lambda>a. x \<le> a) M = filter (\<lambda>a. x \<le> a \<and> a < y) M @ filter (\<lambda>a. y \<le> a) M"
  using assms(1)
proof (induction M)
  case (Cons a M)
  show ?case
  proof (cases "y \<le> a")
    case True
    then have "\<not> (x \<le> b \<and> b < y)" if "b \<in> set M" for b using Cons.prems that by auto
    then have "filter (\<lambda>a. x \<le> a \<and> a < y) M = []" by (simp add: filter_empty_conv)
    then show ?thesis using Cons True assms(2) by auto
  next
    case False
    then show ?thesis using Cons by auto
  qed
qed simp

lemma filter_single: "distinct M \<Longrightarrow> x \<in> set M \<Longrightarrow> filter (\<lambda>a. a \<in> {x}) M = [x]"
proof (induction M)
  case (Cons a M)
  show ?case
  proof (cases "a = x")
    case True
    then have "filter (\<lambda>a. a \<in> {x}) M = []" using Cons.prems(1) by (auto simp: filter_empty_conv)
    then show ?thesis using True by simp
  qed (use Cons in simp)
qed simp

lemma marks_in_sb:
  assumes geo: "geo s n K" and M: "marks_ok st K M" and a: "a \<in> set M"
  shows "sbA st i \<le> a \<and> a < sbA st (Suc i) \<longleftrightarrow> a \<in> blocks st K i"
proof -
  have Suc: "sbA st (Suc i) = sbA st i + SBSIZE" by (simp add: sbA_def)
  obtain j where j: "a \<in> blocks st K j" using M a unfolding marks_ok_def by blast
  show ?thesis unfolding Suc
    using sb_index_unique[of st i a j] blocks_range[OF geo j] blocks_range[OF geo, of a st i] j by blast
qed

lemma marks_split:
  assumes geo: "geo s n K" and M: "marks_ok st K M"
  shows "filter (\<lambda>a. sbA st i \<le> a) M =
    filter (\<lambda>a. a \<in> blocks st K i) M @ filter (\<lambda>a. sbA st (Suc i) \<le> a) M"
proof -
  have "sorted_wrt (<) M" using M by (simp add: marks_ok_def)
  moreover have "sbA st i \<le> sbA st (Suc i)" by (simp add: sbA_def)
  ultimately have "filter (\<lambda>a. sbA st i \<le> a) M =
    filter (\<lambda>a. sbA st i \<le> a \<and> a < sbA st (Suc i)) M @ filter (\<lambda>a. sbA st (Suc i) \<le> a) M"
    by (rule filter_split)
  also have "filter (\<lambda>a. sbA st i \<le> a \<and> a < sbA st (Suc i)) M = filter (\<lambda>a. a \<in> blocks st K i) M"
    by (rule filter_cong) (use marks_in_sb[OF geo M] in auto)
  finally show ?thesis .
qed

text \<open>No tail of a large block follows anything but that block or another of its tails.\<close>

lemma rec_tail_prev:
  assumes geo: "geo s n K" and t: "rec_kind st K M (Suc i) = SbTail"
  shows "rec_kind st K M i = SbTail \<or> (\<exists>m. rec_kind st K M i = SbLarge m)"
proof -
  obtain j m where j: "rec_kind st K M j = SbLarge m" "j < Suc i" "Suc i < j + m"
    using t unfolding rec_kind_iff by blast
  show ?thesis
  proof (cases "j = i")
    case False
    then have "0 < i - j" "i - j < m" using j by simp_all
    then have "rec_kind st K M (j + (i - j)) = SbTail"
      using geo_rec[OF geo, of st M] j(1) unfolding geo_def by blast
    then show ?thesis using j by simp
  qed (use j in blast)
qed

lemma rec_after_large:
  assumes geo: "geo s n K" and l: "rec_kind st K M i = SbLarge m"
  shows "i + m \<le> n" and "rec_kind st K M (i + m) \<noteq> SbTail"
    and "\<And>j. i < j \<Longrightarrow> j < i + m \<Longrightarrow> rec_kind st K M j = SbTail"
proof -
  let ?R = "rec_kind st K M"
  note g = geo_rec[OF geo, of st M, unfolded geo_def]
  have m: "0 < m" using g l by blast
  show tl: "?R j = SbTail" if "i < j" "j < i + m" for j
  proof -
    have "0 < j - i" "j - i < m" using that by simp_all
    then have "?R (i + (j - i)) = SbTail" using g l by blast
    then show ?thesis using that by simp
  qed
  have u: "?R j = Unmapped \<longleftrightarrow> j = 0 \<or> n \<le> j" for j using g by blast
  have "?R (i + m - 1) \<noteq> Unmapped" using tl[of "i + m - 1"] l m by (cases "m = 1") auto
  then have "\<not> n \<le> i + m - 1" using u[of "i + m - 1"] by blast
  then show "i + m \<le> n" using m by linarith
  show "?R (i + m) \<noteq> SbTail"
  proof
    assume "?R (i + m) = SbTail"
    then obtain j q where j: "?R j = SbLarge q" "j < i + m" "i + m < j + q"
      using g by blast
    consider "j = i" | "i < j" | "j < i" by linarith
    then show False
    proof cases
      case 1 then show False using j l by simp
    next
      case 2 then show False using tl[of j] j by simp
    next
      case 3
      then have "0 < i - j" "i - j < q" using j by simp_all
      then have "?R (j + (i - j)) = SbTail" using g j(1) by blast
      then show False using 3 l by simp
    qed
  qed
qed

section \<open>Kinds and owners as the sweep goes on\<close>

lemma part_kind_Suc: "part_kind R (Suc i) = (part_kind R i)(i := R i)"
  by (auto simp: part_kind_def fun_eq_iff less_Suc_eq)

lemma part_kind_self: "R i \<noteq> Unmapped \<Longrightarrow> part_kind R i i = SbTaken"
  by (simp add: part_kind_def)

lemma rec_own_step:
  assumes "blocks st P i = {}" and "\<And>j. blocks st P' j = (if j = i then B else blocks st P j)"
  shows "rec_own st P' M = (\<lambda>a. if a \<in> B then if a \<in> M then Live else InSb else rec_own st P M a)"
proof
  fix a
  have "(\<exists>j. a \<in> blocks st P' j) \<longleftrightarrow> a \<in> B \<or> (\<exists>j. a \<in> blocks st P j)"
    unfolding assms(2) using assms(1) by (metis empty_iff)
  then show "rec_own st P' M a = (if a \<in> B then if a \<in> M then Live else InSb else rec_own st P M a)"
    by (auto simp: rec_own_def)
qed

section \<open>A round\<close>

lemma sweep_invD:
  assumes "sweep_inv z n K M i (s, sb, d, ms, av)"
  defines "st \<equiv> sb_start z"
  defines "P \<equiv> part_kind (rec_kind st K (set M)) i"
  shows "heap_inv (s\<lparr>avail_sb := head_set av 0\<rparr>) n P (rec_own st P (set M)) {}"
    "sb = sbA st i" "d = dA (desc_start z) i" "ms = filter (\<lambda>a. sbA st i \<le> a) M"
    "same_base z s" "sb_region s = sb_region z"
    "\<And>j. i \<le> j \<Longrightarrow> descs s (dA (desc_start z) j) = descs z (dA (desc_start z) j)"
    "\<And>b. mem s b \<noteq> mem z b \<Longrightarrow> b \<notin> set M \<and> (\<exists>j. b \<in> blocks st P j)"
    "0 < i" "i \<le> n" "rec_kind st K (set M) i \<noteq> SbTail"
  using assms(1) by (simp_all add: sweep_inv_def Let_def st_def P_def)

lemma sweep_invI:
  assumes "heap_inv (s\<lparr>avail_sb := head_set av 0\<rparr>) n P (rec_own (sb_start z) P (set M)) {}"
    and "P = part_kind (rec_kind (sb_start z) K (set M)) i"
    and "sb = sbA (sb_start z) i" "d = dA (desc_start z) i" "ms = filter (\<lambda>a. sbA (sb_start z) i \<le> a) M"
    and "same_base z s" "sb_region s = sb_region z"
    and "\<And>j. i \<le> j \<Longrightarrow> descs s (dA (desc_start z) j) = descs z (dA (desc_start z) j)"
    and "\<And>b. mem s b \<noteq> mem z b \<Longrightarrow> b \<notin> set M \<and> (\<exists>j. b \<in> blocks (sb_start z) P j)"
    and "0 < i" "i \<le> n" "rec_kind (sb_start z) K (set M) i \<noteq> SbTail"
  shows "sweep_inv z n K M i (s, sb, d, ms, av)"
  unfolding sweep_inv_def Let_def prod.case using assms by blast

lemma organize_one:
  "organize_sb_list s a 1 =
     (upd_desc (desc_lookup s a) (\<lambda>_. Descriptor_init\<lparr>d_next_free := h_ptr (avail_sb s)\<rparr>) s)
       \<lparr>avail_sb := head_set (desc_lookup s a) (h_cnt (avail_sb s) + 1)\<rparr>"
  by (simp add: organize_sb_list_def upd_desc_def Let_def)

lemma descs_upd: "descs (upd_desc d g s) x = (if x = d then g (descs s d) else descs s x)"
  by (simp add: upd_desc_def)

lemma head_set_ptr [simp]: "h_ptr (head_set p k) = p" by (simp add: head_set_def)

lemma sweep_step_free:
  assumes geo: "geo z n K" and M: "marks_ok (sb_start z) K M"
    and inv: "sweep_inv z n K M i q" and i: "i < n"
    and R: "rec_kind (sb_start z) K (set M) i = SbFree"
  shows "\<exists>q'. sweep_one q = Ret q' \<and> sweep_inv z n K M (Suc i) q'"
proof -
  obtain s sb d ms av where q: "q = (s, sb, d, ms, av)" by (cases q)
  let ?st = "sb_start z"
  let ?R = "rec_kind ?st K (set M)"
  let ?P = "part_kind ?R i"
  let ?S = "s\<lparr>avail_sb := head_set av 0\<rparr>"
  note f = sweep_invD[OF inv[unfolded q]]
  have st: "sb_start ?S = ?st" "desc_start ?S = desc_start z" using f(5) by (simp_all add: same_base_def)
  have dv: "SBSIZE dvd ?st" using geo by (simp add: geo_def)
  have dvi: "SBSIZE dvd sbA ?st i" using dv by (simp add: sbA_def)
  have "blocks ?st K i \<inter> set M = {}"
    using blocks_rec[of ?st K "set M" i] R by (auto simp: blocks_def split: if_splits)
  then have "filter (\<lambda>a. a \<in> blocks ?st K i) M = []" by (auto simp: filter_empty_conv)
  then have ms: "ms = filter (\<lambda>a. sbA ?st (Suc i) \<le> a) M" using f(4) marks_split[OF geo M, of i] by simp
  have "sbA ?st i + SBSIZE \<le> b" if "b \<in> set ms" for b using that by (simp add: ms sbA_def)
  then have stop: "sweep_marked D sb ms acc = Ret (ms, acc)" for D acc
    unfolding f(2) by (rule sweep_marked_stop[OF dvi])
  let ?s = "upd_desc d (\<lambda>_. Descriptor_init\<lparr>d_next_free := av\<rparr>) s"
  have one: "sweep_one q = Ret (?s, sb + SBSIZE, d + DESCSIZE, ms, d)"
    by (simp add: q sweep_one_def stop Let_def)
  have tk: "?P i = SbTaken" using R by (simp add: part_kind_self)
  have tk1: "?P j = SbTaken" if "i \<le> j" "j < i + 1" for j using tk that by (cases "j = i") simp_all
  have "desc_lookup ?S (sbA ?st i) = d"
    using desc_lookup_sbA[of ?S i] dv f(3) by (simp only: st)
  then have org: "organize_sb_list ?S (sbA ?st i) 1 = ?s\<lparr>avail_sb := head_set d (0 mod 2 ^ 34 + 1)\<rparr>"
    unfolding organize_one by (simp add: upd_desc_def head_set_def)
  have K': "(\<lambda>j. if i \<le> j \<and> j < i + 1 then SbFree else ?P j) = part_kind ?R (Suc i)"
    unfolding part_kind_Suc using R by (auto simp: fun_eq_iff)
  have "heap_inv (organize_sb_list ?S (sbA ?st i) 1) n (part_kind ?R (Suc i)) (rec_own ?st ?P (set M)) {}"
    using inv_organize[OF f(1) zero_less_one, of i, OF tk1] unfolding st K' .
  moreover have bl: "blocks ?st (part_kind ?R (Suc i)) j = blocks ?st ?P j" for j
    using tk R by (simp add: part_kind_Suc blocks_def)
  then have "rec_own ?st ?P (set M) = rec_own ?st (part_kind ?R (Suc i)) (set M)"
    by (simp add: rec_own_def fun_eq_iff)
  ultimately have "heap_inv (?s\<lparr>avail_sb := head_set d 0\<rparr>) n (part_kind ?R (Suc i))
      (rec_own ?st (part_kind ?R (Suc i)) (set M)) {}"
    unfolding org by (intro inv_avail_cnt[where h = "head_set d (0 mod 2 ^ 34 + 1)" and h' = "head_set d 0"]) simp_all
  moreover have "?R (Suc i) \<noteq> SbTail" using rec_tail_prev[OF geo, of ?st "set M" i] R by auto
  moreover have "b \<notin> set M \<and> (\<exists>j. b \<in> blocks ?st (part_kind ?R (Suc i)) j)" if "mem ?s b \<noteq> mem z b" for b
    using f(8)[of b] that unfolding bl by simp
  ultimately have "sweep_inv z n K M (Suc i) (?s, sb + SBSIZE, d + DESCSIZE, ms, d)"
    using f(6,7) i same_base_trans[OF f(5), of ?s]
    by (intro sweep_invI[OF _ refl]) (simp_all add: f(2,3) ms dA_Suc sbA_Suc descs_upd)
  with one show ?thesis by (intro exI conjI)
qed

lemma persistedD:
  assumes "persisted z n K"
  defines "D \<equiv> \<lambda>i. descs z (dA (desc_start z) i)"
  shows "geo z n K"
    "\<And>i c. K i = SbSmall c \<Longrightarrow> d_heap (D i) = Some c \<and> d_block_size (D i) = bs_of c \<and>
       d_maxcount (D i) = bn_of c \<and> d_superblock (D i) = sbA (sb_start z) i"
    "\<And>i m. K i = SbLarge m \<Longrightarrow> d_heap (D i) = Some 0 \<and> d_block_size (D i) = m * SBSIZE \<and>
       d_maxcount (D i) = 1 \<and> d_superblock (D i) = sbA (sb_start z) i"
proof -
  show "geo z n K" using assms(1) by (simp add: persisted_def)
  have all: "case K i of
       SbSmall c \<Rightarrow> d_heap (D i) = Some c \<and> d_block_size (D i) = bs_of c \<and> d_maxcount (D i) = bn_of c \<and>
         d_superblock (D i) = sbA (sb_start z) i
     | SbLarge m \<Rightarrow> d_heap (D i) = Some 0 \<and> d_block_size (D i) = m * SBSIZE \<and> d_maxcount (D i) = 1 \<and>
         d_superblock (D i) = sbA (sb_start z) i
     | _ \<Rightarrow> True" for i
    using assms(1) unfolding persisted_def Let_def D_def by blast
  show "d_heap (D i) = Some c \<and> d_block_size (D i) = bs_of c \<and>
       d_maxcount (D i) = bn_of c \<and> d_superblock (D i) = sbA (sb_start z) i" if "K i = SbSmall c" for i c
    using all[of i] that by simp
  show "d_heap (D i) = Some 0 \<and> d_block_size (D i) = m * SBSIZE \<and>
       d_maxcount (D i) = 1 \<and> d_superblock (D i) = sbA (sb_start z) i" if "K i = SbLarge m" for i m
    using all[of i] that by simp
qed

text \<open>A superblock in no list: a write to its descriptor, to be completed by a change of its use.\<close>

lemma inv_desc_taken:
  assumes inv: "heap_inv s n K W X" and tk: "K i = SbTaken"
  shows "heap_inv (upd_desc (dA (desc_start s) i) g s) n K W X"
  unfolding upd_desc_def by (rule inv_descs_frame[OF inv]) (use tk in \<open>auto simp: used_desc_def\<close>)

lemma upd_desc_avail: "upd_desc d g (s\<lparr>avail_sb := h\<rparr>) = (upd_desc d g s)\<lparr>avail_sb := h\<rparr>"
  by (simp add: upd_desc_def)

lemma upd_desc_avail_mem:
  "upd_desc d g (s\<lparr>avail_sb := h, mem := m\<rparr>) = (upd_desc d g (s\<lparr>mem := m\<rparr>))\<lparr>avail_sb := h\<rparr>"
  by (simp add: upd_desc_def)

lemma push_partial_descs: "heap_push_partial s d = Ret s' \<Longrightarrow> x \<noteq> d \<Longrightarrow> descs s' x = descs s x"
  by (auto simp: heap_push_partial_def Let_def run_simps upd_desc_def split: option.splits)

lemma part_kind_large:
  assumes geo: "geo s n K" and l: "rec_kind st K M i = SbLarge m"
  defines "R \<equiv> rec_kind st K M"
  shows "part_kind R (i + m) =
    (\<lambda>j. if j = i then SbLarge m else if i < j \<and> j < i + m then SbTail else part_kind R i j)"
    and "\<And>j. i \<le> j \<Longrightarrow> j < i + m \<Longrightarrow> part_kind R i j = SbTaken"
proof -
  have m: "0 < m" using geo_rec[OF geo, of st M] l unfolding geo_def by blast
  note tl = rec_after_large(3)[OF geo l, folded R_def]
  show "part_kind R (i + m) =
    (\<lambda>j. if j = i then SbLarge m else if i < j \<and> j < i + m then SbTail else part_kind R i j)"
    using tl l m by (auto simp: part_kind_def R_def fun_eq_iff)
  show "part_kind R i j = SbTaken" if "i \<le> j" "j < i + m" for j
    using tl[of j] l that by (cases "j = i") (auto simp: part_kind_def R_def)
qed

lemma sweep_step_large:
  assumes pers: "persisted z n K" and M: "marks_ok (sb_start z) K M"
    and inv: "sweep_inv z n K M i q" and R: "rec_kind (sb_start z) K (set M) i = SbLarge m"
  shows "\<exists>q'. sweep_one q = Ret q' \<and> sweep_inv z n K M (i + m) q'"
proof -
  obtain s sb d ms av where q: "q = (s, sb, d, ms, av)" by (cases q)
  let ?st = "sb_start z"
  let ?R = "rec_kind ?st K (set M)"
  let ?P = "part_kind ?R i"
  let ?P' = "part_kind ?R (i + m)"
  let ?S = "s\<lparr>avail_sb := head_set av 0\<rparr>"
  note f = sweep_invD[OF inv[unfolded q]]
  note geo = persistedD(1)[OF pers]
  have Ki: "K i = SbLarge m" "sbA ?st i \<in> set M" using R unfolding rec_kind_iff by simp_all
  have m: "0 < m" "m < 65536" using geo Ki(1) unfolding geo_def by blast+
  have st: "sb_start s = ?st" "desc_start s = desc_start z" using f(5) by (simp_all add: same_base_def)
  have dv: "SBSIZE dvd ?st" using geo by (simp add: geo_def)
  have dvi: "SBSIZE dvd sbA ?st i" using dv by (simp add: sbA_def)
  have D: "d_heap (descs s d) = Some 0" "d_block_size (descs s d) = m * SBSIZE"
      "d_maxcount (descs s d) = 1" "d_superblock (descs s d) = sbA ?st i"
    using persistedD(3)[OF pers Ki(1)] f(7)[of i] unfolding f(3) by simp_all
  have bl: "blocks ?st K i = {sbA ?st i}" using Ki by (simp add: blocks_def)
  have "distinct M" using M by (simp add: marks_ok_def strict_sorted_iff)
  then have "filter (\<lambda>a. a \<in> blocks ?st K i) M = [sbA ?st i]"
    unfolding bl using Ki(2) by (rule filter_single)
  then have ms: "ms = sbA ?st i # filter (\<lambda>a. sbA ?st (Suc i) \<le> a) M"
    using f(4) marks_split[OF geo M, of i] by simp
  let ?ms = "filter (\<lambda>a. sbA ?st (Suc i) \<le> a) M"
  have "sbA ?st i + SBSIZE \<le> b" if "b \<in> set ?ms" for b using that by (simp add: sbA_def)
  then have stop: "sweep_marked D' sb ?ms acc = Ret (?ms, acc)" for D' acc
    unfolding f(2) by (rule sweep_marked_stop[OF dvi])
  have sm: "sweep_marked (descs s d) sb ms (SB_EMPTY, sb, mem s, 0, 0) = Ret (?ms, SB_FULL, sb, mem s, 0, 0)"
    unfolding ms by (simp add: D f(2) stop[unfolded f(2)])
  let ?s = "upd_desc d (\<lambda>x. x\<lparr>d_next_free := 0, d_next_partial := 0,
                          d_anchor := \<lparr>avail = 0, count = 0, state = SB_FULL\<rparr>\<rparr>) s"
  have sb': "sb + m * SBSIZE = sbA ?st (i + m)" by (simp add: f(2) sbA_def algebra_simps)
  have "desc_lookup ?s (sbA ?st (i + m)) = dA (desc_start z) (i + m)"
    using desc_lookup_sbA[of ?s "i + m"] dv by (simp add: st)
  then have one: "sweep_one q = Ret (?s, sbA ?st (i + m), dA (desc_start z) (i + m), ?ms, av)"
    by (simp add: q sweep_one_def sm Let_def D sb')
  note pk = part_kind_large[OF geo R]
  have tk: "?P i = SbTaken" using R by (simp add: part_kind_self)
  have "heap_inv (upd_desc d (\<lambda>x. x\<lparr>d_next_free := 0, d_next_partial := 0,
        d_anchor := \<lparr>avail = 0, count = 0, state = SB_FULL\<rparr>\<rparr>) ?S) n ?P (rec_own ?st ?P (set M)) {}"
    using inv_desc_taken[OF f(1) tk] by (simp add: st f(3))
  then have inv1: "heap_inv (?s\<lparr>avail_sb := head_set av 0\<rparr>) n ?P (rec_own ?st ?P (set M)) {}"
    unfolding upd_desc_avail .
  have "heap_inv (?s\<lparr>avail_sb := head_set av 0\<rparr>) n ?P' ((rec_own ?st ?P (set M))(sbA ?st i := Live)) {}"
    unfolding pk(1)
    using inv_new_large[OF inv1 m pk(2)] D by (simp add: st f(3) upd_desc_def)
  moreover have bl': "blocks ?st ?P' j = (if j = i then {sbA ?st i} else blocks ?st ?P j)" for j
    unfolding pk(1) using pk(2)[of j] by (auto simp: blocks_def)
  have "(rec_own ?st ?P (set M))(sbA ?st i := Live) = rec_own ?st ?P' (set M)"
    using rec_own_step[where P = ?P, OF _ bl', of "set M"] tk Ki(2) by (simp add: blocks_def fun_eq_iff)
  moreover have "filter (\<lambda>a. sbA ?st (Suc i) \<le> a) M = filter (\<lambda>a. sbA ?st (i + m) \<le> a) M"
  proof (rule filter_cong)
    fix a assume a: "a \<in> set M"
    then obtain j where j: "a \<in> blocks ?st K j" using M unfolding marks_ok_def by blast
    have nt: "\<not> (i < j \<and> j < i + m)"
      using rec_after_large(3)[OF geo R, of j] j unfolding rec_kind_iff by (auto simp: blocks_def)
    have le: "sbA ?st k \<le> a \<longleftrightarrow> k \<le> j" for k
      using blocks_range[OF geo j] by (auto simp: sbA_def SBSIZE_eq)
    show "sbA ?st (Suc i) \<le> a \<longleftrightarrow> sbA ?st (i + m) \<le> a" unfolding le using nt m(1) by linarith
  qed simp
  moreover have "b \<notin> set M \<and> (\<exists>j. b \<in> blocks ?st ?P' j)" if ch: "mem ?s b \<noteq> mem z b" for b
  proof -
    obtain j where j: "b \<in> blocks ?st ?P j" "b \<notin> set M" using f(8)[of b] ch by auto
    then have "j \<noteq> i" using tk by (auto simp: blocks_def)
    then have "b \<in> blocks ?st ?P' j" using j(1) unfolding bl' by simp
    then show ?thesis using j(2) by blast
  qed
  ultimately have "sweep_inv z n K M (i + m) (?s, sbA ?st (i + m), dA (desc_start z) (i + m), ?ms, av)"
    using f(6,7) m(1) rec_after_large(1,2)[OF geo R] same_base_trans[OF f(5), of ?s]
    by (intro sweep_invI[OF _ refl]) (simp_all add: f(3) descs_upd)
  with one show ?thesis by (intro exI conjI)
qed

text \<open>A small superblock in use.\<close>

lemma marked_indices:
  assumes geo: "geo s n K" and M: "marks_ok st K M" and Ki: "K i = SbSmall c"
  obtains ks where "filter (\<lambda>a. a \<in> blocks st K i) M = map (\<lambda>k. sbA st i + k * bs_of c) ks"
    "sorted_wrt (<) ks" "\<And>k. k \<in> set ks \<Longrightarrow> k < bn_of c"
proof
  let ?F = "filter (\<lambda>a. a \<in> blocks st K i) M"
  let ?g = "\<lambda>a. (a - sbA st i) div bs_of c"
  note bi = block_index[OF geo Ki]
  have inv: "sbA st i + ?g a * bs_of c = a" if "a \<in> set ?F" for a using bi(3)[of a st] that by simp
  show "?F = map (\<lambda>k. sbA st i + k * bs_of c) (map ?g ?F)"
    unfolding map_map by (rule map_idI[symmetric]) (use inv in simp)
  have c: "0 < bs_of c" using class_pos geo_class[OF geo Ki] by blast
  have less: "?g a < ?g b" if ab: "a \<in> set ?F" "b \<in> set ?F" "a < b" for a b
  proof -
    have "sbA st i + ?g a * bs_of c < sbA st i + ?g b * bs_of c" unfolding inv[OF ab(1)] inv[OF ab(2)] by (rule ab(3))
    then show ?thesis using c by simp
  qed
  have "sorted_wrt (<) ?F" using M by (simp add: marks_ok_def sorted_wrt_filter)
  then show "sorted_wrt (<) (map ?g ?F)"
    unfolding sorted_wrt_map by (rule sorted_wrt_mono_rel[rotated]) (use less in blast)
  show "k < bn_of c" if "k \<in> set (map ?g ?F)" for k using that bi(2) by auto
qed

lemma swept_anchor_ok:
  assumes c: "0 < bs_of c" and B: "B = (\<lambda>k. sbA (sb_start s) i + k * bs_of c) ` {..<bn_of c}"
    and ys: "nlist (mem s) (if ys = [] then 0 else hd ys) ys" "distinct ys" "set ys = B - M"
    and M: "B \<inter> M \<noteq> {}"
  shows "anchor_ok s i c B (B - M) (swept_anchor (sbA (sb_start s) i) (bs_of c) (bn_of c) ys)"
proof (cases "ys = []")
  case True
  then show ?thesis using ys(3) by (simp add: swept_anchor_def anchor_ok_def)
next
  case False
  have "hd ys \<in> B" using ys(3) hd_in_set[OF False] by blast
  then obtain k where k: "k < bn_of c" "hd ys = sbA (sb_start s) i + k * bs_of c" unfolding B by blast
  have av: "(hd ys - sbA (sb_start s) i) div bs_of c = k" using k(2) c by simp
  have "finite B" "card B \<le> bn_of c" unfolding B using card_image_le[of "{..<bn_of c}"] by auto
  moreover have "B - M \<subset> B" using M by blast
  ultimately have "card (set ys) < bn_of c" unfolding ys(3) using psubset_card_mono[of B "B - M"] by linarith
  then have "length ys < bn_of c" using distinct_card[OF ys(2)] by simp
  moreover have "chain (mem s) (hd ys) ys" using nlist_chain[OF ys(1)] False by simp
  ultimately show ?thesis using False ys(2,3) k
    by (auto simp: swept_anchor_def anchor_ok_def av intro!: exI[of _ ys])
qed

lemma sweep_step_small:
  assumes pers: "persisted z n K" and M: "marks_ok (sb_start z) K M"
    and inv: "sweep_inv z n K M i q" and i: "i < n"
    and R: "rec_kind (sb_start z) K (set M) i = SbSmall c"
  shows "\<exists>q'. sweep_one q = Ret q' \<and> sweep_inv z n K M (Suc i) q'"
proof -
  obtain s sb d ms av where q: "q = (s, sb, d, ms, av)" by (cases q)
  let ?st = "sb_start z"
  let ?R = "rec_kind ?st K (set M)"
  let ?P = "part_kind ?R i"
  let ?bs = "bs_of c" and ?bn = "bn_of c"
  let ?f = "\<lambda>k. sbA ?st i + k * ?bs"
  let ?ms = "filter (\<lambda>a. sbA ?st (Suc i) \<le> a) M"
  note f = sweep_invD[OF inv[unfolded q]]
  note geo = persistedD(1)[OF pers]
  have Ki: "K i = SbSmall c" "blocks ?st K i \<inter> set M \<noteq> {}" using R unfolding rec_kind_iff by simp_all
  have c: "1 \<le> c" "c < MAX_SZ_IDX" using geo_class[OF geo Ki(1)] by simp_all
  have bs: "0 < ?bs" "?bn * ?bs \<le> SBSIZE" using class_pos[OF c] blocks_fit[OF c] by simp_all
  have st: "sb_start s = ?st" "desc_start s = desc_start z" using f(5) by (simp_all add: same_base_def)
  have dv: "SBSIZE dvd ?st" "0 < ?st" using geo by (simp_all add: geo_def)
  have dvi: "SBSIZE dvd sbA ?st i" "0 < sbA ?st i" using dv by (simp_all add: sbA_def)
  have D: "d_heap (descs s d) = Some c" "d_block_size (descs s d) = ?bs"
      "d_maxcount (descs s d) = ?bn" "d_superblock (descs s d) = sbA ?st i"
    using persistedD(2)[OF pers Ki(1)] f(7)[of i] unfolding f(3) by simp_all
  have bl: "blocks ?st K i = ?f ` {..<?bn}" using Ki by (simp add: blocks_def)
  obtain ks where ks: "filter (\<lambda>a. a \<in> blocks ?st K i) M = map ?f ks" "sorted_wrt (<) ks"
      "\<And>k. k \<in> set ks \<Longrightarrow> k < ?bn"
    by (rule marked_indices[OF geo M Ki(1)]) (rule that)
  have ms: "ms = map ?f ks @ ?ms" using f(4) marks_split[OF geo M, of i] ks(1) by simp
  have "set (map ?f ks) = blocks ?st K i \<inter> set M" using arg_cong[OF ks(1), of set] by auto
  then have ksM: "?f ` set ks = blocks ?st K i \<inter> set M" by simp
  then have ne: "ks \<noteq> []" using Ki(2) by auto
  have lt: "k * ?bs < SBSIZE" if "k < ?bn" for k
    using mult_less_mono1[OF that bs(1)] bs(2) by linarith
  have rest: "sbA ?st i + SBSIZE \<le> b" if "b \<in> set ?ms" for b using that by (simp add: sbA_def)
  obtain m1 fh1 ys j where s1:
      "sweep_marked (descs s d) (sbA ?st i) (map ?f ks @ ?ms) (SB_EMPTY, ?f 0, mem s, 0, length ([] :: nat list))
        = Ret (?ms, SB_PARTIAL, ?f j, m1, fh1, length ys)"
      "nlist m1 fh1 ys" "distinct ys" "set ys = ?f ` ({0..<j} - set ks)"
      "\<And>k. k \<in> set ks \<Longrightarrow> k < j" "j \<in> Suc ` set ks"
      "\<forall>a. m1 a \<noteq> mem s a \<longrightarrow> a \<in> ?f ` ({0..<j} - set ks)"
  proof -
    have "c \<noteq> 0" using c by simp
    note nz = this
    have "\<exists>m' fh' ys j'. sweep_marked (descs s d) (sbA ?st i) (map ?f ks @ ?ms)
          (SB_EMPTY, ?f 0, mem s, 0, length ([] :: nat list))
        = Ret (?ms, (if ks = [] then SB_EMPTY else SB_PARTIAL), ?f j', m', fh', length ys)
      \<and> nlist m' fh' ys \<and> distinct ys \<and> set ys = set [] \<union> ?f ` ({0..<j'} - set ks)
      \<and> 0 \<le> j' \<and> (\<forall>k \<in> set ks. k < j') \<and> (ks \<noteq> [] \<longrightarrow> j' \<in> Suc ` set ks) \<and> (ks = [] \<longrightarrow> j' = 0)
      \<and> (\<forall>a. m' a \<noteq> mem s a \<longrightarrow> a \<in> ?f ` ({0..<j'} - set ks))"
      by (rule sweep_marked_small[OF D(1) nz D(4,2) bs(1) dvi(2,1) rest ks(2)])
         (use lt ks(3) in simp_all)
    then show thesis using ne by (elim exE conjE) (rule that, simp_all)
  qed
  have j: "j \<le> ?bn" using s1(6) ks(3) by force
  let ?s1 = "s\<lparr>mem := m1\<rparr>"
  have D1: "d_maxcount (descs ?s1 d) = ?bn" "d_block_size (descs ?s1 d) = ?bs" using D by simp_all
  have x1: "nlist (mem ?s1) fh1 ys" "set ys = ?f ` ({..<j} - set ks)"
    using s1(2,4) by (simp_all add: atLeast0LessThan)
  obtain m2 zs where s2: "nlist m2 (if zs = [] then 0 else hd zs) zs" "distinct zs"
      "set zs = ?f ` ({..<?bn} - set ks)"
      "\<And>a. m2 a \<noteq> m1 a \<Longrightarrow> a \<in> ?f ` ({..<?bn} - set ks)"
      "sweep_small ?s1 (sbA ?st i) d (?f j) fh1 (length ys) =
        (let s' = upd_desc d (swept_desc (sbA ?st i) ?bs ?bn zs) (s\<lparr>mem := m2\<rparr>)
         in if zs = [] then Ret s' else heap_push_partial s' d)"
    using sweep_small_spec[OF D1 bs(1) dvi(2) bs(2) j x1(1) s1(3) x1(2) s1(5)] by auto
  have memd: "a \<in> ?f ` ({..<?bn} - set ks)" if "m2 a \<noteq> mem s a" for a
  proof (cases "m2 a = m1 a")
    case True
    then have "a \<in> ?f ` ({0..<j} - set ks)" using s1(7)[rule_format, of a] that by simp
    moreover have "{0..<j} - set ks \<subseteq> {..<?bn} - set ks" using j by auto
    ultimately show ?thesis by blast
  qed (use s2(4) in blast)
  let ?D = "swept_desc (sbA ?st i) ?bs ?bn zs"
  let ?s2 = "upd_desc d ?D (s\<lparr>mem := m2\<rparr>)"
  let ?h = "head_set av 0"
  let ?K = "?P(i := SbSmall c)"
  have tk: "?P i = SbTaken" using R by (simp add: part_kind_self)
  have B: "blocks ?st ?K i = ?f ` {..<?bn}" by (simp add: blocks_def)
  have inj: "inj ?f" using bs(1) by (simp add: inj_def)
  have free: "?f ` ({..<?bn} - set ks) = blocks ?st ?K i - set M"
    unfolding image_set_diff[OF inj] ksM B bl by blast
  have none: "rec_own ?st ?P (set M) a = NoBlock" if "a \<in> blocks ?st ?K i" for a
  proof (rule no_block_in[OF f(1)])
    have "geo (s\<lparr>avail_sb := ?h\<rparr>) n ?K" using geo_upd[OF inv_geo[OF f(1)], of i "SbSmall c"] tk c by simp
    from blocks_range[OF this that]
    show "sbA (sb_start (s\<lparr>avail_sb := ?h\<rparr>)) i \<le> a" "a < sbA (sb_start (s\<lparr>avail_sb := ?h\<rparr>)) i + SBSIZE"
      by (simp_all add: st)
  qed (use tk in \<open>simp add: blocks_def\<close>)
  have "heap_inv ((s\<lparr>avail_sb := ?h\<rparr>)\<lparr>mem := m2\<rparr>) n ?P (rec_own ?st ?P (set M)) {}"
    by (rule inv_mem_frame[OF f(1)]) (use memd none free in auto)
  from inv_desc_taken[OF this tk, of ?D]
  have inv1: "heap_inv (?s2\<lparr>avail_sb := ?h\<rparr>) n ?P (rec_own ?st ?P (set M)) {}"
    by (simp add: st f(3) upd_desc_avail_mem)
  let ?s3 = "?s2\<lparr>avail_sb := ?h\<rparr>"
  have s3: "descs ?s3 (dA (desc_start ?s3) i) = ?D (descs s d)" "sb_start ?s3 = ?st" "mem ?s3 = m2"
    by (simp_all add: st f(3) descs_upd)
  have A: "anchor_ok ?s3 i c (blocks ?st ?K i) (blocks ?st ?K i - set M) (d_anchor (?D (descs s d)))"
    using swept_anchor_ok[of c "blocks ?st ?K i" ?s3 i zs "set M"] bs(1) B s2(1-3) free Ki(2) bl
    by (simp add: s3)
  have "heap_inv ?s3 n ?K (\<lambda>a. if a \<in> blocks ?st ?K i then (if a \<in> set M then Live else InSb) else rec_own ?st ?P (set M) a)
    (if state (d_anchor (?D (descs s d))) = SB_FULL then {} else insert i {})"
    using inv_new_used[OF inv1 tk c, of "set M"] A D unfolding s3 by simp
  moreover have "rec_own ?st ?K (set M) =
    (\<lambda>a. if a \<in> blocks ?st ?K i then (if a \<in> set M then Live else InSb) else rec_own ?st ?P (set M) a)"
    by (rule rec_own_step[where P = ?P and i = i]) (use tk in \<open>simp_all add: blocks_def\<close>)
  moreover have "state (d_anchor (?D (descs s d))) = SB_FULL \<longleftrightarrow> zs = []"
    by (simp add: swept_anchor_def)
  ultimately have inv2: "heap_inv ?s3 n ?K (rec_own ?st ?K (set M)) (if zs = [] then {} else {i})" by simp
  obtain s4 where s4: "(if zs = [] then Ret ?s2 else heap_push_partial ?s2 d) = Ret s4"
      "heap_inv (s4\<lparr>avail_sb := ?h\<rparr>) n ?K (rec_own ?st ?K (set M)) {}" "same_base ?s2 s4"
      "sb_region s4 = sb_region s" "mem s4 = m2" "\<And>x. x \<noteq> d \<Longrightarrow> descs s4 x = descs ?s2 x"
  proof (cases "zs = []")
    case True
    then show thesis using that[of ?s2] inv2 by simp
  next
    case False
    then have "i \<in> (if zs = [] then {} else {i})" by simp
    from inv_push_partial[OF inv2 this] obtain s' where s': "heap_push_partial ?s3 d = Ret s'"
        "heap_inv s' n ?K (rec_own ?st ?K (set M)) {}"
      using False by (auto simp: st f(3))
    then obtain s4 where p: "heap_push_partial ?s2 d = Ret s4" "s' = s4\<lparr>avail_sb := ?h\<rparr>"
      unfolding push_avail by (auto simp: bind_run_Ret_iff)
    show thesis
      by (rule that[of s4]) (use False p s'(2) push_partial_frame[OF p(1)] push_partial_descs[OF p(1)] in simp_all)
  qed
  have "sweep_one q = Ret (s4, sb + SBSIZE, d + DESCSIZE, ?ms, av)"
  proof -
    have "sweep_one q = bind_run (sweep_small ?s1 (sbA ?st i) d (?f j) fh1 (length ys))
        (\<lambda>s2. Ret (s2, sb + SBSIZE, d + DESCSIZE, ?ms, av))"
      using s1(1) c D(1) by (simp add: q sweep_one_def ms f(2) Let_def)
    then show ?thesis unfolding s2(5) Let_def s4(1) by simp
  qed
  moreover have "sweep_inv z n K M (Suc i) (s4, sb + SBSIZE, d + DESCSIZE, ?ms, av)"
  proof (rule sweep_invI[OF s4(2)])
    show "?K = part_kind ?R (Suc i)" unfolding part_kind_Suc R ..
    show "same_base z s4"
      by (rule same_base_trans[OF f(5) same_base_trans[OF _ s4(3)]]) (simp add: same_base_def upd_desc_def)
    show "descs s4 (dA (desc_start z) j) = descs z (dA (desc_start z) j)" if "Suc i \<le> j" for j
      using s4(6)[of "dA (desc_start z) j"] f(7)[of j] that by (simp add: f(3) descs_upd)
    show "b \<notin> set M \<and> (\<exists>j. b \<in> blocks ?st ?K j)" if ch: "mem s4 b \<noteq> mem z b" for b
    proof (cases "m2 b = mem s b")
      case True
      then obtain j where j: "b \<in> blocks ?st ?P j" "b \<notin> set M" using f(8)[of b] ch s4(5) by auto
      then have "j \<noteq> i" using tk by (auto simp: blocks_def)
      then have "b \<in> blocks ?st ?K j" using j(1) by (simp add: blocks_def)
      then show ?thesis using j(2) by blast
    next
      case False
      then show ?thesis using memd[OF False] unfolding free by blast
    qed
    show "?R (Suc i) \<noteq> SbTail" using rec_tail_prev[OF geo, of ?st "set M" i] R by auto
  qed (use i f(6) s4(4) in \<open>simp_all add: f(2,3) sbA_Suc dA_Suc\<close>)
  ultimately show ?thesis by (intro exI conjI)
qed

end
