(* ===== verification/RecoveryMark.thy ===== *)
theory RecoveryMark
  imports RecoverySweep
begin

text \<open>
  The marking phase: what it marks is what is reachable from the roots through the filter
  functions, and the whole collection on a heap that survived a crash.
\<close>

section \<open>Reachability\<close>

inductive reach ::
  "('ty \<Rightarrow> ralloc \<Rightarrow> nat \<Rightarrow> (nat \<times> 'ty) list) \<Rightarrow> (nat \<Rightarrow> 'ty option) \<Rightarrow> ralloc \<Rightarrow> nat \<Rightarrow> 'ty \<Rightarrow> bool"
  for flt rf s where
  root: "i < MAX_ROOTS \<Longrightarrow> \<not> cross_is_null (roots s i) \<Longrightarrow> rf i = Some ty \<Longrightarrow>
    p = unat (cross_cast (word_of_nat (sb_start s)) (roots s i)) \<Longrightarrow> in_range_sb s p \<Longrightarrow>
    reach flt rf s p ty"
| step: "reach flt rf s p ty \<Longrightarrow> (p', ty') \<in> set (flt ty s p) \<Longrightarrow> in_range_sb s p' \<Longrightarrow>
    reach flt rf s p' ty'"

text \<open>The filter functions a block is reached with find the same pointers.\<close>

definition filters_agree ::
  "('ty \<Rightarrow> ralloc \<Rightarrow> nat \<Rightarrow> (nat \<times> 'ty) list) \<Rightarrow> (nat \<Rightarrow> 'ty option) \<Rightarrow> ralloc \<Rightarrow> bool" where
  "filters_agree flt rf s \<longleftrightarrow>
     (\<forall>p ty ty'. reach flt rf s p ty \<longrightarrow> reach flt rf s p ty' \<longrightarrow>
        fst ` set (flt ty s p) = fst ` set (flt ty' s p))"

text \<open>
  The invariant of marking: what is on the stack is marked, what is marked is reachable, and the
  children of what is marked and no longer on the stack are marked.
\<close>

definition mark_inv ::
  "('ty \<Rightarrow> ralloc \<Rightarrow> nat \<Rightarrow> (nat \<times> 'ty) list) \<Rightarrow> (nat \<Rightarrow> 'ty option) \<Rightarrow> ralloc \<Rightarrow> nat set
     \<Rightarrow> 'ty GarbageCollection \<Rightarrow> bool" where
  "mark_inv flt rf s open gc \<longleftrightarrow>
     sorted_wrt (<) (marked_blk gc) \<and>
     (\<forall>(p, ty) \<in> set (to_filter gc). p \<in> set (marked_blk gc) \<and> reach flt rf s p ty) \<and>
     (\<forall>p \<in> set (marked_blk gc). \<exists>ty. reach flt rf s p ty \<and>
        (p \<in> fst ` set (to_filter gc) \<or> p \<in> open \<or>
         (\<forall>(p', ty') \<in> set (flt ty s p). in_range_sb s p' \<longrightarrow> p' \<in> set (marked_blk gc))))"

lemma mark_invD:
  assumes "mark_inv flt rf s U gc" and "p \<in> set (marked_blk gc)"
  obtains ty where "reach flt rf s p ty"
    "p \<in> fst ` set (to_filter gc) \<or> p \<in> U \<or>
     (\<forall>(p', ty') \<in> set (flt ty s p). in_range_sb s p' \<longrightarrow> p' \<in> set (marked_blk gc))"
  using assms unfolding mark_inv_def by blast

lemma insort_strict:
  fixes x :: nat
  assumes "sorted_wrt (<) xs" and "x \<notin> set xs"
  shows "sorted_wrt (<) (insort x xs)"
  using assms by (simp add: strict_sorted_iff distinct_insort sorted_insort)

lemma mark_func_inv:
  assumes inv: "mark_inv flt rf s U gc" and r: "in_range_sb s (fst x) \<Longrightarrow> reach flt rf s (fst x) (snd x)"
  shows "mark_inv flt rf s U (mark_func s x gc)"
    and "set (marked_blk gc) \<subseteq> set (marked_blk (mark_func s x gc))"
    and "in_range_sb s (fst x) \<Longrightarrow> fst x \<in> set (marked_blk (mark_func s x gc))"
proof -
  show sub: "set (marked_blk gc) \<subseteq> set (marked_blk (mark_func s x gc))"
    and "in_range_sb s (fst x) \<Longrightarrow> fst x \<in> set (marked_blk (mark_func s x gc))"
    by (auto simp: mark_func_def set_insort_key)
  show "mark_inv flt rf s U (mark_func s x gc)"
  proof (cases "in_range_sb s (fst x) \<and> fst x \<notin> set (marked_blk gc)")
    case False
    then have "mark_func s x gc = gc" unfolding mark_func_def by argo
    then show ?thesis using inv by simp
  next
    case True
    let ?gc = "mark_func s x gc"
    have m: "marked_blk ?gc = insort (fst x) (marked_blk gc)" "to_filter ?gc = x # to_filter gc"
      using True by (simp_all add: mark_func_def)
    have ms: "set (marked_blk ?gc) = insert (fst x) (set (marked_blk gc))" by (simp add: m set_insort_key)
    note i = inv[unfolded mark_inv_def]
    have "sorted_wrt (<) (marked_blk ?gc)" unfolding m using i True by (intro insort_strict) auto
    moreover have "p \<in> set (marked_blk ?gc) \<and> reach flt rf s p ty" if "(p, ty) \<in> set (to_filter ?gc)" for p ty
      using that r True i unfolding m(2) ms by auto
    moreover have "\<exists>ty. reach flt rf s p ty \<and> (p \<in> fst ` set (to_filter ?gc) \<or> p \<in> U \<or>
         (\<forall>(p', ty') \<in> set (flt ty s p). in_range_sb s p' \<longrightarrow> p' \<in> set (marked_blk ?gc)))"
      if p: "p \<in> set (marked_blk ?gc)" for p
    proof (cases "p = fst x")
      case True
      then show ?thesis using r \<open>in_range_sb s (fst x) \<and> fst x \<notin> set (marked_blk gc)\<close> by (auto simp: m(2))
    next
      case False
      then have "p \<in> set (marked_blk gc)" using p ms by simp
      then obtain ty where "reach flt rf s p ty" "p \<in> fst ` set (to_filter gc) \<or> p \<in> U \<or>
         (\<forall>(p', ty') \<in> set (flt ty s p). in_range_sb s p' \<longrightarrow> p' \<in> set (marked_blk gc))"
        using i by blast
      then show ?thesis unfolding m(2) ms by (intro exI[of _ ty]) auto
    qed
    ultimately show ?thesis unfolding mark_inv_def by blast
  qed
qed

lemma mark_fold_inv:
  assumes "mark_inv flt rf s U gc" and "\<And>x. x \<in> set xs \<Longrightarrow> in_range_sb s (fst x) \<Longrightarrow> reach flt rf s (fst x) (snd x)"
  shows "mark_inv flt rf s U (fold (mark_func s) xs gc)
    \<and> set (marked_blk gc) \<subseteq> set (marked_blk (fold (mark_func s) xs gc))
    \<and> (\<forall>x \<in> set xs. in_range_sb s (fst x) \<longrightarrow> fst x \<in> set (marked_blk (fold (mark_func s) xs gc)))"
  using assms
proof (induction xs arbitrary: gc)
  case (Cons x xs)
  have r: "in_range_sb s (fst x) \<Longrightarrow> reach flt rf s (fst x) (snd x)" using Cons.prems(2)[of x] by simp
  note f = mark_func_inv[OF Cons.prems(1) r]
  have "mark_inv flt rf s U (fold (mark_func s) xs (mark_func s x gc))
    \<and> set (marked_blk (mark_func s x gc)) \<subseteq> set (marked_blk (fold (mark_func s) xs (mark_func s x gc)))
    \<and> (\<forall>x' \<in> set xs. in_range_sb s (fst x') \<longrightarrow>
         fst x' \<in> set (marked_blk (fold (mark_func s) xs (mark_func s x gc))))"
    by (rule Cons.IH[OF f(1)]) (use Cons.prems(2) in simp_all)
  then show ?case using f(2,3) by auto
qed simp

lemma mark_roots_inv:
  assumes "mark_inv flt rf s {} gc" and "\<And>i. i \<in> set is \<Longrightarrow> i < MAX_ROOTS"
    and "\<And>i. i \<in> set is \<Longrightarrow> \<not> cross_is_null (roots s i) \<Longrightarrow> rf i \<noteq> None"
  shows "\<exists>gc'. mark_roots s rf is gc = Ret gc' \<and> mark_inv flt rf s {} gc'
    \<and> set (marked_blk gc) \<subseteq> set (marked_blk gc')
    \<and> (\<forall>i \<in> set is. \<not> cross_is_null (roots s i) \<longrightarrow>
         in_range_sb s (unat (cross_cast (word_of_nat (sb_start s)) (roots s i))) \<longrightarrow>
         unat (cross_cast (word_of_nat (sb_start s)) (roots s i)) \<in> set (marked_blk gc'))"
  using assms
proof (induction "is" arbitrary: gc)
  case (Cons i "is")
  let ?p = "\<lambda>i. unat (cross_cast (word_of_nat (sb_start s)) (roots s i))"
  show ?case
  proof (cases "cross_is_null (roots s i)")
    case True
    then show ?thesis using Cons.IH[OF Cons.prems(1)] Cons.prems(2,3) by auto
  next
    case False
    then obtain ty where ty: "rf i = Some ty" using Cons.prems(3)[of i] by auto
    have r: "in_range_sb s (fst (?p i, ty)) \<Longrightarrow> reach flt rf s (fst (?p i, ty)) (snd (?p i, ty))"
      using reach.root[of i s rf ty] Cons.prems(2)[of i] False ty by simp
    note f = mark_func_inv[OF Cons.prems(1) r]
    have IH: "\<exists>gc'. mark_roots s rf is (mark_func s (?p i, ty) gc) = Ret gc' \<and> mark_inv flt rf s {} gc'
      \<and> set (marked_blk (mark_func s (?p i, ty) gc)) \<subseteq> set (marked_blk gc')
      \<and> (\<forall>i \<in> set is. \<not> cross_is_null (roots s i) \<longrightarrow> in_range_sb s (?p i) \<longrightarrow> ?p i \<in> set (marked_blk gc'))"
      by (rule Cons.IH[OF f(1)]) (use Cons.prems(2,3) in simp_all)
    then obtain gc' where g: "mark_roots s rf is (mark_func s (?p i, ty) gc) = Ret gc'" "mark_inv flt rf s {} gc'"
      "set (marked_blk (mark_func s (?p i, ty) gc)) \<subseteq> set (marked_blk gc')"
      "\<forall>i \<in> set is. \<not> cross_is_null (roots s i) \<longrightarrow> in_range_sb s (?p i) \<longrightarrow> ?p i \<in> set (marked_blk gc')"
      by blast
    have "mark_roots s rf (i # is) gc = Ret gc'" using False ty g(1) by simp
    moreover have "set (marked_blk gc) \<subseteq> set (marked_blk gc')" using f(2) g(3) by blast
    moreover have "in_range_sb s (?p i) \<Longrightarrow> ?p i \<in> set (marked_blk gc')" using f(3) g(3) by auto
    ultimately show ?thesis using g(2,4) by (intro exI[of _ gc']) auto
  qed
qed simp

lemma mark_loop_inv:
  assumes "mark_inv flt rf s {} gc"
  shows "mark_inv flt rf s {} (mark_loop flt s gc) \<and> to_filter (mark_loop flt s gc) = []
    \<and> set (marked_blk gc) \<subseteq> set (marked_blk (mark_loop flt s gc))"
  using assms
proof (induction flt s gc rule: mark_loop.induct)
  case (1 flt s gc)
  show ?case
  proof (cases "to_filter gc")
    case Nil
    then show ?thesis using 1(2) by (simp add: mark_loop.simps[of flt s gc])
  next
    case (Cons x rest)
    obtain p ty where x: "x = (p, ty)" by (cases x)
    let ?gc = "gc\<lparr>to_filter := rest\<rparr>"
    let ?g = "fold (mark_func s) (flt ty s p) ?gc"
    note i = 1(2)[unfolded mark_inv_def]
    have p: "p \<in> set (marked_blk gc)" "reach flt rf s p ty" using i Cons x by auto
    have "\<exists>ty'. reach flt rf s q ty' \<and> (q \<in> fst ` set (to_filter ?gc) \<or> q \<in> {p} \<or>
         (\<forall>(p', ty'') \<in> set (flt ty' s q). in_range_sb s p' \<longrightarrow> p' \<in> set (marked_blk ?gc)))"
      if "q \<in> set (marked_blk ?gc)" for q
    proof -
      have "q \<in> set (marked_blk gc)" using that by simp
      from 1(2) this show ?thesis
      proof (rule mark_invD)
        fix ty' assume "reach flt rf s q ty'" "q \<in> fst ` set (to_filter gc) \<or> q \<in> {} \<or>
          (\<forall>(p', ty'') \<in> set (flt ty' s q). in_range_sb s p' \<longrightarrow> p' \<in> set (marked_blk gc))"
        then show ?thesis using Cons x by (intro exI[of _ ty']) auto
      qed
    qed
    then have "mark_inv flt rf s {p} ?gc" using i Cons unfolding mark_inv_def by auto
    then have f: "mark_inv flt rf s {p} ?g" "set (marked_blk ?gc) \<subseteq> set (marked_blk ?g)"
        "\<forall>x \<in> set (flt ty s p). in_range_sb s (fst x) \<longrightarrow> fst x \<in> set (marked_blk ?g)"
      using mark_fold_inv[of flt rf s "{p}" ?gc "flt ty s p"] reach.step[OF p(2)] by auto
    have "\<exists>ty'. reach flt rf s q ty' \<and> (q \<in> fst ` set (to_filter ?g) \<or> q \<in> {} \<or>
         (\<forall>(p', ty'') \<in> set (flt ty' s q). in_range_sb s p' \<longrightarrow> p' \<in> set (marked_blk ?g)))"
      if q: "q \<in> set (marked_blk ?g)" for q
    proof (cases "q = p")
      case True
      then show ?thesis using p(2) f(3) by (intro exI[of _ ty]) auto
    next
      case False
      from f(1) q show ?thesis
      proof (rule mark_invD)
        fix ty' assume "reach flt rf s q ty'" "q \<in> fst ` set (to_filter ?g) \<or> q \<in> {p} \<or>
          (\<forall>(p', ty'') \<in> set (flt ty' s q). in_range_sb s p' \<longrightarrow> p' \<in> set (marked_blk ?g))"
        then show ?thesis using False by (intro exI[of _ ty']) simp
      qed
    qed
    then have "mark_inv flt rf s {} ?g" using f(1) unfolding mark_inv_def by blast
    from 1(1)[OF Cons x[symmetric] this]
    show ?thesis using f(2) Cons x by (auto simp: mark_loop.simps[of flt s gc])
  qed
qed

lemma mark_phase:
  assumes rf: "\<And>i. i < MAX_ROOTS \<Longrightarrow> \<not> cross_is_null (roots s i) \<Longrightarrow> rf i \<noteq> None"
    and ag: "filters_agree flt rf s"
  shows "\<exists>gc0. mark_roots s rf [0..<MAX_ROOTS] GarbageCollection_init = Ret gc0
    \<and> sorted_wrt (<) (marked_blk (mark_loop flt s gc0))
    \<and> set (marked_blk (mark_loop flt s gc0)) = {p. \<exists>ty. reach flt rf s p ty}"
proof -
  let ?p = "\<lambda>i. unat (cross_cast (word_of_nat (sb_start s)) (roots s i))"
  have "mark_inv flt rf s {} GarbageCollection_init"
    by (simp add: mark_inv_def GarbageCollection_init_def)
  from mark_roots_inv[OF this, of "[0..<MAX_ROOTS]"] rf
  obtain gc0 where g: "mark_roots s rf [0..<MAX_ROOTS] GarbageCollection_init = Ret gc0"
      "mark_inv flt rf s {} gc0"
      "\<forall>i \<in> set [0..<MAX_ROOTS]. \<not> cross_is_null (roots s i) \<longrightarrow> in_range_sb s (?p i) \<longrightarrow> ?p i \<in> set (marked_blk gc0)"
    by auto
  let ?gc = "mark_loop flt s gc0"
  from mark_loop_inv[OF g(2)]
  have l: "mark_inv flt rf s {} ?gc" "to_filter ?gc = []" "set (marked_blk gc0) \<subseteq> set (marked_blk ?gc)"
    by blast+
  have "p \<in> set (marked_blk ?gc)" if "reach flt rf s p ty" for p ty
    using that
  proof (induction rule: reach.induct)
    case (root i ty p)
    then show ?case using g(3) l(3) by auto
  next
    case (step p ty p' ty')
    from l(1) step.IH show ?case
    proof (rule mark_invD)
      fix ty0 assume r: "reach flt rf s p ty0" and k: "p \<in> fst ` set (to_filter ?gc) \<or> p \<in> {} \<or>
        (\<forall>(p', ty') \<in> set (flt ty0 s p). in_range_sb s p' \<longrightarrow> p' \<in> set (marked_blk ?gc))"
      have "p' \<in> fst ` set (flt ty s p)" using step.hyps(2) by force
      then have "p' \<in> fst ` set (flt ty0 s p)" using ag step.hyps(1) r unfolding filters_agree_def by blast
      then obtain ty1 where "(p', ty1) \<in> set (flt ty0 s p)" by auto
      then show ?thesis using k l(2) step.hyps(3) by auto
    qed
  qed
  moreover have "\<exists>ty. reach flt rf s p ty" if "p \<in> set (marked_blk ?gc)" for p
    using l(1) that by (rule mark_invD) blast
  ultimately have "set (marked_blk ?gc) = {p. \<exists>ty. reach flt rf s p ty}" by blast
  moreover have "sorted_wrt (<) (marked_blk ?gc)" using l(1) by (simp add: mark_inv_def)
  ultimately show ?thesis using g(1) by blast
qed

section \<open>The sweep\<close>

lemma sweep_step:
  assumes pers: "persisted z n K" and M: "marks_ok (sb_start z) K M"
    and inv: "sweep_inv z n K M i q" and i: "i < n"
  shows "\<exists>q' i'. sweep_one q = Ret q' \<and> sweep_inv z n K M i' q' \<and> i < i' \<and> i' \<le> n"
proof -
  note geo = persistedD(1)[OF pers]
  obtain s sb d ms av where q: "q = (s, sb, d, ms, av)" by (cases q)
  have i0: "0 < i" "rec_kind (sb_start z) K (set M) i \<noteq> SbTail"
    using sweep_invD(9,11)[OF inv[unfolded q]] by simp_all
  from geo i0(1) i show ?thesis
  proof (cases rule: rec_kind_cases[where st = "sb_start z" and M = "set M"])
    case free
    then show ?thesis using sweep_step_free[OF geo M inv i] i by (metis Suc_leI lessI)
  next
    case (small c)
    then show ?thesis using sweep_step_small[OF pers M inv i] i by (metis Suc_leI lessI)
  next
    case (large m)
    have "0 < m" using geo large(1) unfolding geo_def by blast
    then show ?thesis using sweep_step_large[OF pers M inv large(2)] rec_after_large(1)[OF geo large(2)]
      by (metis less_add_same_cancel1)
  next
    case tail
    then show ?thesis using i0(2) by simp
  qed
qed

lemma sweep_ok:
  assumes pers: "persisted z n K" and M: "marks_ok (sb_start z) K M"
    and e: "e = sb_start z + n * SBSIZE"
  shows "sweep_inv z n K M i q \<Longrightarrow> \<exists>q'. sweep e q = Ret q' \<and> sweep_inv z n K M n q'"
proof (induction "n - i" arbitrary: i q rule: less_induct)
  case less
  obtain s sb d ms av where q: "q = (s, sb, d, ms, av)" by (cases q)
  note f = sweep_invD[OF less.prems[unfolded q]]
  have c: "sb < e \<longleftrightarrow> i < n" by (simp add: f(2) e sbA_def)
  show ?case
  proof (cases "i < n")
    case True
    obtain q' i' where s: "sweep_one q = Ret q'" "sweep_inv z n K M i' q'" "i < i'" "i' \<le> n"
      using sweep_step[OF pers M less.prems True] by blast
    have "sweep e q = sweep e q'" using s(1) True c by (simp add: q sweep.simps)
    then show ?thesis using less.hyps[OF _ s(2)] s(3) True by auto
  next
    case False
    then have "i = n" using f(10) by simp
    then show ?thesis using less.prems False c by (simp add: q sweep.simps)
  qed
qed

section \<open>The collection\<close>

lemma gc_init_simps [simp]:
  "sb_start (gc_init s) = sb_start s" "desc_start (gc_init s) = desc_start s" "descs (gc_init s) = descs s"
  "mem (gc_init s) = mem s" "sb_region (gc_init s) = sb_region s" "roots (gc_init s) = roots s"
  "t_caches (gc_init s) = t_caches s"
  by (simp_all add: gc_init_def)

lemma gc_init_base [simp]: "same_base s (gc_init s)"
  by (simp add: same_base_def)

lemma gc_init_persisted: "persisted (gc_init s) n K \<longleftrightarrow> persisted s n K"
  unfolding persisted_def geo_def gc_init_simps ..

text \<open>Before the first round no superblock is in a list.\<close>

lemma sweep_inv_start:
  assumes geo: "geo z n K" and n: "0 < n"
    and caches: "t_caches z = (\<lambda>_ _. TCacheBin_init)"
    and lists: "\<And>c. h_ptr (partial_list z c) = 0"
    and M: "marks_ok (sb_start z) K M"
  shows "sweep_inv z n K M (Suc 0) (z, sbA (sb_start z) (Suc 0), dA (desc_start z) (Suc 0), M, 0)"
proof (rule sweep_invI[OF _ refl])
  let ?R = "rec_kind (sb_start z) K (set M)"
  let ?P = "part_kind ?R (Suc 0)"
  note g = geo_rec[OF geo, of "sb_start z" "set M", unfolded geo_def]
  have R0: "?R j = Unmapped \<longleftrightarrow> j = 0 \<or> n \<le> j" for j using g by blast
  have P: "?P j = (if j = 0 \<or> n \<le> j then Unmapped else SbTaken)" for j
    using R0 by (auto simp: part_kind_def)
  have bl: "blocks st ?P j = {}" for st j by (simp add: blocks_def P)
  let ?W = "rec_own (sb_start z) ?P (set M)"
  have W: "?W a = NoBlock" for a by (simp add: rec_own_def bl)
  show "heap_inv (z\<lparr>avail_sb := head_set 0 0\<rparr>) n ?P ?W {}"
  proof (rule heap_invI)
    show "geo (z\<lparr>avail_sb := head_set 0 0\<rparr>) n ?P" using g by (simp add: geo_def P)
    show "own_ok (sb_start (z\<lparr>avail_sb := head_set 0 0\<rparr>)) ?P ?W"
      by (simp add: own_ok_def W bl P)
    show "free_ok (z\<lparr>avail_sb := head_set 0 0\<rparr>) ?P"
      by (auto simp: free_ok_def P intro!: exI[of _ "[]"])
    show "part_ok (z\<lparr>avail_sb := head_set 0 0\<rparr>) ?P {} c" for c
      by (auto simp: part_ok_def nonfull_def P lists intro!: exI[of _ "[]"])
    show "desc_ok (z\<lparr>avail_sb := head_set 0 0\<rparr>) ?P ?W j" for j by (simp add: desc_ok_def P Let_def)
    show "cache_ok (z\<lparr>avail_sb := head_set 0 0\<rparr>) ?W t c" for t c
      using bin_list_init[of "mem z"]
      by (auto simp: cache_ok_def caches W TCacheBin_init_def intro!: exI[of _ "[]"])
  qed simp
  show "?R (Suc 0) \<noteq> SbTail"
  proof
    assume "?R (Suc 0) = SbTail"
    then obtain j m where "?R j = SbLarge m" "j < Suc 0" using g by blast
    then show False using R0[of 0] by simp
  qed
  have "sbA (sb_start z) (Suc 0) \<le> a" if "a \<in> set M" for a
  proof -
    obtain j where j: "a \<in> blocks (sb_start z) K j" using M \<open>a \<in> set M\<close> unfolding marks_ok_def by blast
    have "K 0 = Unmapped" using geo unfolding geo_def by blast
    then have "j \<noteq> 0" using j by (cases "j = 0") (simp_all add: blocks_def)
    then show ?thesis using blocks_range(1)[OF geo j] by (cases j) (auto simp: sbA_def)
  qed
  then show "M = filter (\<lambda>a. sbA (sb_start z) (Suc 0) \<le> a) M" by (simp add: filter_id_conv)
qed (use n in simp_all)

lemma collect_ok:
  assumes pers: "persisted s n K" and n: "0 < n"
    and caches: "t_caches s = (\<lambda>_ _. TCacheBin_init)"
    and lists: "\<And>c. MAX_SZ_IDX \<le> c \<Longrightarrow> h_ptr (partial_list s c) = 0"
    and gc: "mark_roots (gc_init s) rf [0..<MAX_ROOTS] GarbageCollection_init = Ret gc0"
    and M: "marks_ok (sb_start s) K (marked_blk (mark_loop flt (gc_init s) gc0))"
  defines "Ms \<equiv> set (marked_blk (mark_loop flt (gc_init s) gc0))"
  defines "R \<equiv> rec_kind (sb_start s) K Ms"
  shows "\<exists>s'. collect flt rf s = Ret s' \<and> rep s' n R (rec_own (sb_start s) R Ms) \<and> same_base s s'
    \<and> (\<forall>b. mem s' b \<noteq> mem s b \<longrightarrow> b \<notin> Ms \<and> (\<exists>j. b \<in> blocks (sb_start s) R j))"
proof -
  let ?z = "gc_init s"
  let ?M = "marked_blk (mark_loop flt ?z gc0)"
  note geo = persistedD(1)[OF pers]
  have pz: "persisted ?z n K" and mz: "marks_ok (sb_start ?z) K ?M"
    using pers M by (simp_all add: gc_init_persisted)
  note gz = persistedD(1)[OF pz]
  have ez: "unat (rm_curr_addr (sb_region ?z)) = sb_start ?z + n * SBSIZE" and dv: "SBSIZE dvd sb_start s"
    using gz geo unfolding geo_def by simp_all
  have sb: "unat (translate (word_of_nat (sb_start s)) (word_of_nat SBSIZE)) = sbA (sb_start s) (Suc 0)"
  proof -
    have u: "unat (rm_curr_addr (sb_region s)) < 2 ^ LENGTH(64)" by (rule unsigned_less)
    have "sb_start s + SBSIZE \<le> sb_start s + n * SBSIZE" using n by simp
    also have "\<dots> < 2 ^ 64" using ez u by simp
    finally show ?thesis using unat_word_of_nat[of "sb_start s + SBSIZE"]
      by (simp add: translate_def sbA_def of_nat_add)
  qed
  have "sweep_inv ?z n K ?M (Suc 0) (?z, sbA (sb_start ?z) (Suc 0), dA (desc_start ?z) (Suc 0), ?M, 0)"
    by (rule sweep_inv_start[OF gz n _ _ mz]) (use caches lists in \<open>simp_all add: gc_init_def\<close>)
  from sweep_ok[OF pz mz ez this] obtain s1 sb1 d1 ms1 av1
    where sw: "sweep (unat (rm_curr_addr (sb_region ?z))) (?z, sbA (sb_start ?z) (Suc 0), dA (desc_start ?z) (Suc 0), ?M, 0)
        = Ret (s1, sb1, d1, ms1, av1)" and inv: "sweep_inv ?z n K ?M n (s1, sb1, d1, ms1, av1)"
    by (metis prod_cases5)
  note f = sweep_invD[OF inv, simplified, folded Ms_def, folded R_def]
  have R: "part_kind R n = R"
  proof
    have "K j = Unmapped" if "n \<le> j" for j using geo that unfolding geo_def by blast
    then show "part_kind R n j = R j" for j
      using rec_kind_iff(1)[of "sb_start s" K Ms j] by (auto simp: part_kind_def R_def not_less)
  qed
  have "\<not> sbA (sb_start s) n \<le> a" if a: "a \<in> set ?M" for a
  proof -
    obtain j where j: "a \<in> blocks (sb_start s) K j" using M a unfolding marks_ok_def by blast
    then have "K j \<noteq> Unmapped" by (auto simp: blocks_def)
    then have "Suc j \<le> n" using geo unfolding geo_def by (metis Suc_leI not_le)
    then have "sbA (sb_start s) (Suc j) \<le> sbA (sb_start s) n"
      unfolding sbA_def by (intro add_left_mono mult_le_mono1)
    then show ?thesis using blocks_range(2)[OF geo j] by (simp add: sbA_Suc)
  qed
  then have ms: "ms1 = []" using f(4) by (auto simp: filter_empty_conv)
  have dl: "desc_lookup ?z (sbA (sb_start s) (Suc 0)) = dA (desc_start s) (Suc 0)"
    using desc_lookup_sbA[of ?z "Suc 0"] dv by simp
  have run: "collect flt rf s = Ret (s1\<lparr>avail_sb := head_set av1 0\<rparr>)"
    using gc sw ms unfolding collect_def Let_def by (simp add: sb dl)
  have nt: "R j \<noteq> SbTaken" for j unfolding R_def by (rule rec_kind_iff(5))
  have sb1: "same_base s (s1\<lparr>avail_sb := head_set av1 0\<rparr>)" using f(5) by (simp add: same_base_def)
  show ?thesis
    by (rule exI, intro conjI, rule run)
       (use f(1,8)[unfolded R] n nt sb1 in \<open>auto simp: rep_def\<close>)
qed

end
