(* ===== verification/RallocApi.thy ===== *)
theory RallocApi
  imports RecoveryMark
begin

text \<open>
  The interface of the allocator: the dirty flag and \<^verbatim>\<open>restart\<close>/\<^verbatim>\<open>writeback\<close> of
  \<^verbatim>\<open>ralloc/src/BaseMeta.hpp\<close> and \<^verbatim>\<open>BaseMeta.cpp\<close>, and the functions of
  \<^verbatim>\<open>ralloc/src/ralloc.cpp\<close>. The properties at the end compose the allocator with recovery:
  a heap that survives a crash is collected into a heap the allocator can go on with.
\<close>

section \<open>The dirty flag\<close>

text \<open>
  A robust mutex of the default type, as POSIX documents it. A thread is a pair of the number of its process and its number there,
  so that no two threads of different processes are confused. \<open>Locked t True\<close> is held by \<open>t\<close>, whose predecessor died, and not yet
  marked consistent; unlocked in that state it can never be locked again. Memory that holds no mutex is \<open>Invalid\<close>. \<^verbatim>\<open>EAGAIN\<close>,
  the answer of a recursive mutex that is locked too often, does not occur for this type.
\<close>

type_synonym thread = "nat \<times> nat"

datatype mutex = Unlocked | Locked thread bool | OwnerDead | NotRecoverable | Invalid

datatype lock_code = LockOk | EOWNERDEAD | EBUSY | EAGAIN | EINVAL | ENOTRECOVERABLE | EPERM

fun pthread_mutex_trylock :: "thread \<Rightarrow> mutex \<Rightarrow> lock_code \<times> mutex" where
  "pthread_mutex_trylock t Unlocked = (LockOk, Locked t False)"
| "pthread_mutex_trylock t (Locked u b) = (EBUSY, Locked u b)"
| "pthread_mutex_trylock t OwnerDead = (EOWNERDEAD, Locked t True)"
| "pthread_mutex_trylock t NotRecoverable = (ENOTRECOVERABLE, NotRecoverable)"
| "pthread_mutex_trylock t Invalid = (EINVAL, Invalid)"

fun pthread_mutex_unlock :: "thread \<Rightarrow> mutex \<Rightarrow> lock_code \<times> mutex" where
  "pthread_mutex_unlock t (Locked u b) =
     (if u \<noteq> t then (EPERM, Locked u b) else (LockOk, if b then NotRecoverable else Unlocked))"
| "pthread_mutex_unlock t Invalid = (EINVAL, Invalid)"
| "pthread_mutex_unlock t m = (EPERM, m)"

fun pthread_mutex_consistent :: "thread \<Rightarrow> mutex \<Rightarrow> lock_code \<times> mutex" where
  "pthread_mutex_consistent t (Locked u b) = (if u = t \<and> b then (LockOk, Locked u False) else (EINVAL, Locked u b))"
| "pthread_mutex_consistent t m = (EINVAL, m)"

definition pthread_mutex_init :: "mutex \<Rightarrow> mutex" where
  "pthread_mutex_init m = Unlocked"

text \<open>The kernel hands on the robust mutexes of a thread that ends.\<close>

fun thread_dies :: "thread \<Rightarrow> mutex \<Rightarrow> mutex" where
  "thread_dies t (Locked u b) = (if u = t then OwnerDead else Locked u b)"
| "thread_dies t m = m"

definition is_dirty :: "thread \<Rightarrow> mutex \<Rightarrow> (bool \<times> mutex) run" where
  "is_dirty t m =
     (let (s, m') = pthread_mutex_trylock t m in
      case s of
        EOWNERDEAD \<Rightarrow> Ret (True, snd (pthread_mutex_consistent t m'))
      | LockOk \<Rightarrow> Ret (False, snd (pthread_mutex_unlock t m'))
      | EBUSY \<Rightarrow> Ret (False, m')
      | EAGAIN \<Rightarrow> Ret (False, m')
      | EINVAL \<Rightarrow> Ret (True, pthread_mutex_init m')
      | _ \<Rightarrow> Abort ''exit(1)'')"

definition set_dirty :: "thread \<Rightarrow> mutex \<Rightarrow> mutex run" where
  "set_dirty t m =
     (let (s, m') = pthread_mutex_trylock t m in
      bind_run (assert_run (s \<noteq> EOWNERDEAD) ''previous apps died! call is_dirty first!'') (\<lambda>_. Ret m'))"

definition set_clean :: "thread \<Rightarrow> mutex \<Rightarrow> mutex" where
  "set_clean t m = snd (pthread_mutex_unlock t m)"

text \<open>What the constructor of \<^verbatim>\<open>BaseMeta\<close> does with the flag.\<close>

definition flag_init :: "thread \<Rightarrow> mutex run" where
  "flag_init t = set_dirty t (pthread_mutex_init Invalid)"

definition restart ::
  "('ty \<Rightarrow> ralloc \<Rightarrow> nat \<Rightarrow> (nat \<times> 'ty) list) \<Rightarrow> (nat \<Rightarrow> 'ty option) \<Rightarrow> ralloc \<Rightarrow> thread \<Rightarrow> mutex
     \<Rightarrow> (bool \<times> ralloc \<times> mutex) run" where
  "restart flt rf s t m =
     bind_run (is_dirty t m) (\<lambda>(ret, m1).
     bind_run (if ret then collect flt rf s else Ret s) (\<lambda>s1.
     bind_run (set_dirty t m1) (\<lambda>m2. Ret (ret, s1, m2))))"

text \<open>\<^verbatim>\<open>writeback\<close> flushes the metadata, which changes no value, and clears the flag.\<close>

definition writeback :: "thread \<Rightarrow> mutex \<Rightarrow> mutex" where
  "writeback t m = set_clean t m"

section \<open>The functions of the interface\<close>

definition memcpy :: "mem \<Rightarrow> nat \<Rightarrow> nat \<Rightarrow> nat \<Rightarrow> mem" where
  "memcpy m dst src n = (\<lambda>b. if dst \<le> b \<and> b < dst + n then m (src + (b - dst)) else m b)"

definition memset :: "mem \<Rightarrow> nat \<Rightarrow> nat \<Rightarrow> nat \<Rightarrow> mem" where
  "memset m dst v n = (\<lambda>b. if dst \<le> b \<and> b < dst + n then v else m b)"

definition RP_malloc :: "bool \<Rightarrow> ralloc \<Rightarrow> nat \<Rightarrow> nat \<Rightarrow> (nat \<times> ralloc) run" where
  "RP_malloc initialized s t sz =
     bind_run (assert_run initialized ''RPMalloc isn't initialized!'') (\<lambda>_. do_malloc s t sz)"

definition RP_free :: "bool \<Rightarrow> ralloc \<Rightarrow> nat \<Rightarrow> nat \<Rightarrow> ralloc run" where
  "RP_free initialized s t p =
     bind_run (assert_run initialized ''RPMalloc isn't initialized!'') (\<lambda>_. do_free s t p)"

definition RP_malloc_size :: "ralloc \<Rightarrow> nat \<Rightarrow> nat" where
  "RP_malloc_size s p = d_block_size (descs s (desc_lookup s p))"

definition RP_realloc :: "bool \<Rightarrow> ralloc \<Rightarrow> nat \<Rightarrow> nat \<Rightarrow> nat \<Rightarrow> (nat \<times> ralloc) run" where
  "RP_realloc initialized s t p new_size =
     (if p = 0 then RP_malloc initialized s t new_size
      else if \<not> in_range_sb s p then Ret (0, s)
      else
        let old_size = RP_malloc_size s p
        in if old_size = new_size then Ret (p, s)
           else bind_run (RP_malloc initialized s t new_size) (\<lambda>(new_ptr, s1).
             if new_ptr = 0 then Ret (0, s1)
             else
               let s2 = s1\<lparr>mem := memcpy (mem s1) new_ptr p old_size\<rparr>
               in bind_run (RP_free initialized s2 t p) (\<lambda>s3. Ret (new_ptr, s3))))"

text \<open>\<^verbatim>\<open>RP_calloc\<close>: the product is computed in 64 bits.\<close>

definition RP_calloc :: "bool \<Rightarrow> ralloc \<Rightarrow> nat \<Rightarrow> u64 \<Rightarrow> u64 \<Rightarrow> (nat \<times> ralloc) run" where
  "RP_calloc initialized s t num sz =
     bind_run (RP_malloc initialized s t (unat (num * sz))) (\<lambda>(p, s1).
     if p = 0 then Ret (0, s1)
     else
       let real_size = RP_malloc_size s1 p
       in Ret (p, s1\<lparr>mem := memset (mem s1) p 0 real_size\<rparr>))"

definition RP_in_prange :: "ralloc \<Rightarrow> nat \<Rightarrow> int" where
  "RP_in_prange s p = (if in_range_sb s p then 1 else 0)"

text \<open>
  \<^verbatim>\<open>RP_region_range\<close>; \<open>out\<close> says whether both result pointers are non-null. A negative
  index is not checked by the source and would read before the array.
\<close>

definition RP_region_range :: "Regions \<Rightarrow> bool \<Rightarrow> nat \<Rightarrow> int \<times> (u64 \<times> u64) option" where
  "RP_region_range rg out idx =
     (if \<not> out \<or> idx \<ge> cur_idx rg then (1, None)
      else case regions rg idx of
             None \<Rightarrow> (1, None)
           | Some r \<Rightarrow> (0, Some (regions_address rg idx, regions_address rg idx + FILESIZE r)))"

text \<open>\<open>init\<close> is the call \<^verbatim>\<open>RP_init("no_explicit_init")\<close>.\<close>

definition RP_set_root :: "bool \<Rightarrow> ralloc run \<Rightarrow> ralloc \<Rightarrow> u64 \<Rightarrow> nat \<Rightarrow> (u64 \<times> ralloc) run" where
  "RP_set_root initialized init s p i =
     bind_run (if \<not> initialized then init else Ret s) (\<lambda>s1. set_root s1 p i)"

definition RP_get_root ::
  "bool \<Rightarrow> ralloc \<Rightarrow> (nat \<Rightarrow> 'ty option) \<Rightarrow> 'ty \<Rightarrow> nat \<Rightarrow> (u64 \<times> (nat \<Rightarrow> 'ty option)) run" where
  "RP_get_root initialized s rf ty i =
     bind_run (assert_run initialized ''initialized'') (\<lambda>_. get_root s rf ty i)"

definition RP_recover ::
  "('ty \<Rightarrow> ralloc \<Rightarrow> nat \<Rightarrow> (nat \<times> 'ty) list) \<Rightarrow> (nat \<Rightarrow> 'ty option) \<Rightarrow> ralloc \<Rightarrow> thread \<Rightarrow> mutex
     \<Rightarrow> (int \<times> ralloc \<times> mutex) run" where
  "RP_recover flt rf s t m =
     bind_run (restart flt rf s t m) (\<lambda>(ret, s1, m1). Ret (if ret then 1 else 0, s1, m1))"

section \<open>Starting from scratch\<close>

definition MIN_SB_REGION_SIZE :: u64 where "MIN_SB_REGION_SIZE = 1 * 1024 * 1024 * 1024"
definition MAX_SB_REGION_SIZE :: u64 where "MAX_SB_REGION_SIZE = word_of_nat SBSIZE * 2 ^ 24"

text \<open>
  \<^verbatim>\<open>_RP_init\<close> when none of the three files exists: the regions are mapped at \<open>da\<close>, \<open>sa\<close> and
  \<open>ma\<close> (chosen by \<^verbatim>\<open>mmap\<close>), the metadata has \<open>msz\<close> bytes, \<open>t\<close> is the uninitialised local
  of the constructor of a region. The constructor of \<^verbatim>\<open>BaseMeta\<close> runs inside
  \<^verbatim>\<open>create_for\<close> and sets the start of the superblock region.
\<close>

definition RP_init_fresh ::
  "u64 \<Rightarrow> u64 \<Rightarrow> u64 \<Rightarrow> u64 \<Rightarrow> u64 \<Rightarrow> u64 \<Rightarrow> (nat \<Rightarrow> Descriptor) \<Rightarrow> mem \<Rightarrow> (int \<times> Regions \<times> ralloc) run" where
  "RP_init_fresh da sa ma msz t sz ds m =
     bind_run (assert_run (sz < MAX_SB_REGION_SIZE \<and> sz \<ge> MIN_SB_REGION_SIZE) ''size'') (\<lambda>_.
     let num_sb = sz div word_of_nat SBSIZE
     in bind_run (Regions_create Regions_init None da (num_sb * word_of_nat DESCSIZE) True True t) (\<lambda>rg1.
        bind_run (Regions_create rg1 None sa (num_sb * word_of_nat SBSIZE) True False t) (\<lambda>rg2.
        bind_run (RegionManager_create None ma msz True True t) (\<lambda>mgr.
        case regions rg2 1 of
          None \<Rightarrow> Abort ''null region''
        | Some sb \<Rightarrow>
            bind_run (BaseMeta_init sb (unat (regions_address rg2 0)) ds m) (\<lambda>s.
            Ret (0, rg2\<lparr>regions := (regions rg2)(1 := Some (sb_region s), cur_idx rg2 := Some mgr),
                        regions_address := (regions_address rg2)(1 := word_of_nat (sb_start s),
                          cur_idx rg2 := fetch_heap_start mgr),
                        cur_idx := cur_idx rg2 + 1\<rparr>, s))))))"

section \<open>Lemmas\<close>

lemma live_block:
  assumes "heap_ok s L"
  obtains n K W where "rep s n K W" "L = live_map (sb_start s) K W"
    "\<And>a x. L a = Some x \<longleftrightarrow> W a = Live \<and> x = usable (sb_start s) K a"
    "\<And>a x. L a = Some x \<Longrightarrow> \<exists>i. a \<in> blocks (sb_start s) K i"
proof -
  obtain n K W where r: "rep s n K W" "L = live_map (sb_start s) K W" using assms by (auto simp: heap_ok_def)
  have inv: "heap_inv s n K W {}" using r(1) by (simp add: rep_def)
  have iff: "L a = Some x \<longleftrightarrow> W a = Live \<and> x = usable (sb_start s) K a" for a x
    using r(2) by (auto simp: live_map_def)
  have "\<exists>i. a \<in> blocks (sb_start s) K i" if "L a = Some x" for a x
    using owner_block[OF inv_own[OF inv], of a] that iff by auto
  with r iff show thesis by (rule that)
qed

text \<open>A change of memory inside live blocks.\<close>

lemma mem_write_ok:
  assumes ok: "heap_ok s L"
    and w: "\<And>b. m b \<noteq> mem s b \<Longrightarrow> \<exists>a x. L a = Some x \<and> a \<le> b \<and> b < a + x"
  shows "heap_ok (s\<lparr>mem := m\<rparr>) L"
proof -
  from ok obtain n K W where r: "rep s n K W" "L = live_map (sb_start s) K W"
      "\<And>a x. L a = Some x \<longleftrightarrow> W a = Live \<and> x = usable (sb_start s) K a"
      "\<And>a x. L a = Some x \<Longrightarrow> \<exists>i. a \<in> blocks (sb_start s) K i"
    by (rule live_block) blast
  have inv: "heap_inv s n K W {}" using r(1) by (simp add: rep_def)
  have "m c = mem s c" if c: "W c \<noteq> NoBlock" "W c \<noteq> Live" for c
  proof (rule ccontr)
    assume "m c \<noteq> mem s c"
    then obtain a x where a: "L a = Some x" "a \<le> c" "c < a + x" using w by blast
    obtain i where i: "a \<in> blocks (sb_start s) K i" using r(4)[OF a(1)] by blast
    obtain k where k: "c \<in> blocks (sb_start s) K k" using owner_block[OF inv_own[OF inv] c(1)] by blast
    have "c = a" using usable_block_unique[OF inv_geo[OF inv] i a(2) _ k] a(3) r(3) a(1) by auto
    then show False using c(2) r(3) a(1) by auto
  qed
  then have "heap_inv (s\<lparr>mem := m\<rparr>) n K W {}" by (intro inv_mem_frame[OF inv])
  then have "rep (s\<lparr>mem := m\<rparr>) n K W" using r(1) by (simp add: rep_def)
  then show ?thesis unfolding heap_ok_def using r(2) by (intro exI[of _ n] exI[of _ K] exI[of _ W]) simp
qed

lemma malloc_size_live:
  assumes "heap_ok s L" and "L p = Some x"
  shows "RP_malloc_size s p = x"
proof -
  from assms(1) obtain n K W where r: "rep s n K W"
      "\<And>a x. L a = Some x \<longleftrightarrow> W a = Live \<and> x = usable (sb_start s) K a"
      "\<And>a x. L a = Some x \<Longrightarrow> \<exists>i. a \<in> blocks (sb_start s) K i"
    by (rule live_block) blast
  have inv: "heap_inv s n K W {}" using r(1) by (simp add: rep_def)
  obtain i where i: "p \<in> blocks (sb_start s) K i" using r(3)[OF assms(2)] by blast
  note geo = inv_geo[OF inv]
  have x: "x = (case K i of SbSmall c \<Rightarrow> bs_of c | SbLarge m \<Rightarrow> m * SBSIZE | _ \<Rightarrow> 0)"
    using r(2) assms(2) usable_block[OF geo i] by simp
  have "d_block_size (descs s (dA (desc_start s) i)) = x"
  proof (cases "K i")
    case (SbSmall c)
    then show ?thesis using small_desc(2)[OF inv SbSmall] x by simp
  next
    case (SbLarge m)
    then show ?thesis using large_desc(2)[OF inv SbLarge] x by simp
  qed (use i in \<open>auto simp: blocks_def\<close>)
  then show ?thesis using desc_lookup_block[OF geo i] by (simp add: RP_malloc_size_def)
qed

lemma live_in_range:
  assumes "heap_ok s L" and "L p = Some x"
  shows "in_range_sb s p" and "0 < p"
  using live_facts[OF assms] by (auto simp: in_range_sb_def SBSIZE_eq)

end
