(* ===== verification/RallocThms.thy ===== *)
theory RallocThms
  imports RallocApi
begin

text \<open>
  The properties of recovery and of the allocator's interface (theories \<open>Recovery\<close> and
  \<open>RallocApi\<close>).
\<close>

section \<open>What survives a crash\<close>

text \<open>
  After a crash of a process whose heap was \<open>s\<close> with the live blocks \<open>L\<close>, the next process finds
  the regions where they were, the roots, and for every superblock that holds a live block the
  fields of its descriptor that are flushed when it is taken into use. The lists, the anchors, the
  other descriptors and the memory are arbitrary, and the caches are those of a new process.
\<close>

definition same_persistent :: "Descriptor \<Rightarrow> Descriptor \<Rightarrow> bool" where
  "same_persistent D D' \<longleftrightarrow>
     d_heap D' = d_heap D \<and> d_block_size D' = d_block_size D \<and> d_maxcount D' = d_maxcount D \<and>
     d_superblock D' = d_superblock D"

definition crashed :: "ralloc \<Rightarrow> (nat \<rightharpoonup> nat) \<Rightarrow> ralloc \<Rightarrow> bool" where
  "crashed s L s' \<longleftrightarrow>
     same_base s s' \<and> sb_region s' = sb_region s \<and> t_caches s' = (\<lambda>_ _. TCacheBin_init) \<and>
     (\<forall>c \<ge> MAX_SZ_IDX. partial_list s' c = partial_list s c) \<and>
     (\<forall>p x. L p = Some x \<longrightarrow>
        same_persistent (descs s (desc_lookup s p)) (descs s' (desc_lookup s p)))"

lemma rec_kind_block:
  assumes "a \<in> blocks st K i" and "a \<in> M"
  shows "rec_kind st K M i = K i" and "a \<in> blocks st (rec_kind st K M) i"
proof -
  show "rec_kind st K M i = K i"
    using assms by (cases "K i") (auto simp: blocks_def rec_kind_def)
  show "a \<in> blocks st (rec_kind st K M) i" using assms unfolding blocks_rec by auto
qed

lemma geo_same:
  "geo s n K \<Longrightarrow> same_base s s' \<Longrightarrow> sb_region s' = sb_region s \<Longrightarrow> geo s' n K"
  unfolding geo_def same_base_def by simp

lemma crash_persisted:
  assumes rep: "rep s n K W" and L: "L = live_map (sb_start s) K W" and cr: "crashed s L s'"
  shows "persisted s' n (rec_kind (sb_start s) K (dom L))"
proof -
  let ?st = "sb_start s"
  let ?R = "rec_kind ?st K (dom L)"
  have inv: "heap_inv s n K W {}" using rep by (simp add: rep_def)
  note geo = inv_geo[OF inv]
  have sb: "sb_start s' = ?st" "desc_start s' = desc_start s" using cr by (simp_all add: crashed_def same_base_def)
  let ?D = "\<lambda>i. descs s' (dA (desc_start s) i)"
  have eq: "same_persistent (descs s (dA (desc_start s) i)) (?D i)"
    if "a \<in> blocks ?st K i" "L a = Some x" for i a x
  proof -
    have "same_persistent (descs s (desc_lookup s a)) (descs s' (desc_lookup s a))"
      using cr that(2) unfolding crashed_def by blast
    then show ?thesis unfolding desc_lookup_block[OF geo that(1)] .
  qed
  have "case ?R i of
      SbSmall c \<Rightarrow> d_heap (?D i) = Some c \<and> d_block_size (?D i) = bs_of c \<and>
        d_maxcount (?D i) = bn_of c \<and> d_superblock (?D i) = sbA ?st i
    | SbLarge m \<Rightarrow> d_heap (?D i) = Some 0 \<and> d_block_size (?D i) = m * SBSIZE \<and>
        d_maxcount (?D i) = 1 \<and> d_superblock (?D i) = sbA ?st i
    | _ \<Rightarrow> True" for i
  proof (cases "?R i")
    case (SbSmall c)
    then have Ki: "K i = SbSmall c" and ne: "blocks ?st K i \<inter> dom L \<noteq> {}" unfolding rec_kind_iff by simp_all
    obtain a x where "a \<in> blocks ?st K i" "L a = Some x" using ne by blast
    note e = eq[OF this]
    show ?thesis using e small_desc(1-4)[OF inv Ki] SbSmall by (simp add: same_persistent_def)
  next
    case (SbLarge m)
    then have Ki: "K i = SbLarge m" and "sbA ?st i \<in> dom L" unfolding rec_kind_iff by simp_all
    then obtain x where x: "L (sbA ?st i) = Some x" by blast
    have "sbA ?st i \<in> blocks ?st K i" using Ki by (simp add: blocks_def)
    note e = eq[OF this x]
    have "d_maxcount (descs s (dA (desc_start s) i)) = 1" using inv_desc[OF inv, of i] Ki by (simp add: desc_ok_def Let_def)
    then show ?thesis using e large_desc(1-3)[OF inv Ki] SbLarge by (simp add: same_persistent_def)
  qed simp_all
  moreover have "same_base s s'" "sb_region s' = sb_region s" using cr unfolding crashed_def by blast+
  then have "geo s' n ?R" by (rule geo_same[OF geo_rec[OF geo]])
  ultimately show ?thesis unfolding persisted_def Let_def sb by blast
qed

lemma part_list_unused:
  assumes "rep s n K W" and "MAX_SZ_IDX \<le> c"
  shows "h_ptr (partial_list s c) = 0"
proof -
  have inv: "heap_inv s n K W {}" using assms(1) by (simp add: rep_def)
  have "nonfull s K c = {}" using inv_geo[OF inv] assms(2) unfolding nonfull_def geo_def by fastforce
  then show ?thesis using inv_part[OF inv, of c] by (auto simp: part_ok_def)
qed

text \<open>The live blocks of the heap a collection leaves.\<close>

lemma recovered_live:
  assumes geo: "geo s n K" and M: "M \<subseteq> dom L" and L: "L = live_map st K W"
    and blk: "\<And>a. a \<in> M \<Longrightarrow> \<exists>i. a \<in> blocks st K i"
  defines "K1 \<equiv> rec_kind st K (dom L)"
  defines "R \<equiv> rec_kind st K1 M"
  shows "live_map st R (rec_own st R M) = (\<lambda>p. if p \<in> M then L p else None)"
proof
  fix p
  have g1: "geo s n K1" unfolding K1_def by (rule geo_rec[OF geo])
  have g2: "geo s n R" unfolding R_def by (rule geo_rec[OF g1])
  show "live_map st R (rec_own st R M) p = (if p \<in> M then L p else None)"
  proof (cases "p \<in> M")
    case True
    then obtain i where i: "p \<in> blocks st K i" using blk by blast
    have pL: "p \<in> dom L" using True M by blast
    note k1 = rec_kind_block[OF i pL, folded K1_def]
    note k2 = rec_kind_block[OF k1(2) True, folded R_def]
    have "rec_own st R M p = Live" using True k2(2) by (auto simp: rec_own_def)
    moreover have "usable st R p = usable st K p"
      unfolding usable_block[OF g2 k2(2)] usable_block[OF geo i] k2(1) k1(1) ..
    moreover have "L p = Some (usable st K p)" using pL L by (auto simp: live_map_def split: if_splits)
    ultimately show ?thesis using True by (simp add: live_map_def)
  next
    case False
    then show ?thesis by (simp add: live_map_def rec_own_def)
  qed
qed

text \<open>
  C6. Recovery after the death of a process: it held the flag, and a heap with the live blocks \<open>L\<close> is left
  in the files. Provided that the regions are mapped again at the same addresses; that the persistent part of the heap
  (descriptors, free list heads, roots, block contents) is as the process left it; that every root in use has its filter
  function; that the filter functions a block is reached with agree; and that every address the filter functions find is the start
  of a live block. Then \<^verbatim>\<open>RP_recover\<close> ends without a failed assertion, reports a dirty start, sets the flag
  again, and leaves a heap of the allocator whose live blocks are exactly the reachable ones, with their sizes, and
  none of whose bytes it has changed. Everything else can be allocated again.
\<close>

theorem recovery_correct:
  assumes ok: "heap_ok s L" and cr: "crashed s L s'"
    and rf: "\<And>i. i < MAX_ROOTS \<Longrightarrow> \<not> cross_is_null (roots s' i) \<Longrightarrow> rf i \<noteq> None"
    and ag: "filters_agree flt rf (gc_init s')"
    and live: "\<And>p ty. reach flt rf (gc_init s') p ty \<Longrightarrow> L p \<noteq> None"
  defines "L' \<equiv> \<lambda>p. if \<exists>ty. reach flt rf (gc_init s') p ty then L p else None"
  shows "\<exists>s''. RP_recover flt rf s' u (thread_dies t (Locked t False)) = Ret (1, s'', Locked u False)
    \<and> heap_ok s'' L' \<and> same_base s s'' \<and> untouched L' s' s''"
proof -
  obtain n K W where r: "rep s n K W" "L = live_map (sb_start s) K W"
    "\<And>a x. L a = Some x \<Longrightarrow> \<exists>i. a \<in> blocks (sb_start s) K i"
    using ok by (rule live_block) blast
  let ?st = "sb_start s"
  let ?K = "rec_kind ?st K (dom L)"
  have inv: "heap_inv s n K W {}" and n: "0 < n" using r(1) by (simp_all add: rep_def)
  note geo = inv_geo[OF inv]
  have sb: "same_base s s'" "t_caches s' = (\<lambda>_ _. TCacheBin_init)"
    "\<And>c. MAX_SZ_IDX \<le> c \<Longrightarrow> partial_list s' c = partial_list s c"
    using cr unfolding crashed_def by blast+
  then have st: "sb_start s' = ?st" by (simp add: same_base_def)
  obtain gc0 where gc: "mark_roots (gc_init s') rf [0..<MAX_ROOTS] GarbageCollection_init = Ret gc0"
      "sorted_wrt (<) (marked_blk (mark_loop flt (gc_init s') gc0))"
      "set (marked_blk (mark_loop flt (gc_init s') gc0)) = {p. \<exists>ty. reach flt rf (gc_init s') p ty}"
    using mark_phase[of "gc_init s'" rf flt] rf ag by auto
  let ?ms = "marked_blk (mark_loop flt (gc_init s') gc0)"
  have M: "set ?ms \<subseteq> dom L" using live unfolding gc(3) by blast
  have blk: "\<exists>i. a \<in> blocks ?st K i" if "a \<in> set ?ms" for a using M r(3) that by blast
  have "\<exists>i. a \<in> blocks ?st ?K i" if "a \<in> set ?ms" for a
    using blk[OF that] M that rec_kind_block(2)[of a ?st K _ "dom L"] by blast
  then have mk: "marks_ok (sb_start s') ?K ?ms" unfolding marks_ok_def st using gc(2) by blast
  have pl: "h_ptr (partial_list s' c) = 0" if "MAX_SZ_IDX \<le> c" for c
    using part_list_unused[OF r(1) that] sb(3)[OF that] by simp
  let ?R = "rec_kind ?st ?K (set ?ms)"
  obtain s'' where c: "collect flt rf s' = Ret s''" "rep s'' n ?R (rec_own ?st ?R (set ?ms))" "same_base s' s''"
      "\<forall>b. mem s'' b \<noteq> mem s' b \<longrightarrow> b \<notin> set ?ms \<and> (\<exists>j. b \<in> blocks ?st ?R j)"
    using collect_ok[OF crash_persisted[OF r(1,2) cr] n sb(2) pl gc(1) mk] unfolding st by blast
  have L': "L' = live_map ?st ?R (rec_own ?st ?R (set ?ms))"
    using recovered_live[OF geo M r(2) blk] by (simp add: L'_def gc(3))
  have ss: "same_base s s''" by (rule same_base_trans[OF sb(1) c(3)])
  then have st'': "sb_start s'' = ?st" by (simp add: same_base_def)
  have "heap_ok s'' L'" unfolding heap_ok_def st'' L' using c(2) by blast
  moreover have "untouched L' s' s''" unfolding L'
  proof (rule untouchedI)
    have inv'': "heap_inv s'' n ?R (rec_own ?st ?R (set ?ms)) {}" using c(2) by (simp add: rep_def)
    show "geo s'' n ?R" by (rule inv_geo[OF inv''])
    show "own_ok ?st ?R (rec_own ?st ?R (set ?ms))" using inv_own[OF inv''] unfolding st'' .
    fix b assume "mem s'' b \<noteq> mem s' b"
    then have "b \<notin> set ?ms" "\<exists>j. b \<in> blocks ?st ?R j" using c(4) by blast+
    moreover from this have "rec_own ?st ?R (set ?ms) b = InSb" by (simp add: rec_own_def)
    ultimately show "(\<exists>k. b \<in> blocks ?st ?R k \<and> rec_own ?st ?R (set ?ms) b \<noteq> Live) \<or>
      (\<exists>k. sbA ?st k \<le> b \<and> b < sbA ?st k + SBSIZE \<and> blocks ?st ?R k = {} \<and> ?R k \<noteq> SbTail)" by auto
  qed
  moreover have "RP_recover flt rf s' u (thread_dies t (Locked t False)) = Ret (1, s'', Locked u False)"
    by (simp add: RP_recover_def restart_def is_dirty_def set_dirty_def c(1))
  ultimately show ?thesis using ss by blast
qed

lemma heap_ok_roots: "heap_ok s L \<Longrightarrow> heap_ok (s\<lparr>roots := r\<rparr>) L"
proof -
  assume "heap_ok s L"
  then obtain n K W where r: "rep s n K W" "L = live_map (sb_start s) K W" by (auto simp: heap_ok_def)
  let ?s = "s\<lparr>roots := r\<rparr>"
  have inv: "heap_inv s n K W {}" using r(1) by (simp add: rep_def)
  have "heap_inv ?s n K W {}"
  proof (rule heap_invI)
    show "geo ?s n K" "own_ok (sb_start ?s) K W" "free_ok ?s K"
      using inv_geo[OF inv] inv_own[OF inv] inv_free[OF inv] by (simp_all add: geo_def free_ok_def)
    show "part_ok ?s K {} c" for c using inv_part[OF inv, of c] by (simp add: part_ok_def nonfull_def)
    show "desc_ok ?s K W i" for i by (rule desc_ok_same[OF inv_desc[OF inv, of i]]) simp_all
    show "cache_ok ?s W t c" if "1 \<le> c" "c < MAX_SZ_IDX" for t c
      using inv_cache[OF inv that, of t] by (simp add: cache_ok_def)
  qed simp
  then have "rep ?s n K W" using r(1) by (simp add: rep_def)
  then show "heap_ok ?s L" unfolding heap_ok_def using r(2) by (intro exI[of _ n] exI[of _ K] exI[of _ W]) simp
qed

lemma root_cast:
  assumes "v \<noteq> rb"
  shows "cross_cast rb (cross_assign rb v) = v" and "\<not> cross_is_null (cross_assign rb v)"
  using assms by (simp_all add: cross_cast_def cross_assign_def cross_is_null_def translate_def untranslate_def)

theorem recovery_correct_witness:
  "\<exists>s s' s'' p x. heap_ok s [p \<mapsto> x] \<and> crashed s [p \<mapsto> x] s'
     \<and> RP_recover (\<lambda>_ _ _. []) (\<lambda>_. Some ()) s' (1, 0) (thread_dies (0, 0) (Locked (0, 0) False)) = Ret (1, s'', Locked (1, 0) False)
     \<and> heap_ok s'' [p \<mapsto> x]"
proof -
  obtain s0 p x where s0: "heap_ok s0 [p \<mapsto> x]" using example_live by blast
  let ?rb = "word_of_nat (sb_start s0) :: u64"
  let ?s = "s0\<lparr>roots := (\<lambda>i. if i = 0 then cross_assign ?rb (word_of_nat p) else 0)\<rparr>"
  let ?s' = "?s\<lparr>t_caches := \<lambda>_ _. TCacheBin_init\<rparr>"
  have ok: "heap_ok ?s [p \<mapsto> x]" by (rule heap_ok_roots[OF s0])
  have cr: "crashed ?s [p \<mapsto> x] ?s'" by (simp add: crashed_def same_base_def same_persistent_def)
  have f: "sb_start s0 + SBSIZE \<le> p" "p + x \<le> unat (rm_curr_addr (sb_region s0))" "8 \<le> x"
    using live_facts[OF s0, of p x] by simp_all
  have u: "unat (rm_curr_addr (sb_region s0)) < 2 ^ LENGTH(64)" by (rule unsigned_less)
  have pw: "unat (word_of_nat p :: u64) = p" using f(2) u by (intro unat_word_of_nat) simp
  have sw: "unat ?rb = sb_start s0" using f(1,2) u by (intro unat_word_of_nat) (simp add: SBSIZE_eq)
  have ne: "(word_of_nat p :: u64) \<noteq> ?rb"
  proof
    assume "(word_of_nat p :: u64) = ?rb"
    then have "unat (word_of_nat p :: u64) = unat ?rb" by (rule arg_cong)
    then have "p = sb_start s0" unfolding pw sw .
    then show False using f(1) by (simp add: SBSIZE_eq)
  qed
  note rc = root_cast[OF ne]
  have only: "q = p" if "reach (\<lambda>_ _ _. []) (\<lambda>_. Some ()) (gc_init ?s') q ty" for q ty
    using that
  proof (induction rule: reach.induct)
    case (root i ty q)
    then show ?case using rc pw by (cases "i = 0") (simp_all add: cross_is_null_def)
  qed simp
  have "in_range_sb (gc_init ?s') p" using f by (simp add: in_range_sb_def)
  then have pr: "reach (\<lambda>_ _ _. []) (\<lambda>_. Some ()) (gc_init ?s') p ()"
    by (intro reach.root[of 0]) (simp_all add: rc pw MAX_ROOTS_def)
  have "filters_agree (\<lambda>_ _ _. []) (\<lambda>_. Some ()) (gc_init ?s')" by (simp add: filters_agree_def)
  from recovery_correct[OF ok cr _ this, of "(1, 0)" "(0, 0)"] only
  obtain s'' where s'': "RP_recover (\<lambda>_ _ _. []) (\<lambda>_. Some ()) ?s' (1, 0) (thread_dies (0, 0) (Locked (0, 0) False)) = Ret (1, s'', Locked (1, 0) False)"
      "heap_ok s'' (\<lambda>q. if \<exists>ty. reach (\<lambda>_ _ _. []) (\<lambda>_. Some ()) (gc_init ?s') q ty then [p \<mapsto> x] q else None)"
    by auto
  have "(\<lambda>q. if \<exists>ty. reach (\<lambda>_ _ _. []) (\<lambda>_. Some ()) (gc_init ?s') q ty then [p \<mapsto> x] q else None) = [p \<mapsto> x]"
    using pr only by (auto simp: fun_eq_iff)
  note ok'' = s''(2)[unfolded this]
  show ?thesis
    by (rule exI[of _ ?s], rule exI[of _ ?s'], rule exI[of _ s''], rule exI[of _ p], rule exI[of _ x],
        intro conjI) (rule ok cr s''(1) ok'')+
qed

text \<open>
  The flag over the lives of a heap. In each life one thread calls \<^verbatim>\<open>RP_recover\<close>; the life ends with \<^verbatim>\<open>writeback\<close> by
  some thread and the end of the process, with a kill of the process, or with a loss of power, at which nobody hands on the
  mutex and its bytes stay what they were.
\<close>

datatype ending = Closed nat | Killed | PowerLoss

fun end_life :: "nat \<Rightarrow> nat \<Rightarrow> ending \<Rightarrow> mutex \<Rightarrow> mutex" where
  "end_life i k (Closed k') m = thread_dies (i, k) (writeback (i, k') m)"
| "end_life i k Killed m = thread_dies (i, k) m"
| "end_life i k PowerLoss m = m"

fun run_lives ::
  "('ty \<Rightarrow> ralloc \<Rightarrow> nat \<Rightarrow> (nat \<times> 'ty) list) \<Rightarrow> (nat \<Rightarrow> 'ty option) \<Rightarrow> nat \<Rightarrow> mutex \<Rightarrow> (ralloc \<times> nat \<times> ending) list
     \<Rightarrow> (bool \<times> ralloc) list run" where
  "run_lives flt rf i m [] = Ret []"
| "run_lives flt rf i m ((s, k, e) # ls) =
     bind_run (restart flt rf s (i, k) m) (\<lambda>(d, s', m').
     bind_run (run_lives flt rf (Suc i) (end_life i k e m') ls) (\<lambda>ds. Ret ((d, s') # ds)))"

text \<open>What should come out: the end of the last life decides, until a loss of power.\<close>

datatype flag = FlagClean | FlagDirty | FlagLost

fun flag_after :: "flag \<Rightarrow> nat \<Rightarrow> ending \<Rightarrow> flag" where
  "flag_after FlagLost k e = FlagLost"
| "flag_after f k (Closed k') = (if k' = k then FlagClean else FlagDirty)"
| "flag_after f k Killed = FlagDirty"
| "flag_after f k PowerLoss = FlagLost"

fun flag_lives ::
  "('ty \<Rightarrow> ralloc \<Rightarrow> nat \<Rightarrow> (nat \<times> 'ty) list) \<Rightarrow> (nat \<Rightarrow> 'ty option) \<Rightarrow> flag \<Rightarrow> (ralloc \<times> nat \<times> ending) list
     \<Rightarrow> (bool \<times> ralloc) list run" where
  "flag_lives flt rf f [] = Ret []"
| "flag_lives flt rf f ((s, k, e) # ls) =
     bind_run (if f = FlagDirty then collect flt rf s else Ret s) (\<lambda>s'.
     bind_run (flag_lives flt rf (flag_after f k e) ls) (\<lambda>ds. Ret ((f = FlagDirty, s') # ds)))"

fun flag_is :: "nat \<Rightarrow> flag \<Rightarrow> mutex \<Rightarrow> bool" where
  "flag_is i FlagClean m \<longleftrightarrow> m = Unlocked"
| "flag_is i FlagDirty m \<longleftrightarrow> m = OwnerDead \<or> m = Invalid"
| "flag_is i FlagLost m \<longleftrightarrow> (\<exists>j k. j < i \<and> m = Locked (j, k) False)"

lemma flag_is_less: "flag_is i f m \<Longrightarrow> flag_is (Suc i) f m"
  by (cases f) (auto intro: less_SucI)

lemma restart_step:
  assumes "flag_is i f m"
  shows "\<exists>m'. restart flt rf s (i, k) m = bind_run (if f = FlagDirty then collect flt rf s else Ret s) (\<lambda>s'. Ret (f = FlagDirty, s', m'))
    \<and> (\<forall>e. flag_is (Suc i) (flag_after f k e) (end_life i k e m'))"
proof (cases f)
  case FlagLost
  then obtain j k' where m: "m = Locked (j, k') False" "j < i" using assms by auto
  have "flag_is (Suc i) (flag_after f k e) (end_life i k e m)" for e
    using m FlagLost by (cases e) (auto simp: writeback_def set_clean_def)
  moreover have "restart flt rf s (i, k) m = Ret (False, s, m)" using m by (simp add: restart_def is_dirty_def set_dirty_def)
  ultimately show ?thesis using FlagLost by (intro exI[of _ m]) simp
next
  case FlagClean
  then have m: "m = Unlocked" using assms by simp
  have "flag_is (Suc i) (flag_after f k e) (end_life i k e (Locked (i, k) False))" for e
    using FlagClean by (cases e) (auto simp: writeback_def set_clean_def)
  moreover have "restart flt rf s (i, k) m = Ret (False, s, Locked (i, k) False)" using m by (simp add: restart_def is_dirty_def set_dirty_def)
  ultimately show ?thesis using FlagClean by (intro exI[of _ "Locked (i, k) False"]) simp
next
  case FlagDirty
  then have m: "m = OwnerDead \<or> m = Invalid" using assms by simp
  have "flag_is (Suc i) (flag_after f k e) (end_life i k e (Locked (i, k) False))" for e
    using FlagDirty by (cases e) (auto simp: writeback_def set_clean_def)
  moreover have "restart flt rf s (i, k) m = bind_run (collect flt rf s) (\<lambda>s'. Ret (True, s', Locked (i, k) False))"
    using m by (elim disjE) (simp_all add: restart_def is_dirty_def set_dirty_def pthread_mutex_init_def)
  ultimately show ?thesis using FlagDirty by (intro exI[of _ "Locked (i, k) False"]) simp
qed

lemma run_lives_flag: "flag_is i f m \<Longrightarrow> run_lives flt rf i m ls = flag_lives flt rf f ls"
proof (induction ls arbitrary: i f m)
  case (Cons l ls)
  obtain s k e where l: "l = (s, k, e)" by (cases l) auto
  obtain m' where m': "restart flt rf s (i, k) m = bind_run (if f = FlagDirty then collect flt rf s else Ret s) (\<lambda>s'. Ret (f = FlagDirty, s', m'))"
    "flag_is (Suc i) (flag_after f k e) (end_life i k e m')"
    using restart_step[OF Cons.prems] by blast
  show ?case
    using m'(1) Cons.IH[OF m'(2)] unfolding l
    by (cases "if f = FlagDirty then collect flt rf s else Ret s") simp_all
qed simp


text \<open>A killed process is noticed; a loss of power is not.\<close>

lemma restart_flag_example:
  "run_lives flt rf 1 (end_life 0 0 PowerLoss (Locked (0, 0) False)) [(s, 0, Killed), (s', 0, Killed)] = Ret [(False, s), (False, s')]"
  by (simp add: restart_def is_dirty_def set_dirty_def)

section \<open>The interface\<close>

lemma untouched_memset: "untouched L s (s\<lparr>mem := m\<rparr>) \<longleftrightarrow>
   (\<forall>a x b. L a = Some x \<longrightarrow> a \<le> b \<longrightarrow> b < a + x \<longrightarrow> m b = mem s b)"
  by (simp add: untouched_def)

lemma untouchedD:
  "untouched L s s' \<Longrightarrow> L a = Some x \<Longrightarrow> a \<le> b \<Longrightarrow> b < a + x \<Longrightarrow> mem s' b = mem s b"
  unfolding untouched_def by blast

lemma apart_other:
  assumes "heap_ok s (L(p \<mapsto> x))" and "L p = None" and "L a = Some y" and "a \<le> b" and "b < a + y"
  shows "\<not> (p \<le> b \<and> b < p + x)"
proof -
  have "a \<noteq> p" using assms(2,3) by auto
  then have "a + y \<le> p \<or> p + x \<le> a"
    using live_apart_ok[OF assms(1)] assms(3) unfolding apart_def by (metis fun_upd_other fun_upd_same)
  then show ?thesis using assms(4,5) by linarith
qed

text \<open>
  C15. Zeroed allocation: a request of \<open>num\<close> objects of \<open>sz\<close> bytes whose product, as a number without
  wrap-around, is at most \<open>MAX_LARGE\<close> returns a block that holds them all, every byte of which is 0, adds exactly
  this block to the live ones and changes no byte of the others; the only other outcome is an
  abort for lack of space.
\<close>

theorem calloc_correct:
  assumes ok: "heap_ok s L" and sz: "unat num * unat sz \<le> MAX_LARGE"
  shows "(\<exists>p s' x. RP_calloc True s t num sz = Ret (p, s') \<and> L p = None \<and> unat num * unat sz \<le> x
      \<and> heap_ok s' (L(p \<mapsto> x)) \<and> (\<forall>b. p \<le> b \<and> b < p + x \<longrightarrow> mem s' b = 0) \<and> untouched L s s')
    \<or> (\<exists>msg. RP_calloc True s t num sz = Abort msg
         \<and> no_room s (max SB_REGION_EXPAND_SIZE (unat num * unat sz + SBSIZE)))"
proof -
  have u: "unat (num * sz) = unat num * unat sz"
    using sz by (simp add: unat_word_ariths MAX_LARGE_def)
  from malloc_contract[OF ok sz, of t] show ?thesis
  proof
    assume "\<exists>p s' x. do_malloc s t (unat num * unat sz) = Ret (p, s') \<and> L p = None \<and> unat num * unat sz \<le> x
      \<and> heap_ok s' (L(p \<mapsto> x)) \<and> same_base s s' \<and> untouched L s s'"
    then obtain p s1 x where m: "do_malloc s t (unat num * unat sz) = Ret (p, s1)" "L p = None"
        "unat num * unat sz \<le> x" "heap_ok s1 (L(p \<mapsto> x))" "untouched L s s1" by blast
    let ?s = "s1\<lparr>mem := memset (mem s1) p 0 x\<rparr>"
    have p: "p \<noteq> 0" "RP_malloc_size s1 p = x"
      using live_in_range(2)[OF m(4), of p x] malloc_size_live[OF m(4), of p x] by simp_all
    have run: "RP_calloc True s t num sz = Ret (p, ?s)"
      using m(1) p by (simp add: RP_calloc_def RP_malloc_def u)
    have ok': "heap_ok ?s (L(p \<mapsto> x))"
      by (rule mem_write_ok[OF m(4)]) (auto simp: memset_def split: if_splits intro!: exI[of _ p])
    have "memset (mem s1) p 0 x b = mem s1 b" if "L a = Some y" "a \<le> b" "b < a + y" for a y b
      unfolding memset_def using apart_other[OF m(4,2) that] by argo
    then have "untouched L s1 ?s" unfolding untouched_memset by blast
    then have "untouched L s ?s" by (rule untouched_trans[OF m(5)])
    then show ?thesis using run m(2,3) ok' by (intro disjI1) (auto simp: memset_def)
  next
    assume "\<exists>msg. do_malloc s t (unat num * unat sz) = Abort msg
      \<and> no_room s (max SB_REGION_EXPAND_SIZE (unat num * unat sz + SBSIZE))"
    then show ?thesis by (auto simp: RP_calloc_def RP_malloc_def u)
  qed
qed

theorem calloc_correct_witness:
  "\<exists>s p s' x. heap_ok s Map.empty \<and> RP_calloc True s 3 10 8 = Ret (p, s') \<and> 80 \<le> x
     \<and> heap_ok s' [p \<mapsto> x] \<and> mem s' p = 0"
proof -
  obtain s where s: "heap_ok s Map.empty" "\<not> no_room s (max SB_REGION_EXPAND_SIZE (100 + SBSIZE))"
    using example_init by blast
  have sz: "unat (10 :: u64) * unat (8 :: u64) \<le> MAX_LARGE" by (simp add: MAX_LARGE_def SBSIZE_eq)
  have "max SB_REGION_EXPAND_SIZE (unat (10 :: u64) * unat (8 :: u64) + SBSIZE) = max SB_REGION_EXPAND_SIZE (100 + SBSIZE)"
    by (simp add: SB_REGION_EXPAND_SIZE_def SBSIZE_eq)
  with calloc_correct[OF s(1) sz, of 3] s(2) obtain p s' x where r: "RP_calloc True s 3 10 8 = Ret (p, s')"
      "80 \<le> x" "heap_ok s' [p \<mapsto> x]" "\<forall>b. p \<le> b \<and> b < p + x \<longrightarrow> mem s' b = 0"
    by auto
  then have "mem s' p = 0" by simp
  with s(1) r show ?thesis by blast
qed

text \<open>
  The states of a reallocation of the live block \<open>p\<close> of \<open>x\<close> bytes to another size: after the copy of
  \<open>x\<close> bytes into the new block the old one is freed.
\<close>

lemma realloc_run:
  assumes ok: "heap_ok s L" and p: "L p = Some x" and sz: "sz \<noteq> x"
    and m: "do_malloc s t sz = Ret (q, s1)" "heap_ok s1 (L(q \<mapsto> y))"
  shows "RP_realloc True s t p sz =
    bind_run (do_free (s1\<lparr>mem := memcpy (mem s1) q p x\<rparr>) t p) (\<lambda>s3. Ret (q, s3))"
proof -
  have "q \<noteq> 0" using live_in_range(2)[OF m(2), of q y] by simp
  then show ?thesis using live_in_range[OF ok p] malloc_size_live[OF ok p] sz m(1)
    by (simp add: RP_realloc_def RP_malloc_def RP_free_def Let_def)
qed

text \<open>
  C14. Growing a block: reallocation of a live block of \<open>x\<close> bytes to at least as many, and at most \<open>MAX_LARGE\<close>, returns a block
  of the new size that starts with the contents of the old one, frees exactly the old block and
  changes no byte of the others; a request for the block's own size returns it unchanged, and
  the only other outcome is an abort for lack of space.
\<close>

theorem realloc_grow:
  assumes ok: "heap_ok s L" and p: "L p = Some x" and sz: "x \<le> sz" "sz \<le> MAX_LARGE"
  shows "(\<exists>q s' y. RP_realloc True s t p sz = Ret (q, s') \<and> sz \<le> y \<and> heap_ok s' ((L(p := None))(q \<mapsto> y))
      \<and> (\<forall>b < x. mem s' (q + b) = mem s (p + b)) \<and> untouched (L(p := None)) s s')
    \<or> (\<exists>msg. RP_realloc True s t p sz = Abort msg \<and> no_room s (max SB_REGION_EXPAND_SIZE (sz + SBSIZE)))"
proof (cases "sz = x")
  case True
  then have "RP_realloc True s t p sz = Ret (p, s)"
    using live_in_range[OF ok p] malloc_size_live[OF ok p] by (simp add: RP_realloc_def Let_def)
  moreover have "(L(p := None))(p \<mapsto> x) = L" using p by (simp add: map_upd_triv)
  ultimately show ?thesis using ok True by (intro disjI1 exI[of _ p] exI[of _ s] exI[of _ x]) simp
next
  case ne: False
  from malloc_contract[OF ok sz(2), of t] show ?thesis
  proof
    assume "\<exists>q s' y. do_malloc s t sz = Ret (q, s') \<and> L q = None \<and> sz \<le> y
      \<and> heap_ok s' (L(q \<mapsto> y)) \<and> same_base s s' \<and> untouched L s s'"
    then obtain q s1 y where m: "do_malloc s t sz = Ret (q, s1)" "L q = None" "sz \<le> y"
        "heap_ok s1 (L(q \<mapsto> y))" "untouched L s s1" by blast
    let ?m = "memcpy (mem s1) q p x"
    let ?s2 = "s1\<lparr>mem := ?m\<rparr>"
    let ?L = "(L(q \<mapsto> y))(p := None)"
    have pq: "p \<noteq> q" using p m(2) by auto
    have xy: "x \<le> y" using sz(1) m(3) by simp
    have ok2: "heap_ok ?s2 (L(q \<mapsto> y))"
      by (rule mem_write_ok[OF m(4)]) (use xy in \<open>auto simp: memcpy_def split: if_splits intro!: exI[of _ q]\<close>)
    have "(L(q \<mapsto> y)) p = Some x" using p pq by simp
    from free_contract[OF ok2 this, of t] obtain s3 where s3: "do_free ?s2 t p = Ret s3" "heap_ok s3 ?L"
        "untouched ?L ?s2 s3" by blast
    have run: "RP_realloc True s t p sz = Ret (q, s3)"
      using realloc_run[OF ok p ne m(1,4)] s3(1) by simp
    have Leq: "?L = (L(p := None))(q \<mapsto> y)" using pq by (simp add: fun_upd_twist)
    have copy: "mem s3 (q + b) = mem s (p + b)" if b: "b < x" for b
    proof -
      have "mem s3 (q + b) = ?m (q + b)" using untouchedD[OF s3(3), of q y "q + b"] b xy pq by simp
      also have "\<dots> = mem s1 (p + b)" using b by (simp add: memcpy_def)
      also have "\<dots> = mem s (p + b)" using untouchedD[OF m(5) p, of "p + b"] b by simp
      finally show ?thesis .
    qed
    have "mem s3 b = mem s b" if a: "(L(p := None)) a = Some z" "a \<le> b" "b < a + z" for a z b
    proof -
      have La: "L a = Some z" "a \<noteq> p" using a(1) by (auto split: if_splits)
      have "a \<noteq> q" using La m(2) by auto
      then have "?L a = Some z" using La by simp
      then have "mem s3 b = ?m b" using untouchedD[OF s3(3) _ a(2,3)] by simp
      also have "\<dots> = mem s1 b"
        unfolding memcpy_def using apart_other[OF m(4,2) La(1) a(2,3)] xy by auto
      also have "\<dots> = mem s b" by (rule untouchedD[OF m(5) La(1) a(2,3)])
      finally show ?thesis .
    qed
    then have "untouched (L(p := None)) s s3" unfolding untouched_def by blast
    then show ?thesis using run m(3) s3(2) copy unfolding Leq by blast
  next
    assume "\<exists>msg. do_malloc s t sz = Abort msg \<and> no_room s (max SB_REGION_EXPAND_SIZE (sz + SBSIZE))"
    then show ?thesis using live_in_range[OF ok p] malloc_size_live[OF ok p] ne
      by (auto simp: RP_realloc_def RP_malloc_def Let_def)
  qed
qed

lemma live_size_le:
  assumes "heap_ok s L" and "L p = Some x"
  shows "x \<le> MAX_LARGE"
proof -
  from assms(1) obtain n K W where r: "rep s n K W"
      "\<And>a x. L a = Some x \<longleftrightarrow> W a = Live \<and> x = usable (sb_start s) K a"
      "\<And>a x. L a = Some x \<Longrightarrow> \<exists>i. a \<in> blocks (sb_start s) K i"
    by (rule live_block) blast
  have inv: "heap_inv s n K W {}" using r(1) by (simp add: rep_def)
  obtain i where i: "p \<in> blocks (sb_start s) K i" using r(3)[OF assms(2)] by blast
  have x: "x = (case K i of SbSmall c \<Rightarrow> bs_of c | SbLarge m \<Rightarrow> m * SBSIZE | _ \<Rightarrow> 0)"
    using r(2) assms(2) usable_block[OF inv_geo[OF inv] i] by simp
  show ?thesis
  proof (cases "K i")
    case (SbSmall c)
    have "bs_of c \<le> SBSIZE"
      using block_span[of c 0] class_pos small_desc(6,7)[OF inv SbSmall] by simp
    then show ?thesis using x SbSmall by (simp add: MAX_LARGE_def SBSIZE_eq)
  next
    case (SbLarge m)
    then show ?thesis using x large_desc(5)[OF inv SbLarge] by (simp add: MAX_LARGE_def SBSIZE_eq)
  qed (use x in simp_all)
qed

theorem realloc_grow_witness:
  "\<exists>s p x q s' y. heap_ok s [p \<mapsto> x] \<and> 100 \<le> x \<and> RP_realloc True s 0 p (x + 1) = Ret (q, s')
     \<and> x < y \<and> heap_ok s' [q \<mapsto> y] \<and> (\<forall>b < x. mem s' (q + b) = mem s (p + b))"
proof -
  obtain s p x where s: "heap_ok s [p \<mapsto> x]" "100 \<le> x" "x \<le> SBSIZE" "\<not> no_room s SB_REGION_EXPAND_SIZE"
    using example_live_room by blast
  have p: "[p \<mapsto> x] p = Some x" by simp
  have e: "[p \<mapsto> x](p := None) = Map.empty" by auto
  have "x + 1 \<le> MAX_LARGE" "max SB_REGION_EXPAND_SIZE (x + 1 + SBSIZE) = SB_REGION_EXPAND_SIZE"
    using s(3) by (simp_all add: MAX_LARGE_def SBSIZE_eq SB_REGION_EXPAND_SIZE_def)
  with realloc_grow[OF s(1) p _ this(1), of 0] s(4) obtain q s' y where
      "RP_realloc True s 0 p (x + 1) = Ret (q, s')" "x + 1 \<le> y" "heap_ok s' [q \<mapsto> y]"
      "\<forall>b < x. mem s' (q + b) = mem s (p + b)"
    unfolding e by fastforce
  then show ?thesis using s(1,2) by (intro exI[of _ s] exI[of _ p] exI[of _ x] exI[of _ q] exI[of _ s'] exI[of _ y]) simp
qed

text \<open>
  Shrinking copies the old size as well: when the new block is smaller, the bytes behind it are
  overwritten.
\<close>

lemma realloc_shrink_overrun:
  assumes "heap_ok s L" and "L p = Some x" and "sz \<noteq> x"
    and "do_malloc s t sz = Ret (q, s1)" "heap_ok s1 (L(q \<mapsto> y))" and "y < x"
  shows "\<exists>m. RP_realloc True s t p sz = bind_run (do_free (s1\<lparr>mem := m\<rparr>) t p) (\<lambda>s3. Ret (q, s3))
    \<and> m (q + y) = mem s1 (p + y)"
  using realloc_run[OF assms(1-5)] assms(6) by (auto simp: memcpy_def)

text \<open>
  C18. Roots: after \<^verbatim>\<open>RP_set_root(p, i)\<close> of any pointer but the very start of the superblock region
  (which no block has), null included, \<^verbatim>\<open>RP_get_root(i)\<close> returns \<open>p\<close> and registers the filter
  function; \<^verbatim>\<open>RP_set_root\<close> returns what \<^verbatim>\<open>RP_get_root\<close> would have returned before, and the
  other roots are unchanged. An index beyond the table stops both.
\<close>

theorem root_roundtrip:
  assumes "p \<noteq> word_of_nat (sb_start s)"
  shows "if i < MAX_ROOTS
    then \<exists>s' old. RP_set_root True init s p i = Ret (old, s') \<and> RP_get_root True s rf ty i = Ret (old, rf(i \<mapsto> ty))
      \<and> RP_get_root True s' rf ty i = Ret (p, rf(i \<mapsto> ty))
      \<and> (\<forall>j. j \<noteq> i \<longrightarrow> RP_get_root True s' rf ty j = RP_get_root True s rf ty j)
    else (\<exists>msg. RP_set_root True init s p i = Abort msg) \<and> (\<exists>msg. RP_get_root True s rf ty i = Abort msg)"
proof (cases "i < MAX_ROOTS")
  case True
  have "(if \<not> cross_is_null (roots s i) then cross_cast (word_of_nat (sb_start s)) (roots s i) else 0) =
    cross_cast (word_of_nat (sb_start s)) (roots s i)"
    by (simp add: cross_cast_def)
  then show ?thesis using True root_cast(1)[OF assms]
    by (simp add: RP_set_root_def RP_get_root_def set_root_def get_root_def Let_def)
qed (simp add: RP_set_root_def RP_get_root_def set_root_def get_root_def assert_run_def)

theorem root_roundtrip_witness:
  "\<exists>s s' old. sb_start s = 0x20000 \<and> RP_set_root True OutOfFuel s 0x30000 7 = Ret (old, s')
     \<and> RP_get_root True s' (\<lambda>_. None) () 7 = Ret (0x30000, [7 \<mapsto> ()])"
proof -
  let ?s = "\<lparr>sb_region = example_sb_region, sb_start = 0x20000, desc_start = 64, descs = (\<lambda>_. Descriptor_init),
    mem = (\<lambda>_. 0), avail_sb = \<lparr>h_ptr = 0, h_cnt = 0\<rparr>, partial_list = (\<lambda>_. \<lparr>h_ptr = 0, h_cnt = 0\<rparr>),
    roots = (\<lambda>_. 0), t_caches = (\<lambda>_ _. TCacheBin_init)\<rparr>"
  have "(0x30000 :: u64) \<noteq> word_of_nat (sb_start ?s)" "7 < MAX_ROOTS" by (simp_all add: MAX_ROOTS_def)
  then obtain s' old where "RP_set_root True OutOfFuel ?s 0x30000 7 = Ret (old, s')"
      "RP_get_root True s' (\<lambda>_. None) () 7 = Ret (0x30000, [7 \<mapsto> ()])"
    using root_roundtrip[of "0x30000" ?s 7 OutOfFuel "\<lambda>_. None" "()"] by auto
  moreover have "sb_start ?s = 0x20000" by simp
  ultimately show ?thesis by blast
qed

section \<open>Starting from scratch\<close>

text \<open>The superblock region of a new heap of \<open>n\<close> superblocks.\<close>

lemma fresh_sb_region:
  assumes sa: "0 < sa" "unat sa + n * SBSIZE + 8192 < 2 ^ 48"
  defines "sb \<equiv> map_persistent_region (rm_filesize (word_of_nat (n * SBSIZE))) sa
     \<lparr>f_curr_addr = 0, f_heap_start = 0, f_size = 0\<rparr>"
  shows "RegionManager_create None sa (word_of_nat (n * SBSIZE)) True False t = Ret sb"
    and "region_ok sb" and "unat (rm_curr_addr sb) = unat sa + 4096" and "base_addr sb = sa"
    and "unat (FILESIZE sb) = n * SBSIZE + 8192"
proof -
  have u: "unat (word_of_nat (n * SBSIZE) :: u64) = n * SBSIZE" using sa(2) by (intro unat_word_of_nat) simp
  have "n * SBSIZE div 4096 * 4096 = n * SBSIZE" by (simp add: SBSIZE_eq)
  then show fs: "unat (FILESIZE sb) = n * SBSIZE + 8192"
    using unat_filesize[of "word_of_nat (n * SBSIZE)"] u sa(2) by (simp add: sb_def map_persistent_region_def)
  have F: "unat (rm_filesize (word_of_nat (n * SBSIZE))) = n * SBSIZE + 8192"
    using fs by (simp add: sb_def map_persistent_region_def)
  note m = region_ok_map[OF sa(1), of "rm_filesize (word_of_nat (n * SBSIZE))"
      "\<lparr>f_curr_addr = 0, f_heap_start = 0, f_size = 0\<rparr>", folded sb_def, unfolded F]
  show "region_ok sb" using m sa(2) by simp
  have "rm_curr_addr sb = sa + PAGESIZE64" using m sa(2) by simp
  then show "unat (rm_curr_addr sb) = unat sa + 4096"
    using sa(2) by (simp add: unat_plus_48 PAGESIZE64_def)
  show "base_addr sb = sa" by (simp add: sb_def map_persistent_region_def)
  have "(word_of_nat (n * SBSIZE) :: u64) mod 64 = 0"
  proof -
    have "unat ((word_of_nat (n * SBSIZE) :: u64) mod 64) = n * SBSIZE mod 64"
      unfolding unat_mod_distrib u by simp
    also have "\<dots> = 0" by (simp add: SBSIZE_eq)
    finally show ?thesis by (simp add: unat_eq_zero)
  qed
  then show "RegionManager_create None sa (word_of_nat (n * SBSIZE)) True False t = Ret sb"
    by (simp add: RegionManager_create_def CACHELINE_SIZE64_def sb_def)
qed

lemma init_no_room:
  assumes ok: "region_ok r"
    and room: "unat (base_addr r) + unat (FILESIZE r)
      < align_up (unat (rm_curr_addr r)) SBSIZE + SB_REGION_EXPAND_SIZE"
  shows "BaseMeta_init r dstart ds m = Abort ''warmup sb allocation fails!''"
proof -
  let ?sz = "word_of_nat SB_REGION_EXPAND_SIZE :: u64"
  have usz: "unat ?sz = SB_REGION_EXPAND_SIZE" by (rule unat_word_of_nat) (simp add: SB_REGION_EXPAND_SIZE_def)
  have lt: "unat ?sz < 2 ^ 63" unfolding usz by (simp add: SB_REGION_EXPAND_SIZE_def)
  have ne: "?sz \<noteq> 0"
  proof
    assume "?sz = 0"
    then have "unat ?sz = 0" by simp
    then show False unfolding usz by (simp add: SB_REGION_EXPAND_SIZE_def)
  qed
  have sb: "(word_of_nat SBSIZE :: u64) = 2 ^ 16" "(2::nat) ^ 16 = SBSIZE" by (simp_all add: SBSIZE_eq)
  note spec = nvm_region_allocator_spec[OF ok _ _ ne lt, of 16, unfolded usz sb(2)]
  have "nvm_region_allocator r r (2 ^ 16) ?sz = (-1, None, r)" using spec room by simp
  then show ?thesis unfolding BaseMeta_init_def sb(1) by simp
qed

lemma init_fresh_eq:
  assumes da: "0 < da" "4096 dvd unat da" "unat da + n * DESCSIZE + 8192 < 2 ^ 48"
    and sa: "0 < sa" "unat sa + n * SBSIZE + 8192 < 2 ^ 48"
    and ma: "0 < ma" "4096 dvd unat ma" "unat ma + unat msz + 8192 < 2 ^ 48" "msz mod 64 = 0" "msz \<noteq> 0"
    and sz: "unat sz div SBSIZE = n" "SB_REGION_EXPAND_SIZE \<le> unat sz" "sz < MAX_SB_REGION_SIZE"
  defines "sb \<equiv> map_persistent_region (rm_filesize (word_of_nat (n * SBSIZE))) sa
     \<lparr>f_curr_addr = 0, f_heap_start = 0, f_size = 0\<rparr>"
  shows "\<exists>f. RP_init_fresh da sa ma msz t sz ds m =
     bind_run (BaseMeta_init sb (unat da + 4096) ds m) (\<lambda>s. Ret (0, f s, s))
     \<and> (\<forall>s. regions_address (f s) 1 = word_of_nat (sb_start s) \<and> regions_address (f s) 0 = da + 4096
          \<and> cur_idx (f s) = 3)"
proof -
  note fr = fresh_sb_region[OF sa, folded sb_def]
  let ?dsz = "word_of_nat (n * DESCSIZE) :: u64"
  have ud: "unat ?dsz = n * DESCSIZE" using da(3) by (intro unat_word_of_nat) simp
  have n: "0 < n" using sz(1,2) by (simp add: SB_REGION_EXPAND_SIZE_def SBSIZE_eq)
  have "n \<le> unat sz" using sz(1) by auto
  moreover have "unat sz < 2 ^ LENGTH(64)" by (rule unsigned_less)
  ultimately have "n < 2 ^ 64" by simp
  then have "unat (word_of_nat n :: u64) = n" by (intro unat_word_of_nat) simp
  moreover have "unat (sz div word_of_nat SBSIZE) = n" using sz(1) unfolding unat_div_distrib by (simp add: SBSIZE_eq)
  ultimately have num: "sz div word_of_nat SBSIZE = word_of_nat n" by (intro unat_eqD) simp
  have "unat (?dsz mod 64) = 0" unfolding unat_mod_distrib ud by (simp add: DESCSIZE_def)
  then have d64: "?dsz mod 64 = 0" by (simp add: unat_eq_zero)
  have dne: "?dsz \<noteq> 0"
  proof
    assume "?dsz = 0"
    then have "unat ?dsz = 0" by simp
    then show False unfolding ud using n by (simp add: DESCSIZE_def)
  qed
  obtain r where r: "RegionManager_create None da ?dsz True True t = Ret r" "fetch_heap_start r = da + 4096"
    using region_create_ok[OF da(1,2) d64 dne, of True t] da(3) unfolding ud by blast
  obtain q where q: "RegionManager_create None ma msz True True t = Ret q"
    using region_create_ok[OF ma(1,2,4,5) ma(3), of True t] by blast
  have lim: "sz < MAX_SB_REGION_SIZE" "sz \<ge> MIN_SB_REGION_SIZE"
    using sz(2,3) by (simp_all add: word_le_nat_alt MIN_SB_REGION_SIZE_def SB_REGION_EXPAND_SIZE_def)
  have ua: "unat (da + 4096) = unat da + 4096" using da(3) by (subst unat_plus_48) auto
  let ?rg = "\<lparr>regions = (\<lambda>_. None)(0 := Some r, Suc 0 := Some sb),
    regions_address = (\<lambda>_. 0)(0 := da + 4096, Suc 0 := 0), cur_idx = 2\<rparr>"
  let ?f = "\<lambda>s. ?rg\<lparr>regions := (regions ?rg)(1 := Some (sb_region s), 2 := Some q),
      regions_address := (regions_address ?rg)(1 := word_of_nat (sb_start s), 2 := fetch_heap_start q), cur_idx := 3\<rparr>"
  show ?thesis
    by (rule exI[of _ ?f], intro conjI)
       (use r q fr(1) lim num ua in \<open>simp_all add: RP_init_fresh_def Let_def Regions_create_def Regions_init_def numeral_2_eq_2 numeral_3_eq_3\<close>)
qed

text \<open>
  C17. Starting from scratch: for non-zero addresses of the three mappings that leave the regions below the 48-bit
  limit, those of the descriptors and of the metadata page aligned, a metadata size that is a non-zero multiple of the cache line, and
  any size of at least one superblock more than the minimum of one gigabyte and less than the maximum of one terabyte (what is
  beyond a multiple of the superblock size is not used), \<^verbatim>\<open>RP_init\<close> reports a new
  heap, and the allocator starts with no live block in a superblock region whose recorded start is
  aligned to the superblock size; the superblock region starts above its base.
\<close>

theorem rp_init_fresh:
  assumes "0 < da" "4096 dvd unat da" "unat da + unat sz div SBSIZE * DESCSIZE + 8192 < 2 ^ 48"
    and "0 < sa" "unat sa + unat sz + 8192 < 2 ^ 48"
    and "0 < ma" "4096 dvd unat ma" "unat ma + unat msz + 8192 < 2 ^ 48" "msz mod 64 = 0" "msz \<noteq> 0"
    and "unat MIN_SB_REGION_SIZE + SBSIZE \<le> unat sz" "sz < MAX_SB_REGION_SIZE"
  shows "\<exists>rg s. RP_init_fresh da sa ma msz t sz ds m = Ret (0, rg, s)
    \<and> heap_ok s Map.empty \<and> regions_address rg 1 = word_of_nat (sb_start s) \<and> cur_idx rg = 3
    \<and> SBSIZE dvd sb_start s \<and> unat sa < sb_start s"
proof -
  define n where "n = unat sz div SBSIZE"
  let ?sb = "map_persistent_region (rm_filesize (word_of_nat (n * SBSIZE))) sa
     \<lparr>f_curr_addr = 0, f_heap_start = 0, f_size = 0\<rparr>"
  have min: "SB_REGION_EXPAND_SIZE = unat MIN_SB_REGION_SIZE" "SB_REGION_EXPAND_SIZE = 16384 * SBSIZE"
    by (simp_all add: SB_REGION_EXPAND_SIZE_def MIN_SB_REGION_SIZE_def SBSIZE_eq)
  have le: "n * SBSIZE \<le> unat sz" by (simp add: n_def)
  have "16385 * SBSIZE \<le> unat sz" using assms(11) min by simp
  then have "16385 \<le> n" unfolding n_def by (simp add: SBSIZE_eq)
  then have big: "SB_REGION_EXPAND_SIZE + SBSIZE \<le> n * SBSIZE" unfolding min(2) by (simp add: SBSIZE_eq)
  have sa: "unat sa + n * SBSIZE + 8192 < 2 ^ 48" using assms(5) le by simp
  note fr = fresh_sb_region(2-5)[OF assms(4) sa]
  have "SB_REGION_EXPAND_SIZE \<le> unat sz" using assms(11) min(1) by simp
  then obtain f where f: "RP_init_fresh da sa ma msz t sz ds m =
      bind_run (BaseMeta_init ?sb (unat da + 4096) ds m) (\<lambda>s. Ret (0, f s, s))"
      "\<forall>s. regions_address (f s) 1 = word_of_nat (sb_start s) \<and> cur_idx (f s) = 3"
    using init_fresh_eq[OF assms(1,2) assms(3)[folded n_def] assms(4) sa assms(6-10) n_def[symmetric] _ assms(12)] by blast
  have d: "DESCSIZE dvd unat da + 4096"
  proof -
    have "DESCSIZE dvd 4096" by (simp add: DESCSIZE_def)
    then show ?thesis using assms(2) by (meson dvd_add dvd_trans)
  qed
  have "align_up (unat (rm_curr_addr ?sb)) SBSIZE < unat sa + 4096 + SBSIZE"
    unfolding fr(2) by (rule align_up_lt) simp
  then have room: "align_up (unat (rm_curr_addr ?sb)) SBSIZE + SB_REGION_EXPAND_SIZE
      \<le> unat (base_addr ?sb) + unat (FILESIZE ?sb)"
    unfolding fr(3,4) using big by linarith
  have "0 < unat da + 4096" by simp
  from init_ok[OF fr(1) this d room, of ds m] obtain s K W where
      s: "BaseMeta_init ?sb (unat da + 4096) ds m = Ret s" "rep s 16384 K W"
        "live_map (sb_start s) K W = Map.empty" "sb_start s = align_up (unat (rm_curr_addr ?sb)) SBSIZE"
    by blast
  have "heap_ok s Map.empty" unfolding heap_ok_def using s(2,3) by metis
  moreover have "SBSIZE dvd sb_start s" unfolding s(4) by (rule align_up_dvd) simp
  moreover have "unat sa < sb_start s"
    using align_up_ge[of "unat (rm_curr_addr ?sb)" SBSIZE] unfolding s(4) fr(2) by simp
  ultimately show ?thesis using f s(1) by auto
qed

theorem rp_init_fresh_witness:
  "\<exists>rg s. RP_init_fresh 0x10000 0x40000000 0x20000 0x40 0 0x40012345 (\<lambda>_. Descriptor_init) (\<lambda>_. 0)
     = Ret (0, rg, s) \<and> heap_ok s Map.empty"
  using rp_init_fresh[of "0x10000" "0x40012345" "0x40000000" "0x20000" "0x40" 0 "\<lambda>_. Descriptor_init" "\<lambda>_. 0"]
  by (auto simp: DESCSIZE_def SBSIZE_eq MIN_SB_REGION_SIZE_def MAX_SB_REGION_SIZE_def)

text \<open>
  With the documented minimum of one gigabyte the first expansion does not fit, unless the mapping
  happens to end right at a superblock boundary.
\<close>

lemma rp_init_min_aborts:
  assumes "0 < da" "4096 dvd unat da" "unat da + 16384 * DESCSIZE + 8192 < 2 ^ 48"
    and "0 < sa" "unat sa + 16384 * SBSIZE + 8192 < 2 ^ 48"
    and "0 < ma" "4096 dvd unat ma" "unat ma + unat msz + 8192 < 2 ^ 48" "msz mod 64 = 0" "msz \<noteq> 0"
    and "unat sa + 8192 < align_up (unat sa + 4096) SBSIZE"
  shows "RP_init_fresh da sa ma msz t MIN_SB_REGION_SIZE ds m = Abort ''warmup sb allocation fails!''"
proof -
  let ?sb = "map_persistent_region (rm_filesize (word_of_nat (16384 * SBSIZE))) sa
     \<lparr>f_curr_addr = 0, f_heap_start = 0, f_size = 0\<rparr>"
  note fr = fresh_sb_region(2-5)[OF assms(4,5)]
  have sz: "MIN_SB_REGION_SIZE = word_of_nat (16384 * SBSIZE)" "SB_REGION_EXPAND_SIZE = 16384 * SBSIZE"
    by (simp_all add: MIN_SB_REGION_SIZE_def SBSIZE_eq SB_REGION_EXPAND_SIZE_def)
  obtain f where f: "RP_init_fresh da sa ma msz t MIN_SB_REGION_SIZE ds m =
      bind_run (BaseMeta_init ?sb (unat da + 4096) ds m) (\<lambda>s. Ret (0, f s, s))"
    using init_fresh_eq[OF assms(1-10), of MIN_SB_REGION_SIZE t ds m] sz(2)
    by (auto simp: MIN_SB_REGION_SIZE_def MAX_SB_REGION_SIZE_def SBSIZE_eq)
  have "BaseMeta_init ?sb (unat da + 4096) ds m = Abort ''warmup sb allocation fails!''"
    by (rule init_no_room[OF fr(1)]) (unfold fr(2-4) sz(2), use assms(11) in linarith)
  then show ?thesis using f by simp
qed

section \<open>Limits\<close>

text \<open>
  The index computation of \<^verbatim>\<open>desc_lookup\<close> relies on a start of the region that is aligned to
  the superblock size. Where the file is mapped again at an address with another remainder, the
  last part of every superblock is looked up in the next superblock's descriptor.
\<close>

lemma desc_lookup_unaligned:
  assumes "sb_start s mod SBSIZE = r" and "0 < r"
  shows "desc_lookup s (sbA (sb_start s) i + (SBSIZE - r)) = dA (desc_start s) (Suc i)"
proof -
  let ?q = "sb_start s div SBSIZE"
  have st: "sb_start s = ?q * SBSIZE + r" using assms(1) by (metis div_mult_mod_eq)
  have "r < SBSIZE" using assms(1) mod_less_divisor[of SBSIZE "sb_start s"] by simp
  then have "sbA (sb_start s) i + (SBSIZE - r) = ?q * SBSIZE + Suc i * SBSIZE" unfolding sbA_def using st by simp
  then have "(sbA (sb_start s) i + (SBSIZE - r)) div SBSIZE = ?q + Suc i"
    by (simp add: div_mult_self_is_m flip: distrib_right)
  then show ?thesis by (simp add: desc_lookup_def SBSIZE_shift[symmetric] dA_def)
qed

text \<open>
  A marked address below the superblock the sweep has come to is never consumed: the sweep frees
  every superblock from there on and the final assertion fails. A pointer into a later unit of a
  large block is such an address once the sweep has passed the block.
\<close>

lemma sweep_stuck:
  assumes "b < sb" and "SBSIZE dvd sb"
  shows "\<exists>s' sb' d' av'. sweep e (s, sb, d, b # ms, av) = Ret (s', sb', d', b # ms, av')"
  using assms
proof (induction "e - sb" arbitrary: s sb d av rule: less_induct)
  case less
  show ?case
  proof (cases "sb < e")
    case True
    have "sb div 2 ^ SB_SHIFT \<noteq> b div 2 ^ SB_SHIFT"
      using same_superblock[OF less.prems(2), of b] less.prems(1) by simp
    then have one: "sweep_one (s, sb, d, b # ms, av) =
      Ret (upd_desc d (\<lambda>_. Descriptor_init\<lparr>d_next_free := av\<rparr>) s, sb + SBSIZE, d + DESCSIZE, b # ms, d)"
      by (simp add: sweep_one_def Let_def)
    have "e - (sb + SBSIZE) < e - sb" using True by (simp add: SBSIZE_eq)
    then show ?thesis using less.hyps[of "sb + SBSIZE"] less.prems True one by (simp add: sweep.simps)
  next
    case False
    then show ?thesis by (simp add: sweep.simps)
  qed
qed

lemma collect_mid_pointer:
  assumes dv: "SBSIZE dvd sb_start s"
    and gc: "mark_roots (gc_init s) rf [0..<MAX_ROOTS] GarbageCollection_init = Ret gc0"
    and ms: "marked_blk (mark_loop flt (gc_init s) gc0) = sbA (sb_start s) 1 # b # ms"
    and D: "d_heap (descs s (dA (desc_start s) 1)) = Some 0" "d_maxcount (descs s (dA (desc_start s) 1)) = 1"
      "d_superblock (descs s (dA (desc_start s) 1)) = sbA (sb_start s) 1"
      "d_block_size (descs s (dA (desc_start s) 1)) = m * SBSIZE"
    and b: "sbA (sb_start s) 2 \<le> b" "b < sbA (sb_start s) (1 + m)"
    and e: "sbA (sb_start s) 1 < unat (rm_curr_addr (sb_region s))"
  shows "collect flt rf s = Abort ''curr_marked_blk == marked_blk.end()''"
proof -
  let ?st = "sb_start s"
  let ?z = "gc_init s"
  have same: "?z\<lparr>mem := mem s\<rparr> = ?z" by (simp add: gc_init_def)
  have u: "unat (rm_curr_addr (sb_region s)) < 2 ^ LENGTH(64)" by (rule unsigned_less)
  have sb: "unat (translate (word_of_nat ?st) (word_of_nat SBSIZE)) = sbA ?st (Suc 0)"
    using e u unat_word_of_nat[of "?st + SBSIZE"] by (simp add: translate_def sbA_def of_nat_add)
  have dl: "desc_lookup ?z (sbA ?st j) = dA (desc_start s) j" for j using desc_lookup_sbA[of ?z j] dv by simp
  have dvj: "SBSIZE dvd sbA ?st j" for j using dv by (simp add: sbA_def)
  have ne: "sbA ?st (Suc 0) div 2 ^ SB_SHIFT \<noteq> b div 2 ^ SB_SHIFT"
    using same_superblock[OF dvj[of "Suc 0"], of b] b(1) by (simp add: sbA_def)
  let ?s = "upd_desc (dA (desc_start s) (Suc 0)) (\<lambda>x. x\<lparr>d_next_free := 0, d_next_partial := 0,
      d_anchor := \<lparr>avail = 0, count = 0, state = SB_FULL\<rparr>\<rparr>) ?z"
  have "desc_lookup ?s (sbA ?st (1 + m)) = dA (desc_start s) (1 + m)"
    using desc_lookup_sbA[of ?s "1 + m"] dv by simp
  moreover have "sbA ?st (Suc 0) + m * SBSIZE = sbA ?st (1 + m)" by (simp add: sbA_def)
  ultimately have one: "sweep_one (?z, sbA ?st (Suc 0), dA (desc_start s) (Suc 0), sbA ?st (Suc 0) # b # ms, 0) =
      Ret (?s, sbA ?st (1 + m), dA (desc_start s) (1 + m), b # ms, 0)"
    using D ne by (simp add: sweep_one_def Let_def same)
  obtain s' sb' d' av' where
    "sweep (unat (rm_curr_addr (sb_region s))) (?s, sbA ?st (1 + m), dA (desc_start s) (1 + m), b # ms, 0) =
      Ret (s', sb', d', b # ms, av')"
    using sweep_stuck[OF b(2) dvj] by blast
  then have "sweep (unat (rm_curr_addr (sb_region s)))
      (?z, sbA ?st (Suc 0), dA (desc_start s) (Suc 0), sbA ?st (Suc 0) # b # ms, 0) = Ret (s', sb', d', b # ms, av')"
    using e one by (simp add: sweep.simps[of _ ?z])
  then show ?thesis using gc ms sb dl by (simp add: collect_def Let_def assert_run_def)
qed

end
