(* ===== verification/Clht.thy ===== *)
theory Clht
  imports Prelude
begin

text \<open>
  The persistent cache-line hash table of RECIPE, \<^verbatim>\<open>src/RECIPE/P-CLHT\<close>: the data of
  \<^verbatim>\<open>include/clht_lb_res.h\<close> and the operations of \<^verbatim>\<open>src/clht_lb_res.c\<close>, in the order of the
  source, and the release of a retired table from \<^verbatim>\<open>src/clht_gc.c\<close>.

  \<^item> A \<^verbatim>\<open>bucket_t\<close> is a record; the buckets a bin links through \<^verbatim>\<open>next\<close> are a list, the head
    being the bucket stored in the table (a bucket is linked from one place only, so a chain has
    no sharing). The position \<open>(d, j)\<close> names entry \<open>j\<close> of the \<open>d\<close>-th bucket of a chain.
  \<^item> Hash tables refer to each other (\<^verbatim>\<open>table_tmp\<close>, \<^verbatim>\<open>table_prev\<close>, \<^verbatim>\<open>table_new\<close>), so they live in
    a store from addresses to tables; \<^verbatim>\<open>NULL\<close> is \<open>None\<close>.
  \<^item> \<^verbatim>\<open>memalign\<close> may return \<^verbatim>\<open>NULL\<close>: the field \<open>fails\<close> of the state says which of its calls do.
    The bytes of a fresh bucket are arbitrary (\<open>junk\<close>). Dereferencing \<^verbatim>\<open>NULL\<close> is an \<open>Abort\<close>.
  \<^item> The operations run alone: spinning on a lock that another thread would have to release is
    \<open>OutOfFuel\<close>. The configuration is the one of the header: \<^verbatim>\<open>CLHT_HELP_RESIZE\<close> and
    \<^verbatim>\<open>CLHT_READ_ONLY_FAIL\<close> on, \<^verbatim>\<open>CLHT_DO_GC\<close>, \<^verbatim>\<open>CLHT_DO_CHECK_STATUS\<close> and \<^verbatim>\<open>CLHT_USE_RTM\<close> off.
  \<^item> \<^verbatim>\<open>full_ratio\<close> is a quotient of integers below \<open>2 ^ 53\<close> compared with small integers; it is
    written as the exact comparison of products.
\<close>

section \<open>Parameters and data\<close>

definition ENTRIES_PER_BUCKET :: nat where "ENTRIES_PER_BUCKET = 3"
definition CLHT_PERC_EXPANSIONS :: nat where "CLHT_PERC_EXPANSIONS = 1"
definition CLHT_MAX_EXPANSIONS :: nat where "CLHT_MAX_EXPANSIONS = 24"
definition CLHT_PERC_FULL_DOUBLE :: nat where "CLHT_PERC_FULL_DOUBLE = 50"
definition CLHT_OCCUP_AFTER_RES :: nat where "CLHT_OCCUP_AFTER_RES = 40"
definition CLHT_PERC_FULL_HALVE :: nat where "CLHT_PERC_FULL_HALVE = 5"
definition CLHT_RATIO_HALVE :: nat where "CLHT_RATIO_HALVE = 8"
definition CLHT_STATUS_INVOK :: nat where "CLHT_STATUS_INVOK = 500000"
definition SIZEOF_BUCKET :: nat where "SIZEOF_BUCKET = 64"

definition LOCK_FREE :: u8 where "LOCK_FREE = 0"
definition LOCK_UPDATE :: u8 where "LOCK_UPDATE = 1"
definition LOCK_RESIZE :: u8 where "LOCK_RESIZE = 2"

record bucket_t =
  b_lock :: u8
  b_key :: "u64 list"
  b_val :: "u64 list"

type_synonym chain = "bucket_t list"

record clht_hashtable_t =
  num_buckets :: nat
  table :: "chain list"
  hash :: u64
  ht_version :: u64
  table_tmp :: "nat option"
  table_prev :: "nat option"
  table_new :: "nat option"
  num_expands :: u32
  num_expands_threshold :: u32
  is_helper :: u32
  helper_done :: u32

record ht_ts_t =
  ts_version :: u64
  ts_id :: int

record clht_t =
  ht :: nat
  ht_oldest :: nat
  version_list :: "(nat \<times> ht_ts_t) list"
  version_min :: u64
  resize_lock :: u8
  gc_lock :: u8
  status_lock :: u8

text \<open>What \<^verbatim>\<open>ssmem_release\<close> and \<^verbatim>\<open>free\<close> are called on: an overflow bucket, an array, a header.\<close>

datatype clht_obj = OBucket nat nat nat | OTable nat | OHeader nat

record clht_mem =
  tables :: "nat \<Rightarrow> clht_hashtable_t option"
  nalloc :: nat
  fails :: "nat \<Rightarrow> bool"
  junk :: "nat \<Rightarrow> nat \<Rightarrow> u64"
  clht :: clht_t
  released :: "clht_obj list"
  freed :: "clht_obj list"
  check_ht_status_steps :: nat

definition memalign :: "clht_mem \<Rightarrow> nat option \<times> clht_mem" where
  "memalign s = (if fails s (nalloc s) then None else Some (nalloc s), s\<lparr>nalloc := Suc (nalloc s)\<rparr>)"

definition get_ht :: "clht_mem \<Rightarrow> nat \<Rightarrow> clht_hashtable_t run" where
  "get_ht s a = (case tables s a of None \<Rightarrow> Abort ''bad table pointer'' | Some t \<Rightarrow> Ret t)"

definition put_ht :: "nat \<Rightarrow> clht_hashtable_t \<Rightarrow> clht_mem \<Rightarrow> clht_mem" where
  "put_ht a t s = s\<lparr>tables := (tables s)(a \<mapsto> t)\<rparr>"

definition set_chain :: "nat \<Rightarrow> chain \<Rightarrow> clht_hashtable_t \<Rightarrow> clht_hashtable_t" where
  "set_chain bin c t = t\<lparr>table := (table t)[bin := c]\<rparr>"

definition chain_lock :: "chain \<Rightarrow> u8" where
  "chain_lock c = b_lock (c ! 0)"

definition set_chain_lock :: "u8 \<Rightarrow> chain \<Rightarrow> chain" where
  "set_chain_lock l c = c[0 := (c ! 0)\<lparr>b_lock := l\<rparr>]"

definition write_slot :: "chain \<Rightarrow> nat \<Rightarrow> nat \<Rightarrow> u64 \<Rightarrow> u64 \<Rightarrow> chain" where
  "write_slot c d j k v = c[d := (c ! d)\<lparr>b_val := (b_val (c ! d))[j := v], b_key := (b_key (c ! d))[j := k]\<rparr>]"

section \<open>Arithmetic helpers\<close>

definition is_power_of_two :: "u32 \<Rightarrow> bool" where
  "is_power_of_two x \<longleftrightarrow> x \<noteq> 0 \<and> x AND (x - 1) = 0"

definition is_odd :: "u32 \<Rightarrow> bool" where
  "is_odd x \<longleftrightarrow> x AND 1 \<noteq> 0"

definition ac_Jenkins_hash_64 :: "u64 \<Rightarrow> u64" where
  "ac_Jenkins_hash_64 key =
     (let key = key + NOT (push_bit 32 key);
          key = key XOR drop_bit 22 key;
          key = key + NOT (push_bit 13 key);
          key = key XOR drop_bit 8 key;
          key = key + push_bit 3 key;
          key = key XOR drop_bit 15 key;
          key = key + NOT (push_bit 27 key);
          key = key XOR drop_bit 31 key
      in key)"

definition pow2roundup :: "u64 \<Rightarrow> u64" where
  "pow2roundup x =
     (if x = 0 then 1
      else let x = x - 1;
               x = x OR drop_bit 1 x;
               x = x OR drop_bit 2 x;
               x = x OR drop_bit 4 x;
               x = x OR drop_bit 8 x;
               x = x OR drop_bit 16 x;
               x = x OR drop_bit 32 x
           in x + 1)"

section \<open>Creation\<close>

definition clht_bucket_create :: "clht_mem \<Rightarrow> bucket_t option \<times> clht_mem" where
  "clht_bucket_create s =
     (case memalign s of
        (None, s') \<Rightarrow> (None, s')
      | (Some a, s') \<Rightarrow>
          (Some \<lparr>b_lock = LOCK_FREE, b_key = replicate ENTRIES_PER_BUCKET 0,
                 b_val = map (junk s a) [0..<ENTRIES_PER_BUCKET]\<rparr>, s'))"

text \<open>The second component says whether \<^verbatim>\<open>*resize\<close> was set.\<close>

definition clht_bucket_create_stats :: "clht_mem \<Rightarrow> nat \<Rightarrow> (bucket_t option \<times> bool \<times> clht_mem) run" where
  "clht_bucket_create_stats s a =
     (let (b, s) = clht_bucket_create s in
      bind_run (get_ht s a) (\<lambda>t.
        let t = t\<lparr>num_expands := num_expands t + 1\<rparr> in
        Ret (b, num_expands_threshold t \<le> num_expands t, put_ht a t s)))"

definition empty_bucket :: bucket_t where
  "empty_bucket = \<lparr>b_lock = LOCK_FREE, b_key = replicate ENTRIES_PER_BUCKET 0,
                   b_val = replicate ENTRIES_PER_BUCKET 0\<rparr>"

text \<open>
  The size of the array is a product of 64-bit integers. When it wraps around, the array is too short and
  the loop that initialises the buckets writes past its end.
\<close>

definition clht_hashtable_create :: "clht_mem \<Rightarrow> nat \<Rightarrow> (nat option \<times> clht_mem) run" where
  "clht_hashtable_create s n =
     (if n = 0 then Ret (None, s)
      else case memalign s of
        (None, s) \<Rightarrow> Ret (None, s)
      | (Some a, s) \<Rightarrow>
          (case memalign s of
            (None, s) \<Rightarrow> Ret (None, s\<lparr>freed := freed s @ [OHeader a]\<rparr>)
          | (Some _, s) \<Rightarrow>
              bind_run (assert_run (n * SIZEOF_BUCKET < 2 ^ 64) ''write past the array'') (\<lambda>_.
              let threshold = word_of_nat (CLHT_PERC_EXPANSIONS * n) in
              Ret (Some a, put_ht a
                \<lparr>num_buckets = n, table = replicate n [empty_bucket], hash = word_of_nat n - 1,
                 ht_version = 0, table_tmp = None, table_prev = None, table_new = None, num_expands = 0,
                 num_expands_threshold = (if threshold = 0 then 1 else threshold),
                 is_helper = 1, helper_done = 0\<rparr> s))))"

definition clht_create :: "clht_mem \<Rightarrow> nat \<Rightarrow> (bool \<times> clht_mem) run" where
  "clht_create s n =
     (case memalign s of
        (None, s) \<Rightarrow> Ret (False, s)
      | (Some _, s) \<Rightarrow>
          bind_run (clht_hashtable_create s n) (\<lambda>(h, s).
          case h of
            None \<Rightarrow> Ret (False, s)
          | Some a \<Rightarrow>
              Ret (True, s\<lparr>clht := \<lparr>ht = a, ht_oldest = a, version_list = [], version_min = 0,
                                     resize_lock = LOCK_FREE, gc_lock = LOCK_FREE, status_lock = LOCK_FREE\<rparr>\<rparr>)))"

section \<open>Lookup\<close>

definition clht_hash :: "clht_hashtable_t \<Rightarrow> u64 \<Rightarrow> u64" where
  "clht_hash t key = key AND hash t"

definition chain_of :: "clht_hashtable_t \<Rightarrow> u64 \<Rightarrow> chain" where
  "chain_of t key = table t ! unat (clht_hash t key)"

text \<open>The loop over the entries of one bucket that stops at the first hit.\<close>

definition find_entry :: "bucket_t \<Rightarrow> u64 \<Rightarrow> nat option" where
  "find_entry b k = find (\<lambda>j. b_key b ! j = k) [0..<ENTRIES_PER_BUCKET]"

fun chain_get :: "chain \<Rightarrow> u64 \<Rightarrow> u64" where
  "chain_get [] k = 0"
| "chain_get (b # next) k =
     (case find_entry b k of
        Some j \<Rightarrow> let val = b_val b ! j in if b_val b ! j = val then val else 0
      | None \<Rightarrow> chain_get next k)"

definition clht_get :: "clht_hashtable_t \<Rightarrow> u64 \<Rightarrow> u64" where
  "clht_get t key = chain_get (chain_of t key) key"

fun bucket_exists :: "chain \<Rightarrow> u64 \<Rightarrow> bool" where
  "bucket_exists [] k = False"
| "bucket_exists (b # next) k = (case find_entry b k of Some j \<Rightarrow> True | None \<Rightarrow> bucket_exists next k)"

section \<open>Copying into a new table\<close>

fun seq_slot :: "chain \<Rightarrow> nat \<Rightarrow> (nat \<times> nat) option" where
  "seq_slot [] d = None"
| "seq_slot (b # next) d =
     (case find_entry b 0 of Some j \<Rightarrow> Some (d, j) | None \<Rightarrow> seq_slot next (Suc d))"

definition clht_put_seq :: "clht_mem \<Rightarrow> nat \<Rightarrow> u64 \<Rightarrow> u64 \<Rightarrow> nat \<Rightarrow> clht_mem run" where
  "clht_put_seq s a key v bin =
     bind_run (get_ht s a) (\<lambda>t.
       case seq_slot (table t ! bin) 0 of
         Some (d, j) \<Rightarrow> Ret (put_ht a (set_chain bin (write_slot (table t ! bin) d j key v) t) s)
       | None \<Rightarrow>
           bind_run (clht_bucket_create_stats s a) (\<lambda>(nb, _, s).
           case nb of
             None \<Rightarrow> Abort ''NULL bucket''
           | Some b \<Rightarrow>
               bind_run (get_ht s a) (\<lambda>t.
                 let b = b\<lparr>b_val := (b_val b)[0 := v], b_key := (b_key b)[0 := key]\<rparr> in
                 Ret (put_ht a (set_chain bin (table t ! bin @ [b]) t) s))))"

definition lock_acq_resize :: "u8 \<Rightarrow> (int \<times> u8) run" where
  "lock_acq_resize l =
     (if l = LOCK_UPDATE then OutOfFuel
      else if l = LOCK_RESIZE then Ret (0, l)
      else Ret (1, if l = LOCK_FREE then LOCK_RESIZE else l))"

definition chain_slots :: "chain \<Rightarrow> (u64 \<times> u64) list" where
  "chain_slots c = concat (map (\<lambda>b. map (\<lambda>j. (b_key b ! j, b_val b ! j)) [0..<ENTRIES_PER_BUCKET]) c)"

fun cpy_slots :: "(u64 \<times> u64) list \<Rightarrow> clht_mem \<Rightarrow> nat \<Rightarrow> clht_mem run" where
  "cpy_slots [] s a = Ret s"
| "cpy_slots ((key, v) # es) s a =
     (if key \<noteq> 0
      then bind_run (get_ht s a) (\<lambda>t.
           bind_run (clht_put_seq s a key v (unat (clht_hash t key))) (\<lambda>s. cpy_slots es s a))
      else cpy_slots es s a)"

definition bucket_cpy :: "clht_mem \<Rightarrow> nat \<Rightarrow> nat \<Rightarrow> nat \<Rightarrow> (int \<times> clht_mem) run" where
  "bucket_cpy s a bin a_new =
     bind_run (get_ht s a) (\<lambda>t.
     bind_run (lock_acq_resize (chain_lock (table t ! bin))) (\<lambda>(r, l).
       if r = 0 then Ret (0, s)
       else let s = put_ht a (set_chain bin (set_chain_lock l (table t ! bin)) t) s in
            bind_run (cpy_slots (chain_slots (table t ! bin)) s a_new) (\<lambda>s. Ret (1, s))))"

text \<open>The copy loop of the resizer and of the helper: both stop at a bucket the other has locked.\<close>

fun cpy_bins :: "nat list \<Rightarrow> clht_mem \<Rightarrow> nat \<Rightarrow> nat \<Rightarrow> clht_mem run" where
  "cpy_bins [] s a a_new = Ret s"
| "cpy_bins (b # bs) s a a_new =
     bind_run (bucket_cpy s a b a_new) (\<lambda>(r, s). if r = 0 then Ret s else cpy_bins bs s a a_new)"

definition ht_resize_help :: "clht_mem \<Rightarrow> nat \<Rightarrow> clht_mem run" where
  "ht_resize_help s a =
     bind_run (get_ht s a) (\<lambda>t.
       let helper = is_helper t; s = put_ht a (t\<lparr>is_helper := helper - 1\<rparr>) s in
       if sint helper \<le> 0 then Ret s
       else case table_tmp t of
         None \<Rightarrow> Abort ''NULL table''
       | Some a_new \<Rightarrow>
           bind_run (cpy_bins (rev [0..<nat (sint (ucast (hash t) :: u32) + 1)]) s a a_new) (\<lambda>s.
           bind_run (get_ht s a) (\<lambda>t. Ret (put_ht a (t\<lparr>helper_done := 1\<rparr>) s))))"

section \<open>Resizing\<close>

text \<open>\<^verbatim>\<open>ssmem_release\<close> of the overflow buckets bin by bin, then of the array and of the header.\<close>

definition release_list :: "nat \<Rightarrow> clht_hashtable_t \<Rightarrow> clht_obj list" where
  "release_list a t =
     concat (map (\<lambda>bin. map (OBucket a bin) [1..<length (table t ! bin)]) [0..<num_buckets t])
     @ [OTable a, OHeader a]"

definition clht_gc_release :: "clht_mem \<Rightarrow> nat \<Rightarrow> clht_mem run" where
  "clht_gc_release s a =
     bind_run (get_ht s a) (\<lambda>t. Ret (s\<lparr>released := released s @ release_list a t\<rparr>))"

text \<open>
  \<^verbatim>\<open>ht_resize_pes\<close> up to the release of the old table, in three parts: linking the tables, the swap
  of the root pointer and the release; before it the copy; before it the creation of the new table.
  The result \<open>None\<close>: another resize is running and 0 is returned; \<open>Some again\<close>: the table was
  replaced and \<open>again\<close> is \<^verbatim>\<open>ht_resize_again\<close>.
\<close>

definition ht_resize_swap :: "clht_mem \<Rightarrow> nat \<Rightarrow> nat \<Rightarrow> (bool option \<times> clht_mem) run" where
  "ht_resize_swap s a a_new =
     bind_run (get_ht s a) (\<lambda>old.
     bind_run (get_ht s a_new) (\<lambda>new.
     let s = put_ht a_new (new\<lparr>table_prev := Some a\<rparr>) s;
         again = (num_expands_threshold new \<le> num_expands new);
         s = s\<lparr>clht := (clht s)\<lparr>ht := a_new\<rparr>\<rparr>;
         s = put_ht a (old\<lparr>table_new := Some a_new\<rparr>) s;
         s = s\<lparr>clht := (clht s)\<lparr>resize_lock := LOCK_FREE\<rparr>\<rparr> in
     bind_run (clht_gc_release s a) (\<lambda>s. Ret (Some again, s))))"

definition ht_resize_copy :: "clht_mem \<Rightarrow> nat \<Rightarrow> nat \<Rightarrow> bool \<Rightarrow> (bool option \<times> clht_mem) run" where
  "ht_resize_copy s a a_new is_increase =
     bind_run (get_ht s a_new) (\<lambda>new.
     bind_run (get_ht s a) (\<lambda>old.
     let s = put_ht a_new (new\<lparr>ht_version := ht_version old + 1\<rparr>) s;
         s = put_ht a (old\<lparr>table_tmp := Some a_new\<rparr>) s in
     bind_run (cpy_bins [0..<num_buckets old] s a a_new) (\<lambda>s.
     bind_run (get_ht s a) (\<lambda>old.
       if is_increase \<and> is_helper old \<noteq> 1 \<and> helper_done old \<noteq> 1 then OutOfFuel
       else ht_resize_swap s a a_new))))"

definition ht_resize_body :: "clht_mem \<Rightarrow> bool \<Rightarrow> nat \<Rightarrow> (bool option \<times> clht_mem) run" where
  "ht_resize_body s is_increase by =
     (let s = s\<lparr>check_ht_status_steps := CLHT_STATUS_INVOK\<rparr>; a = ht (clht s) in
      if resize_lock (clht s) \<noteq> 0 then Ret (None, s\<lparr>clht := (clht s)\<lparr>resize_lock := 255\<rparr>\<rparr>)
      else
        let s = s\<lparr>clht := (clht s)\<lparr>resize_lock := 255\<rparr>\<rparr> in
        bind_run (get_ht s a) (\<lambda>old.
        let n_new = (if is_increase then (by * num_buckets old) mod 2 ^ 64
                     else num_buckets old div CLHT_RATIO_HALVE);
            s = (if is_increase then s else put_ht a (old\<lparr>is_helper := 0\<rparr>) s) in
        bind_run (clht_hashtable_create s n_new) (\<lambda>(h, s).
        case h of
          None \<Rightarrow> Abort ''NULL table''
        | Some a_new \<Rightarrow> ht_resize_copy s a a_new is_increase)))"

text \<open>
  \<^verbatim>\<open>ht_resize_pes\<close> and \<^verbatim>\<open>ht_status\<close> call each other; \<open>status\<close> is the call of \<^verbatim>\<open>ht_status(h, 1, 0)\<close>
  after a resize that left the new table crowded.
\<close>

definition ht_resize_pes ::
  "(clht_mem \<Rightarrow> (nat \<times> clht_mem) run) \<Rightarrow> clht_mem \<Rightarrow> bool \<Rightarrow> nat \<Rightarrow> (int \<times> clht_mem) run" where
  "ht_resize_pes status s is_increase by =
     bind_run (ht_resize_body s is_increase by) (\<lambda>(r, s).
       case r of
         None \<Rightarrow> Ret (0, s)
       | Some again \<Rightarrow>
           if again then bind_run (status s) (\<lambda>(_, s). Ret (1, s)) else Ret (1, s))"

definition bucket_size :: "bucket_t \<Rightarrow> nat" where
  "bucket_size b = length (filter (\<lambda>j. b_key b ! j > 0) [0..<ENTRIES_PER_BUCKET])"

definition chain_size :: "chain \<Rightarrow> nat" where
  "chain_size c = sum_list (map bucket_size c)"

definition clht_size :: "clht_hashtable_t \<Rightarrow> nat" where
  "clht_size t = sum_list (map (\<lambda>bin. chain_size (table t ! bin)) [0..<num_buckets t])"

definition expands_max :: "clht_hashtable_t \<Rightarrow> nat" where
  "expands_max t = fold (\<lambda>bin m. max m (length (table t ! bin) - 1)) [0..<num_buckets t] 0"

definition inc_by_pow2 :: "nat \<Rightarrow> nat \<Rightarrow> nat" where
  "inc_by_pow2 sz n =
     (let inc_by = (100 * sz) div (n * ENTRIES_PER_BUCKET * CLHT_OCCUP_AFTER_RES);
          p = unat (pow2roundup (word_of_nat inc_by)) in
      if p = 1 then 2 else p)"

fun ht_status :: "nat \<Rightarrow> clht_mem \<Rightarrow> bool \<Rightarrow> bool \<Rightarrow> (nat \<times> clht_mem) run" where
  "ht_status 0 s resize_increase just_print = OutOfFuel"
| "ht_status (Suc fuel) s resize_increase just_print =
     (let busy = status_lock (clht s) \<noteq> 0; s = s\<lparr>clht := (clht s)\<lparr>status_lock := 255\<rparr>\<rparr> in
      if busy \<and> \<not> resize_increase then Ret (0, s)
      else bind_run (get_ht s (ht (clht s))) (\<lambda>t.
        let sz = clht_size t; cap = num_buckets t * ENTRIES_PER_BUCKET;
            status = (\<lambda>s. ht_status fuel s True False) in
        bind_run
          (if just_print then Ret s
           else if 0 < sz \<and> 100 * sz < CLHT_PERC_FULL_HALVE * cap
           then bind_run (ht_resize_pes status s False 33) (\<lambda>(_, s). Ret s)
           else if (0 < sz \<and> CLHT_PERC_FULL_DOUBLE * cap < 100 * sz)
                   \<or> CLHT_MAX_EXPANSIONS < expands_max t \<or> resize_increase
           then bind_run (ht_resize_pes status s True (inc_by_pow2 sz (num_buckets t))) (\<lambda>(_, s). Ret s)
           else Ret s)
          (\<lambda>s. Ret (sz, s\<lparr>clht := (clht s)\<lparr>status_lock := LOCK_FREE\<rparr>\<rparr>))))"

text \<open>A resize that is repeated at least doubles the table, and no array has \<open>2 ^ 58\<close> buckets.\<close>

definition STATUS_FUEL :: nat where "STATUS_FUEL = 64"

section \<open>Insertion and removal\<close>

definition lock_acq_chk_resize :: "clht_mem \<Rightarrow> nat \<Rightarrow> nat \<Rightarrow> (bool \<times> clht_mem) run" where
  "lock_acq_chk_resize s a bin =
     bind_run (get_ht s a) (\<lambda>t.
       let l = chain_lock (table t ! bin) in
       if l = LOCK_UPDATE then OutOfFuel
       else if l = LOCK_RESIZE then
         bind_run (ht_resize_help s a) (\<lambda>s.
         bind_run (get_ht s a) (\<lambda>t. if table_new t = None then OutOfFuel else Ret (False, s)))
       else Ret (True, if l = LOCK_FREE
                       then put_ht a (set_chain bin (set_chain_lock LOCK_UPDATE (table t ! bin)) t) s else s))"

text \<open>
  The loop around \<^verbatim>\<open>LOCK_ACQ\<close> returns the table whose bucket was locked. Alone, a failed attempt
  reads the same \<^verbatim>\<open>h->ht\<close> again, so one retry tells whether the loop ends.
\<close>

fun lock_loop :: "nat \<Rightarrow> clht_mem \<Rightarrow> nat \<Rightarrow> u64 \<Rightarrow> (nat \<times> clht_mem) run" where
  "lock_loop 0 s a key = OutOfFuel"
| "lock_loop (Suc fuel) s a key =
     bind_run (get_ht s a) (\<lambda>t.
     bind_run (lock_acq_chk_resize s a (unat (clht_hash t key))) (\<lambda>(ok, s).
       if ok then Ret (a, s) else lock_loop fuel s (ht (clht s)) key))"

definition LOCK_TRIES :: nat where "LOCK_TRIES = 2"

definition unlock :: "nat \<Rightarrow> nat \<Rightarrow> clht_mem \<Rightarrow> clht_mem run" where
  "unlock a bin s =
     bind_run (get_ht s a) (\<lambda>t. Ret (put_ht a (set_chain bin (set_chain_lock LOCK_FREE (table t ! bin)) t) s))"

text \<open>
  The scan of \<^verbatim>\<open>clht_put\<close>: \<open>None\<close> when the key is found, otherwise the first empty entry, if any.
\<close>

fun put_for :: "nat list \<Rightarrow> bucket_t \<Rightarrow> u64 \<Rightarrow> nat \<Rightarrow> (nat \<times> nat) option \<Rightarrow> (nat \<times> nat) option option" where
  "put_for [] b k d e = Some e"
| "put_for (j # js) b k d e =
     (if b_key b ! j = k then None
      else put_for js b k d (if e = None \<and> b_key b ! j = 0 then Some (d, j) else e))"

fun put_scan :: "chain \<Rightarrow> u64 \<Rightarrow> nat \<Rightarrow> (nat \<times> nat) option \<Rightarrow> (nat \<times> nat) option option" where
  "put_scan [] k d e = Some e"
| "put_scan (b # next) k d e =
     (case put_for [0..<ENTRIES_PER_BUCKET] b k d e of
        None \<Rightarrow> None
      | Some e \<Rightarrow> put_scan next k (Suc d) e)"

definition clht_put :: "clht_mem \<Rightarrow> u64 \<Rightarrow> u64 \<Rightarrow> (bool \<times> clht_mem) run" where
  "clht_put s key v =
     bind_run (get_ht s (ht (clht s))) (\<lambda>t.
     if bucket_exists (chain_of t key) key then Ret (False, s)
     else
       bind_run (lock_loop LOCK_TRIES s (ht (clht s)) key) (\<lambda>(a, s).
       bind_run (get_ht s a) (\<lambda>t.
       let bin = unat (clht_hash t key) in
       case put_scan (table t ! bin) key 0 None of
         None \<Rightarrow> bind_run (unlock a bin s) (\<lambda>s. Ret (False, s))
       | Some (Some (d, j)) \<Rightarrow>
           let s = put_ht a (set_chain bin (write_slot (table t ! bin) d j key v) t) s in
           bind_run (unlock a bin s) (\<lambda>s. Ret (True, s))
       | Some None \<Rightarrow>
           bind_run (clht_bucket_create_stats s a) (\<lambda>(nb, resize, s).
           case nb of
             None \<Rightarrow> Abort ''NULL bucket''
           | Some b \<Rightarrow>
               bind_run (get_ht s a) (\<lambda>t.
               let b = b\<lparr>b_val := (b_val b)[0 := v], b_key := (b_key b)[0 := key]\<rparr>;
                   s = put_ht a (set_chain bin (table t ! bin @ [b]) t) s in
               bind_run (unlock a bin s) (\<lambda>s.
                 if resize
                 then bind_run (ht_status STATUS_FUEL s True False) (\<lambda>(_, s). Ret (True, s))
                 else Ret (True, s)))))))"

text \<open>The loop of \<^verbatim>\<open>clht_remove\<close>: the position of the first entry with the key.\<close>

fun remove_scan :: "chain \<Rightarrow> u64 \<Rightarrow> nat \<Rightarrow> (nat \<times> nat) option" where
  "remove_scan [] k d = None"
| "remove_scan (b # next) k d =
     (case find_entry b k of Some j \<Rightarrow> Some (d, j) | None \<Rightarrow> remove_scan next k (Suc d))"

definition clht_remove :: "clht_mem \<Rightarrow> u64 \<Rightarrow> (u64 \<times> clht_mem) run" where
  "clht_remove s key =
     bind_run (get_ht s (ht (clht s))) (\<lambda>t.
     if \<not> bucket_exists (chain_of t key) key then Ret (0, s)
     else
       bind_run (lock_loop LOCK_TRIES s (ht (clht s)) key) (\<lambda>(a, s).
       bind_run (get_ht s a) (\<lambda>t.
       let bin = unat (clht_hash t key); c = table t ! bin in
       case remove_scan c key 0 of
         Some (d, j) \<Rightarrow>
           let v = b_val (c ! d) ! j;
               s = put_ht a (set_chain bin (c[d := (c ! d)\<lparr>b_key := (b_key (c ! d))[j := 0]\<rparr>]) t) s in
           bind_run (unlock a bin s) (\<lambda>s. Ret (v, s))
       | None \<Rightarrow> bind_run (unlock a bin s) (\<lambda>s. Ret (0, s)))))"

section \<open>Sizes in bytes and lock initialisation\<close>

definition clht_size_mem :: "clht_hashtable_t option \<Rightarrow> nat" where
  "clht_size_mem h =
     (case h of None \<Rightarrow> 0
      | Some t \<Rightarrow> (8 + (num_buckets t + unat (num_expands t)) * SIZEOF_BUCKET) mod 2 ^ 64)"

text \<open>
  The loop counts the buckets with a signed \<^verbatim>\<open>int\<close>, which overflows at \<open>2 ^ 31\<close>. The buckets linked behind the one in the
  table are unlocked too.
\<close>

definition clht_lock_initialization :: "clht_mem \<Rightarrow> clht_mem run" where
  "clht_lock_initialization s =
     (let s = s\<lparr>clht := (clht s)\<lparr>resize_lock := LOCK_FREE, status_lock := LOCK_FREE, gc_lock := LOCK_FREE\<rparr>\<rparr> in
      bind_run (get_ht s (ht (clht s))) (\<lambda>t.
        if num_buckets t < 2 ^ 31
        then Ret (put_ht (ht (clht s))
               (t\<lparr>table := map (map (\<lambda>b. b\<lparr>b_lock := LOCK_FREE\<rparr>)) (take (num_buckets t) (table t)) @ drop (num_buckets t) (table t)\<rparr>) s)
        else Abort ''signed overflow''))"

end
