(* ===== verification/ClhtChain.thy ===== *)
theory ClhtChain
  imports Clht
begin

text \<open>
  One bin of the hash table as a map. \<open>chain_slots\<close> lists the entries of a chain in the order the
  loops visit them, \<open>chain_live\<close> those whose key is not the empty marker 0. The scans of lookup,
  insertion, removal and copying are first-match searches in \<open>chain_slots\<close>, and the three ways a
  chain changes (fill an empty entry, link a new bucket, clear a key) are an update, an extension
  and a deletion of the map.
\<close>

named_theorems slot_simps \<open>entries of a chain after an update\<close>

definition bucket_ok :: "bucket_t \<Rightarrow> bool" where
  "bucket_ok b \<longleftrightarrow> length (b_key b) = ENTRIES_PER_BUCKET \<and> length (b_val b) = ENTRIES_PER_BUCKET"

definition chain_ok :: "chain \<Rightarrow> bool" where
  "chain_ok c \<longleftrightarrow> c \<noteq> [] \<and> (\<forall>b \<in> set c. bucket_ok b)"

definition live :: "(u64 \<times> u64) list \<Rightarrow> (u64 \<times> u64) list" where
  "live = filter (\<lambda>e. fst e \<noteq> 0)"

definition chain_live :: "chain \<Rightarrow> (u64 \<times> u64) list" where
  "chain_live c = live (chain_slots c)"

abbreviation slots :: "bucket_t \<Rightarrow> (u64 \<times> u64) list" where
  "slots b \<equiv> map (\<lambda>j. (b_key b ! j, b_val b ! j)) [0..<ENTRIES_PER_BUCKET]"

section \<open>Lists of entries\<close>

lemma live_append [simp]: "live (xs @ ys) = live xs @ live ys"
  by (simp add: live_def)

lemma live_Nil [simp]: "live [] = []"
  by (simp add: live_def)

lemma live_Cons: "live (e # xs) = (if fst e = 0 then live xs else e # live xs)"
  by (simp add: live_def)

lemma set_live: "set (live xs) = {e \<in> set xs. fst e \<noteq> 0}"
  by (auto simp: live_def)

lemma map_of_live: "k \<noteq> 0 \<Longrightarrow> map_of (live xs) k = map_of xs k"
  by (induction xs) (auto simp: live_def)

lemma map_of_live_zero [simp]: "map_of (live xs) 0 = None"
  by (induction xs) (auto simp: live_def)

text \<open>Filling an entry whose key is 0, and clearing an entry.\<close>

lemma split_at: "p < length xs \<Longrightarrow> xs ! p = e \<Longrightarrow> xs = take p xs @ e # drop (Suc p) xs"
  by (metis id_take_nth_drop)

lemma live_fill:
  assumes p: "p < length xs" and z: "fst (xs ! p) = 0" and k: "k \<noteq> 0"
  shows "\<exists>as bs. live xs = as @ bs \<and> live (xs[p := (k, v)]) = as @ (k, v) # bs"
proof -
  have "live xs = live (take p xs) @ live (drop (Suc p) xs)"
    by (subst split_at[OF p refl]) (simp add: live_Cons z)
  moreover have "live (xs[p := (k, v)]) = live (take p xs) @ (k, v) # live (drop (Suc p) xs)"
    using p k by (simp add: upd_conv_take_nth_drop live_Cons)
  ultimately show ?thesis by blast
qed

lemma live_clear:
  assumes p: "p < length xs" and e: "xs ! p = (k, v)" and k: "k \<noteq> 0"
  shows "\<exists>as bs. live xs = as @ (k, v) # bs \<and> live (xs[p := (0, w)]) = as @ bs"
proof -
  have "live xs = live (take p xs) @ (k, v) # live (drop (Suc p) xs)"
    by (subst split_at[OF p e]) (simp add: live_Cons k)
  moreover have "live (xs[p := (0, w)]) = live (take p xs) @ live (drop (Suc p) xs)"
    using p by (simp add: upd_conv_take_nth_drop live_Cons)
  ultimately show ?thesis by blast
qed

lemma map_of_insert_mid:
  "k \<notin> fst ` set as \<Longrightarrow> map_of (as @ (k, v) # bs) = (map_of (as @ bs))(k \<mapsto> v)"
  by (induction as) (auto simp: fun_eq_iff)

lemma map_of_delete_mid:
  "distinct (map fst (as @ (k, v) # bs)) \<Longrightarrow> map_of (as @ bs) = (map_of (as @ (k, v) # bs))(k := None)"
proof (induction as)
  case Nil
  then show ?case by (auto simp: fun_eq_iff map_of_eq_None_iff)
next
  case (Cons a as)
  then show ?case by (cases a) (auto simp: fun_eq_iff)
qed

section \<open>Positions in a chain\<close>

lemma ENTRIES_3: "ENTRIES_PER_BUCKET = 3"
  by (simp add: ENTRIES_PER_BUCKET_def)

lemma chain_slots_Nil [simp]: "chain_slots [] = []"
  by (simp add: chain_slots_def)

lemma chain_slots_Cons: "chain_slots (b # c) = slots b @ chain_slots c"
  by (simp add: chain_slots_def)

lemma chain_slots_append [slot_simps]: "chain_slots (c @ c') = chain_slots c @ chain_slots c'"
  by (simp add: chain_slots_def)

lemma length_chain_slots [simp]: "length (chain_slots c) = 3 * length c"
  by (induction c) (simp_all add: chain_slots_Cons ENTRIES_3)

definition position :: "nat \<Rightarrow> nat \<Rightarrow> nat" where
  "position d j = 3 * d + j"

lemma position_less: "d < length c \<Longrightarrow> j < 3 \<Longrightarrow> position d j < 3 * length c"
  by (simp add: position_def)

lemma slots_nth: "j < 3 \<Longrightarrow> slots b ! j = (b_key b ! j, b_val b ! j)"
  by (simp add: ENTRIES_3)

lemma chain_slots_nth:
  "d < length c \<Longrightarrow> j < 3 \<Longrightarrow> chain_slots c ! position d j = (b_key (c ! d) ! j, b_val (c ! d) ! j)"
proof (induction c arbitrary: d)
  case (Cons b c)
  show ?case
  proof (cases d)
    case 0
    then show ?thesis using Cons.prems
      by (simp add: chain_slots_Cons nth_append ENTRIES_3 position_def)
  next
    case (Suc d')
    then show ?thesis using Cons.prems Cons.IH[of d']
      by (simp add: chain_slots_Cons nth_append ENTRIES_3 position_def)
  qed
qed simp

lemma chain_slots_update:
  assumes "d < length c" "j < 3"
    and "\<And>i. i < 3 \<Longrightarrow> (b_key b' ! i, b_val b' ! i) =
           (if i = j then e else (b_key (c ! d) ! i, b_val (c ! d) ! i))"
  shows "chain_slots (c[d := b']) = (chain_slots c)[position d j := e]"
proof (rule nth_equalityI)
  fix p assume p: "p < length (chain_slots (c[d := b']))"
  obtain d' j' where q: "p = position d' j'" "j' < 3"
    using that[of "p div 3" "p mod 3"] by (simp add: position_def)
  then have d': "d' < length c" using p by (simp add: position_def)
  have "position d j = position d' j' \<longleftrightarrow> d = d' \<and> j = j'"
    using q assms(2) unfolding position_def by presburger
  then show "chain_slots (c[d := b']) ! p = (chain_slots c)[position d j := e] ! p"
    using assms(1,2) assms(3)[OF q(2)] q d'
    by (cases "d = d'"; cases "j = j'") (simp_all add: chain_slots_nth nth_list_update position_less)
qed simp

lemma chain_slots_write [slot_simps]:
  assumes "chain_ok c" "d < length c" "j < 3"
  shows "chain_slots (write_slot c d j k v) = (chain_slots c)[position d j := (k, v)]"
proof -
  have "bucket_ok (c ! d)" using assms by (simp add: chain_ok_def)
  then show ?thesis using assms
    unfolding write_slot_def
    by (intro chain_slots_update) (auto simp: bucket_ok_def ENTRIES_3 nth_list_update)
qed

lemma chain_slots_clear [slot_simps]:
  assumes "chain_ok c" "d < length c" "j < 3"
  shows "chain_slots (c[d := (c ! d)\<lparr>b_key := (b_key (c ! d))[j := 0]\<rparr>])
           = (chain_slots c)[position d j := (0, b_val (c ! d) ! j)]"
proof -
  have "bucket_ok (c ! d)" using assms by (simp add: chain_ok_def)
  then show ?thesis using assms
    by (intro chain_slots_update) (auto simp: bucket_ok_def ENTRIES_3 nth_list_update)
qed

lemma chain_slots_lock [slot_simps]: "chain_slots (set_chain_lock l c) = chain_slots c"
  by (cases c) (simp_all add: set_chain_lock_def chain_slots_Cons)

lemma chain_slots_init_locks [slot_simps]:
  "chain_slots (map (\<lambda>b. b\<lparr>b_lock := l\<rparr>) c) = chain_slots c"
  by (induction c) (simp_all add: chain_slots_Cons)

lemmas chain_live_simps = chain_live_def slot_simps

lemma chain_ok_write: "chain_ok c \<Longrightarrow> d < length c \<Longrightarrow> chain_ok (write_slot c d j k v)"
  by (auto simp: chain_ok_def bucket_ok_def write_slot_def dest!: set_update_subset_insert[THEN subsetD])

lemma chain_ok_clear:
  "chain_ok c \<Longrightarrow> d < length c \<Longrightarrow> chain_ok (c[d := (c ! d)\<lparr>b_key := (b_key (c ! d))[j := 0]\<rparr>])"
  by (auto simp: chain_ok_def bucket_ok_def dest!: set_update_subset_insert[THEN subsetD])

lemma chain_ok_append: "chain_ok c \<Longrightarrow> bucket_ok b \<Longrightarrow> chain_ok (c @ [b])"
  by (auto simp: chain_ok_def)

lemma chain_ok_lock [simp]: "chain_ok (set_chain_lock l c) = chain_ok c"
  by (cases c) (auto simp: chain_ok_def bucket_ok_def set_chain_lock_def)

lemma chain_lock_write [simp]: "chain_lock (write_slot c d j k v) = chain_lock c"
  by (cases d; cases c) (auto simp: chain_lock_def write_slot_def)

lemma chain_lock_set [simp]: "c \<noteq> [] \<Longrightarrow> chain_lock (set_chain_lock l c) = l"
  by (simp add: chain_lock_def set_chain_lock_def)

lemma set_chain_lock_twice [simp]: "set_chain_lock l (set_chain_lock l' c) = set_chain_lock l c"
  by (cases c) (simp_all add: set_chain_lock_def)

lemma set_chain_lock_id: "chain_lock c = l \<Longrightarrow> set_chain_lock l c = c"
  by (cases c) (simp_all add: set_chain_lock_def chain_lock_def)

lemma length_set_chain_lock [simp]: "length (set_chain_lock l c) = length c"
  by (simp add: set_chain_lock_def)

section \<open>The scans\<close>

lemma find_entry_SomeD: "find_entry b k = Some j \<Longrightarrow> j < 3 \<and> b_key b ! j = k"
  by (auto simp: find_entry_def find_Some_iff ENTRIES_3)

lemma find_entry_map_of:
  "map_of (slots b) k = (case find_entry b k of Some j \<Rightarrow> Some (b_val b ! j) | None \<Rightarrow> None)"
  by (simp add: find_entry_def ENTRIES_3 upt_rec)

lemma find_entry_None: "find_entry b k = None \<longleftrightarrow> k \<notin> fst ` set (slots b)"
  by (auto simp: find_entry_def find_None_iff image_image)

lemma chain_get_map_of:
  "chain_get c k = (case map_of (chain_slots c) k of Some v \<Rightarrow> v | None \<Rightarrow> 0)"
  by (induction c) (auto simp: chain_slots_Cons find_entry_map_of map_add_def split: option.split)

lemma bucket_exists_iff: "bucket_exists c k \<longleftrightarrow> k \<in> fst ` set (chain_slots c)"
proof (induction c)
  case (Cons b c)
  then show ?case
    using find_entry_None[of b k]
    by (cases "find_entry b k") (auto simp: chain_slots_Cons image_Un)
qed simp

text \<open>\<^verbatim>\<open>clht_put_seq\<close> and \<^verbatim>\<open>clht_remove\<close> stop at the first entry with the wanted key.\<close>

lemma seq_slot_eq: "seq_slot c d = remove_scan c 0 d"
  by (induction c arbitrary: d) (auto split: option.split)

lemma remove_scan_SomeD:
  "remove_scan c k n = Some (d, j) \<Longrightarrow>
     n \<le> d \<and> d - n < length c \<and> j < 3 \<and> fst (chain_slots c ! position (d - n) j) = k"
proof (induction c arbitrary: n)
  case (Cons b c)
  show ?case
  proof (cases "find_entry b k")
    case None
    then have "remove_scan c k (Suc n) = Some (d, j)" using Cons.prems by simp
    then have IH: "Suc n \<le> d" "d - Suc n < length c" "j < 3"
        "fst (chain_slots c ! position (d - Suc n) j) = k"
      using Cons.IH[of "Suc n"] by auto
    then have "d - n = Suc (d - Suc n)" by simp
    then show ?thesis using IH
      by (simp add: chain_slots_Cons position_def nth_append ENTRIES_3)
  next
    case (Some i)
    then show ?thesis using Cons.prems find_entry_SomeD[OF Some]
      by (auto simp: chain_slots_Cons position_def nth_append ENTRIES_3)
  qed
qed simp

lemma remove_scan_None: "remove_scan c k n = None \<longleftrightarrow> k \<notin> fst ` set (chain_slots c)"
proof (induction c arbitrary: n)
  case (Cons b c)
  then show ?case
    using find_entry_None[of b k] by (cases "find_entry b k") (auto simp: chain_slots_Cons image_Un)
qed simp

lemma put_for_find:
  "put_for js b k d e =
     (if \<exists>j \<in> set js. b_key b ! j = k then None
      else Some (case e of Some x \<Rightarrow> e | None \<Rightarrow> map_option (Pair d) (find (\<lambda>j. b_key b ! j = 0) js)))"
  by (induction js arbitrary: e) (auto split: option.split)

lemma put_for_upt:
  "put_for [0..<ENTRIES_PER_BUCKET] b k d e =
     (if k \<in> fst ` set (slots b) then None
      else Some (case e of Some x \<Rightarrow> e | None \<Rightarrow> map_option (Pair d) (find_entry b 0)))"
  unfolding put_for_find find_entry_def by (simp add: image_image image_iff eq_commute Bex_def)

lemma put_scan_Some [simp]:
  "put_scan c k d (Some x) = (if k \<in> fst ` set (chain_slots c) then None else Some (Some x))"
  by (induction c arbitrary: d) (auto simp: chain_slots_Cons put_for_upt image_Un)

lemma put_scan_None:
  "put_scan c k d None = (if k \<in> fst ` set (chain_slots c) then None else Some (remove_scan c 0 d))"
proof (induction c arbitrary: d)
  case (Cons b c)
  then show ?case
    by (cases "find_entry b 0") (auto simp: chain_slots_Cons put_for_upt image_Un)
qed simp

text \<open>A chain is a map as far as keys other than 0 are concerned.\<close>

lemma chain_live_map_of: "k \<noteq> 0 \<Longrightarrow> map_of (chain_slots c) k = map_of (chain_live c) k"
  by (simp add: chain_live_def map_of_live)

lemma live_key_iff: "k \<noteq> 0 \<Longrightarrow> k \<in> fst ` set (chain_slots c) \<longleftrightarrow> k \<in> fst ` set (chain_live c)"
  by (force simp: chain_live_def set_live)

lemma chain_size_live: "chain_size c = length (chain_live c)"
proof (induction c)
  case (Cons b c)
  have "bucket_size b = length (live (slots b))"
    by (simp add: bucket_size_def live_def filter_map o_def word_greater_zero_iff)
  then show ?case using Cons
    by (simp add: chain_size_def chain_live_def chain_slots_Cons)
qed (simp add: chain_size_def chain_live_def)

end
