(* ===== verification/ClhtTable.thy ===== *)
theory ClhtTable
  imports ClhtChain
begin

text \<open>
  A hash table as a map: the invariant \<open>ht_ok\<close> (the shape of the array, no key twice, every key in
  the bin it hashes to), the abstraction \<open>ht_map\<close>, and how the changes of one chain act on it.
  \<open>built t es\<close> describes a table filled by \<^verbatim>\<open>clht_put_seq\<close> with the entries \<open>es\<close> only, together
  with the number of overflow buckets it needed; this is what bounds the repeated resizes.
  The last section gives the meaning of \<^verbatim>\<open>pow2roundup\<close> and of the growth factor.
\<close>

definition hashes_to :: "clht_hashtable_t \<Rightarrow> nat \<Rightarrow> chain \<Rightarrow> bool" where
  "hashes_to t bin c \<longleftrightarrow> (\<forall>e \<in> set (chain_live c). unat (clht_hash t (fst e)) = bin)"

definition ht_ok :: "clht_hashtable_t \<Rightarrow> bool" where
  "ht_ok t \<longleftrightarrow> 0 < num_buckets t \<and> num_buckets t * SIZEOF_BUCKET < 2 ^ 64
     \<and> length (table t) = num_buckets t \<and> hash t = word_of_nat (num_buckets t) - 1
     \<and> (\<forall>bin < num_buckets t. chain_ok (table t ! bin)
          \<and> distinct (map fst (chain_live (table t ! bin))) \<and> hashes_to t bin (table t ! bin))"

definition ht_map :: "clht_hashtable_t \<Rightarrow> u64 \<Rightarrow> u64 option" where
  "ht_map t k = map_of (chain_live (chain_of t k)) k"

definition ht_unlocked :: "clht_hashtable_t \<Rightarrow> bool" where
  "ht_unlocked t \<longleftrightarrow> (\<forall>bin < num_buckets t. chain_lock (table t ! bin) = LOCK_FREE)"

lemma ht_okD:
  assumes "ht_ok t"
  shows "0 < num_buckets t" "num_buckets t < 2 ^ 58" "length (table t) = num_buckets t"
    "hash t = word_of_nat (num_buckets t) - 1"
    "bin < num_buckets t \<Longrightarrow> chain_ok (table t ! bin)"
    "bin < num_buckets t \<Longrightarrow> distinct (map fst (chain_live (table t ! bin)))"
    "bin < num_buckets t \<Longrightarrow> hashes_to t bin (table t ! bin)"
  using assms by (auto simp: ht_ok_def SIZEOF_BUCKET_def)

lemma hash_less:
  assumes "ht_ok t"
  shows "unat (clht_hash t k) < num_buckets t"
proof -
  have n: "0 < num_buckets t" "num_buckets t < 2 ^ 58" using ht_okD[OF assms] by auto
  have "hash t = word_of_nat (num_buckets t - 1)"
    using ht_okD(1,4)[OF assms] by (simp add: of_nat_diff)
  moreover have "unat (word_of_nat (num_buckets t - 1) :: u64) = num_buckets t - 1"
    using n by (intro unat_word_of_nat) simp
  moreover have "clht_hash t k \<le> hash t" by (simp add: clht_hash_def word_and_le1)
  ultimately show ?thesis using n by (simp add: word_le_nat_alt)
qed

lemma clht_hash_set_chain [simp]: "clht_hash (set_chain bin c t) k = clht_hash t k"
  by (simp add: clht_hash_def set_chain_def)

lemma num_buckets_set_chain [simp]: "num_buckets (set_chain bin c t) = num_buckets t"
  by (simp add: set_chain_def)

lemma hashes_to_set_chain [simp]: "hashes_to (set_chain b c' t) bin c = hashes_to t bin c"
  by (simp add: hashes_to_def)

lemma table_set_chain: "table (set_chain bin c t) = (table t)[bin := c]"
  by (simp add: set_chain_def)

lemma ht_ok_set_chain:
  assumes "ht_ok t" "bin < num_buckets t" "chain_ok c" "distinct (map fst (chain_live c))" "hashes_to t bin c"
  shows "ht_ok (set_chain bin c t)"
  using assms unfolding ht_ok_def
  by (auto simp: table_set_chain nth_list_update) (simp_all add: set_chain_def)

lemma ht_map_set_chain:
  assumes "ht_ok t" "bin < num_buckets t"
  shows "ht_map (set_chain bin c t) k =
    (if unat (clht_hash t k) = bin then map_of (chain_live c) k else ht_map t k)"
  using assms hash_less[OF assms(1), of k] ht_okD(3)[OF assms(1)]
  by (simp add: ht_map_def chain_of_def table_set_chain nth_list_update)

lemma ht_map_zero [simp]: "ht_map t 0 = None"
  by (simp add: ht_map_def chain_live_def)

lemma clht_get_map:
  "k \<noteq> 0 \<Longrightarrow> clht_get t k = (case ht_map t k of Some v \<Rightarrow> v | None \<Rightarrow> 0)"
  by (simp add: clht_get_def chain_get_map_of ht_map_def chain_live_map_of)

lemma exists_map: "k \<noteq> 0 \<Longrightarrow> bucket_exists (chain_of t k) k \<longleftrightarrow> ht_map t k \<noteq> None"
  by (simp add: bucket_exists_iff live_key_iff ht_map_def map_of_eq_None_iff)

section \<open>Changes of one chain\<close>

definition adds :: "chain \<Rightarrow> chain \<Rightarrow> u64 \<Rightarrow> u64 \<Rightarrow> bool" where
  "adds c c' k v \<longleftrightarrow> (\<exists>as bs. chain_live c = as @ bs \<and> chain_live c' = as @ (k, v) # bs)"

lemma adds_facts:
  assumes "adds c c' k v" and "k \<notin> fst ` set (chain_live c)" and "distinct (map fst (chain_live c))"
  shows "map_of (chain_live c') = (map_of (chain_live c))(k \<mapsto> v)"
    "distinct (map fst (chain_live c'))"
    "set (chain_live c') = insert (k, v) (set (chain_live c))"
    "length (chain_live c') = Suc (length (chain_live c))"
proof -
  obtain as bs where "chain_live c = as @ bs" "chain_live c' = as @ (k, v) # bs"
    using assms(1) by (auto simp: adds_def)
  then show "map_of (chain_live c') = (map_of (chain_live c))(k \<mapsto> v)"
    "distinct (map fst (chain_live c'))"
    "set (chain_live c') = insert (k, v) (set (chain_live c))"
    "length (chain_live c') = Suc (length (chain_live c))"
    using assms(2,3) map_of_insert_mid[of k as v bs] by auto
qed

lemma adds_fill:
  assumes c: "chain_ok c" and p: "remove_scan c 0 0 = Some (d, j)" and k: "k \<noteq> 0"
  shows "adds c (write_slot c d j k v) k v" "chain_ok (write_slot c d j k v)"
proof -
  have q: "d < length c" "j < 3" "fst (chain_slots c ! position d j) = 0"
    using remove_scan_SomeD[OF p] by auto
  then show "adds c (write_slot c d j k v) k v"
    using c live_fill[of "position d j" "chain_slots c" k v] k
    by (simp add: adds_def chain_live_simps position_less)
  show "chain_ok (write_slot c d j k v)" using c q(1) by (rule chain_ok_write)
qed

definition fresh_bucket :: "bucket_t \<Rightarrow> bool" where
  "fresh_bucket b \<longleftrightarrow> b_lock b = LOCK_FREE \<and> b_key b = replicate ENTRIES_PER_BUCKET 0
     \<and> length (b_val b) = ENTRIES_PER_BUCKET"

abbreviation first_entry :: "bucket_t \<Rightarrow> u64 \<Rightarrow> u64 \<Rightarrow> bucket_t" where
  "first_entry b k v \<equiv> b\<lparr>b_val := (b_val b)[0 := v], b_key := (b_key b)[0 := k]\<rparr>"

lemma adds_link:
  assumes c: "chain_ok c" and b: "fresh_bucket b" and k: "k \<noteq> 0"
  shows "adds c (c @ [first_entry b k v]) k v" "chain_ok (c @ [first_entry b k v])"
proof -
  have "slots (first_entry b k v) = [(k, v), (0, b_val b ! 1), (0, b_val b ! 2)]"
    using b by (simp add: fresh_bucket_def ENTRIES_3 upt_rec nth_list_update numeral_2_eq_2)
  then have "chain_slots [first_entry b k v] = [(k, v), (0, b_val b ! 1), (0, b_val b ! 2)]"
    by (simp add: chain_slots_Cons)
  then show "adds c (c @ [first_entry b k v]) k v"
    using k by (auto simp: adds_def chain_live_simps live_Cons)
  show "chain_ok (c @ [first_entry b k v])"
    using c b by (intro chain_ok_append) (auto simp: bucket_ok_def fresh_bucket_def)
qed

lemma removes_clear:
  assumes c: "chain_ok c" and p: "remove_scan c k 0 = Some (d, j)" and k: "k \<noteq> 0"
  defines "c' \<equiv> c[d := (c ! d)\<lparr>b_key := (b_key (c ! d))[j := 0]\<rparr>]"
  shows "adds c' c k (b_val (c ! d) ! j)" "chain_ok c'"
proof -
  have q: "d < length c" "j < 3" "fst (chain_slots c ! position d j) = k"
    using remove_scan_SomeD[OF p] by auto
  then have "chain_slots c ! position d j = (k, b_val (c ! d) ! j)"
    by (simp add: chain_slots_nth)
  then show "adds c' c k (b_val (c ! d) ! j)"
    using c q live_clear[of "position d j" "chain_slots c" k "b_val (c ! d) ! j" "b_val (c ! d) ! j"] k
    by (auto simp: adds_def chain_live_simps position_less c'_def)
  show "chain_ok c'" unfolding c'_def using c q(1) by (rule chain_ok_clear)
qed

text \<open>The same, on the table.\<close>

lemma ht_adds:
  assumes t: "ht_ok t" and n: "ht_map t k = None" and k: "k \<noteq> 0"
    and c: "adds (chain_of t k) c k v" "chain_ok c"
  defines "t' \<equiv> set_chain (unat (clht_hash t k)) c t"
  shows "ht_ok t'" "ht_map t' = (ht_map t)(k \<mapsto> v)"
proof -
  let ?b = "unat (clht_hash t k)"
  have b: "?b < num_buckets t" using t by (rule hash_less)
  have d: "distinct (map fst (chain_live (chain_of t k)))"
    using ht_okD(6)[OF t b] by (simp add: chain_of_def)
  have "k \<notin> fst ` set (chain_live (chain_of t k))"
    using n by (simp add: ht_map_def map_of_eq_None_iff)
  note f = adds_facts[OF c(1) this d]
  have "hashes_to t ?b c" using ht_okD(7)[OF t b] f(3) by (simp add: hashes_to_def chain_of_def)
  then show "ht_ok t'" unfolding t'_def using t b c(2) f(2) by (intro ht_ok_set_chain)
  show "ht_map t' = (ht_map t)(k \<mapsto> v)"
  proof
    fix x
    show "ht_map t' x = ((ht_map t)(k \<mapsto> v)) x"
      using f(1) by (simp add: t'_def ht_map_set_chain[OF t b]) (auto simp: ht_map_def chain_of_def)
  qed
qed

lemma ht_removes:
  assumes t: "ht_ok t" and c: "adds c (chain_of t k) k v" "chain_ok c"
  defines "t' \<equiv> set_chain (unat (clht_hash t k)) c t"
  shows "ht_ok t'" "ht_map t' = (ht_map t)(k := None)" "ht_map t k = Some v"
proof -
  let ?b = "unat (clht_hash t k)"
  have b: "?b < num_buckets t" using t by (rule hash_less)
  obtain as bs where l: "chain_live c = as @ bs" "chain_live (chain_of t k) = as @ (k, v) # bs"
    using c(1) by (auto simp: adds_def)
  have d: "distinct (map fst (as @ (k, v) # bs))"
    using ht_okD(6)[OF t b] l(2) by (simp add: chain_of_def)
  have m: "map_of (chain_live c) = (map_of (chain_live (chain_of t k)))(k := None)"
    unfolding l by (rule map_of_delete_mid[OF d])
  have "set (chain_live c) \<subseteq> set (chain_live (chain_of t k))" using l by auto
  then have "hashes_to t ?b c" using ht_okD(7)[OF t b] by (auto simp: hashes_to_def chain_of_def)
  then show "ht_ok t'" unfolding t'_def using t b c(2) d l(1) by (intro ht_ok_set_chain) auto
  show "ht_map t' = (ht_map t)(k := None)"
  proof
    fix x
    show "ht_map t' x = ((ht_map t)(k := None)) x"
      using m by (simp add: t'_def ht_map_set_chain[OF t b]) (auto simp: ht_map_def chain_of_def)
  qed
  have "k \<notin> fst ` set as" using d by auto
  then show "ht_map t k = Some v" unfolding ht_map_def l(2) by (simp add: map_of_insert_mid del: map_of_append)
qed

lemma ht_relock:
  assumes t: "ht_ok t" and b: "bin < num_buckets t"
  shows "ht_ok (set_chain bin (set_chain_lock l (table t ! bin)) t)"
    "ht_map (set_chain bin (set_chain_lock l (table t ! bin)) t) = ht_map t"
proof -
  have eq: "chain_live (set_chain_lock l (table t ! bin)) = chain_live (table t ! bin)"
    by (simp add: chain_live_simps)
  show "ht_ok (set_chain bin (set_chain_lock l (table t ! bin)) t)"
    using t b ht_okD(5-7)[OF t b] by (intro ht_ok_set_chain) (auto simp: eq hashes_to_def)
  show "ht_map (set_chain bin (set_chain_lock l (table t ! bin)) t) = ht_map t"
    by (simp add: fun_eq_iff ht_map_set_chain[OF t b] eq) (auto simp: ht_map_def chain_of_def)
qed

section \<open>Size\<close>

definition ht_live :: "clht_hashtable_t \<Rightarrow> (u64 \<times> u64) list" where
  "ht_live t = concat (map chain_live (table t))"

lemma clht_size_sum: "length (table t) = num_buckets t \<Longrightarrow> clht_size t = sum_list (map chain_size (table t))"
  unfolding clht_size_def by (rule arg_cong[where f = sum_list]) (simp add: list_eq_iff_nth_eq)

lemma clht_size_live: "ht_ok t \<Longrightarrow> clht_size t = length (ht_live t)"
  by (simp add: clht_size_sum ht_okD ht_live_def length_concat o_def chain_size_live cong: map_cong)

lemma ht_live_keys:
  assumes t: "ht_ok t"
  shows "(k, v) \<in> set (ht_live t) \<longleftrightarrow> ht_map t k = Some v"
proof
  assume "(k, v) \<in> set (ht_live t)"
  then obtain bin where b: "bin < num_buckets t" "(k, v) \<in> set (chain_live (table t ! bin))"
    using ht_okD(3)[OF t] by (auto simp: ht_live_def in_set_conv_nth[of _ "table t"])
  then have "unat (clht_hash t k) = bin" using ht_okD(7)[OF t b(1)] by (auto simp: hashes_to_def)
  then show "ht_map t k = Some v"
    using b ht_okD(6)[OF t b(1)] by (simp add: ht_map_def chain_of_def)
next
  assume "ht_map t k = Some v"
  then have "(k, v) \<in> set (chain_live (chain_of t k))" unfolding ht_map_def by (rule map_of_SomeD)
  moreover have "chain_of t k \<in> set (table t)"
    using hash_less[OF t] ht_okD(3)[OF t] by (simp add: chain_of_def)
  ultimately show "(k, v) \<in> set (ht_live t)" by (auto simp: ht_live_def)
qed

lemma distinct_ht_live:
  assumes t: "ht_ok t"
  shows "distinct (map fst (ht_live t))"
proof -
  have "distinct (concat (map (\<lambda>c. map fst (chain_live c)) (take m (table t))))" if "m \<le> num_buckets t" for m
    using that
  proof (induction m)
    case (Suc m)
    then have m: "m < num_buckets t" by simp
    have lo: "unat (clht_hash t k) < m" if "k \<in> fst ` set (chain_live c)" "c \<in> set (take m (table t))" for k c
    proof -
      from that(2) obtain i where i: "i < m" "c = table t ! i"
        using m ht_okD(3)[OF t] by (auto simp: in_set_conv_nth)
      then have "unat (clht_hash t k) = i"
        using that(1) m ht_okD(7)[OF t, of i] by (auto simp: hashes_to_def)
      then show ?thesis using i by simp
    qed
    have hi: "unat (clht_hash t k) = m" if "k \<in> fst ` set (chain_live (table t ! m))" for k
      using that ht_okD(7)[OF t m] by (auto simp: hashes_to_def)
    have "k \<notin> fst ` set (chain_live (table t ! m))"
      if "c \<in> set (take m (table t))" "k \<in> fst ` set (chain_live c)" for k c
    proof
      assume "k \<in> fst ` set (chain_live (table t ! m))"
      then show False using hi lo[OF that(2,1)] by simp
    qed
    then have "set (concat (map (\<lambda>c. map fst (chain_live c)) (take m (table t))))
        \<inter> set (map fst (chain_live (table t ! m))) = {}" by auto
    then show ?case
      using Suc m ht_okD(3)[OF t] ht_okD(6)[OF t m] by (simp add: take_Suc_conv_app_nth)
  qed simp
  from this[of "num_buckets t"] show ?thesis
    using ht_okD(3)[OF t] by (simp add: ht_live_def map_concat o_def)
qed

lemma ht_map_ht_live:
  assumes "ht_ok t"
  shows "ht_map t = map_of (ht_live t)"
proof
  fix k
  have "ht_map t k = Some v \<longleftrightarrow> map_of (ht_live t) k = Some v" for v
    using ht_live_keys[OF assms] distinct_ht_live[OF assms] by (metis map_of_eq_Some_iff)
  then show "ht_map t k = map_of (ht_live t) k" by (metis option.exhaust)
qed

lemma clht_size_card: "ht_ok t \<Longrightarrow> clht_size t = card (dom (ht_map t))"
  using distinct_card[OF distinct_ht_live, of t]
  by (simp add: clht_size_live ht_map_ht_live dom_map_of_conv_image_fst)

lemma finite_ht_map: "ht_ok t \<Longrightarrow> finite (dom (ht_map t))"
  by (simp add: ht_map_ht_live finite_dom_map_of)

section \<open>Growth factor\<close>

lemma smear_step:
  fixes x y :: u64
  assumes "\<And>n. bit y n \<longleftrightarrow> (\<exists>i < m. bit x (n + i))"
  shows "bit (y OR drop_bit m y) n \<longleftrightarrow> (\<exists>i < 2 * m. bit x (n + i))"
proof -
  have "(\<exists>i < 2 * m. bit x (n + i)) \<longleftrightarrow> (\<exists>i < m. bit x (n + i)) \<or> (\<exists>i < m. bit x (m + n + i))"
  proof
    assume "\<exists>i < 2 * m. bit x (n + i)"
    then obtain i where i: "i < 2 * m" "bit x (n + i)" by blast
    show "(\<exists>i < m. bit x (n + i)) \<or> (\<exists>i < m. bit x (m + n + i))"
    proof (cases "i < m")
      case False
      then have "i - m < m" "m + n + (i - m) = n + i" using i(1) by auto
      then show ?thesis using i(2) by metis
    qed (use i in blast)
  next
    assume "(\<exists>i < m. bit x (n + i)) \<or> (\<exists>i < m. bit x (m + n + i))"
    then show "\<exists>i < 2 * m. bit x (n + i)"
    proof
      assume "\<exists>i < m. bit x (m + n + i)"
      then obtain i where "i < m" "bit x (n + (m + i))" by (auto simp: ac_simps)
      then show ?thesis by (intro exI[of _ "m + i"]) simp
    next
      assume "\<exists>i < m. bit x (n + i)"
      then obtain i where "i < m" "bit x (n + i)" by blast
      then show ?thesis by (intro exI[of _ i]) simp
    qed
  qed
  then show ?thesis by (simp add: bit_or_iff bit_drop_bit_eq assms)
qed

lemma smear:
  fixes x :: u64
  defines "x1 \<equiv> x OR drop_bit 1 x"
  defines "x2 \<equiv> x1 OR drop_bit 2 x1"
  defines "x3 \<equiv> x2 OR drop_bit 4 x2"
  defines "x4 \<equiv> x3 OR drop_bit 8 x3"
  defines "x5 \<equiv> x4 OR drop_bit 16 x4"
  shows "bit (x5 OR drop_bit 32 x5) n \<longleftrightarrow> (\<exists>i < 64. bit x (n + i))"
proof -
  have "bit x1 n \<longleftrightarrow> (\<exists>i < 2. bit x (n + i))" for n
    using smear_step[of x 1 x n] by (simp add: x1_def)
  then have "bit x2 n \<longleftrightarrow> (\<exists>i < 4. bit x (n + i))" for n
    using smear_step[of x1 2 x n] by (simp add: x2_def)
  then have "bit x3 n \<longleftrightarrow> (\<exists>i < 8. bit x (n + i))" for n
    using smear_step[of x2 4 x n] by (simp add: x3_def)
  then have "bit x4 n \<longleftrightarrow> (\<exists>i < 16. bit x (n + i))" for n
    using smear_step[of x3 8 x n] by (simp add: x4_def)
  then have "bit x5 n \<longleftrightarrow> (\<exists>i < 32. bit x (n + i))" for n
    using smear_step[of x4 16 x n] by (simp add: x5_def)
  then show ?thesis using smear_step[of x5 32 x n] by simp
qed

lemma smear_mask:
  fixes x y :: u64
  assumes "\<And>n. bit y n \<longleftrightarrow> (\<exists>i < 64. bit x (n + i))"
    and "unat x < 2 ^ k" "k < 64" "0 < k \<Longrightarrow> 2 ^ (k - 1) \<le> unat x"
  shows "y + 1 = 2 ^ k"
proof -
  have hi: "\<not> bit x n" if "k \<le> n" for n using assms(2) that by (rule not_bit_above)
  have top: "bit x (k - 1)" if "0 < k"
  proof -
    have "unat x < 2 * 2 ^ (k - 1)" using assms(2) that by (cases k) auto
    then have "unat x div 2 ^ (k - 1) = 1"
      using assms(4)[OF that] by (intro div_nat_eqI) auto
    then have "bit (unat x) (k - 1)" by (simp add: bit_iff_odd)
    then show ?thesis by (simp add: bit_unsigned_iff)
  qed
  have "y = mask k"
  proof (rule bit_word_eqI)
    fix n assume n: "n < LENGTH(64)"
    show "bit y n = bit (mask k :: u64) n"
    proof (cases "n < k")
      case True
      then have "bit x (n + (k - 1 - n))" "k - 1 - n < 64" using top assms(3) by auto
      then show ?thesis using True n assms(1) by (auto simp: bit_mask_iff)
    next
      case False
      then show ?thesis using hi assms(1) by (auto simp: bit_mask_iff)
    qed
  qed
  then show ?thesis by (simp add: mask_eq_exp_minus_1)
qed

lemma pow2roundup_pow:
  assumes "0 < unat x" "unat x \<le> 2 ^ 63"
  shows "\<exists>k < 64. pow2roundup x = 2 ^ k \<and> unat x \<le> 2 ^ k \<and> 2 ^ k < 2 * unat x"
proof -
  have x1: "unat (x - 1) = unat x - 1" using assms(1) by (simp add: unat_minus_one unat_gt_0)
  define k where "k = (LEAST k. unat (x - 1) < 2 ^ k)"
  have "unat (x - 1) < 2 ^ 63" using assms x1 by simp
  then have lt: "unat (x - 1) < 2 ^ k" and le: "k \<le> 63"
    unfolding k_def by (rule LeastI, rule Least_le)
  have ge: "2 ^ (k - 1) \<le> unat (x - 1)" if "0 < k"
    using that not_less_Least[of "k - 1" "\<lambda>k. unat (x - 1) < 2 ^ k"] by (simp add: k_def not_less)
  have "x \<noteq> 0" using assms(1) by auto
  then have "pow2roundup x = 2 ^ k"
    unfolding pow2roundup_def Let_def using smear_mask[OF smear lt _ ge] le by simp
  moreover have "unat x \<le> 2 ^ k" using lt x1 by simp
  moreover have "2 ^ k < 2 * unat x"
    using ge x1 assms(1) by (cases k) auto
  ultimately show ?thesis using le by (intro exI[of _ k]) simp
qed

lemma inc_by_pow2_bounds:
  assumes n: "0 < n" and sz: "sz < 2 ^ 32"
  defines "p \<equiv> inc_by_pow2 sz n"
  shows "2 \<le> p" "\<exists>k. p = 2 ^ k" "p * n \<le> max (2 * n) (2 * sz)"
proof -
  define r where "r = (100 * sz) div (n * ENTRIES_PER_BUCKET * CLHT_OCCUP_AFTER_RES)"
  have r: "r * (n * 120) \<le> 100 * sz"
    using div_times_less_eq_dividend[of "100 * sz" "n * 120"]
    by (simp add: r_def ENTRIES_PER_BUCKET_def CLHT_OCCUP_AFTER_RES_def mult.assoc del: div_mult_mult1)
  have "r \<le> 100 * sz" by (simp add: r_def)
  then have r63: "r < 2 ^ 63" using sz by simp
  have ur: "unat (word_of_nat r :: u64) = r" using r63 by (intro unat_word_of_nat) simp
  have p: "p = (if unat (pow2roundup (word_of_nat r)) = 1 then 2 else unat (pow2roundup (word_of_nat r)))"
    by (simp add: p_def inc_by_pow2_def r_def Let_def)
  have "2 \<le> p \<and> (\<exists>k. p = 2 ^ k) \<and> (p = 2 \<or> p < 2 * r)"
  proof (cases "r = 0")
    case True
    then have "p = 2" using p by (simp add: pow2roundup_def)
    then show ?thesis by (intro conjI exI[of _ 1]) simp_all
  next
    case False
    then obtain k where k: "k < 64" "pow2roundup (word_of_nat r) = 2 ^ k" "2 ^ k < 2 * r"
      using pow2roundup_pow[of "word_of_nat r"] r63 ur by auto
    have "unat (pow2roundup (word_of_nat r)) = 2 ^ k"
      unfolding k(2) using unat_word_of_nat[OF power_strict_increasing[OF k(1)]] by simp
    then show ?thesis using p k(3) by (cases k) (auto intro: exI[of _ 1] exI[of _ k])
  qed
  then show "2 \<le> p" "\<exists>k. p = 2 ^ k" "p * n \<le> max (2 * n) (2 * sz)"
  proof -
    assume a: "2 \<le> p \<and> (\<exists>k. p = 2 ^ k) \<and> (p = 2 \<or> p < 2 * r)"
    then show "2 \<le> p" "\<exists>k. p = 2 ^ k" by auto
    show "p * n \<le> max (2 * n) (2 * sz)"
    proof (cases "p = 2")
      case False
      then have "p * n \<le> 2 * r * n" using a by simp
      also have "\<dots> \<le> 2 * sz" using r by (simp add: mult.commute)
      finally show ?thesis by simp
    qed simp
  qed
qed

end
