(* ===== verification/ClhtResize.thy ===== *)
theory ClhtResize
  imports ClhtTable
begin

text \<open>
  Copying a table and resizing. \<open>built t es\<close>: the table \<open>t\<close> was filled from empty with the entries
  \<open>es\<close>, no bucket is locked, every bucket but the last of a chain is full, and \<^verbatim>\<open>num_expands\<close>
  counts the overflow buckets. \<^verbatim>\<open>clht_put_seq\<close>, \<^verbatim>\<open>bucket_cpy\<close> and the copy loop keep it, so the
  table a resize installs holds the same map as the one it replaces; and as a new table that is
  still crowded holds more than three entries per bin, the next factor is at least 2 and the
  recursion between \<^verbatim>\<open>ht_resize_pes\<close> and \<^verbatim>\<open>ht_status\<close> ends.
\<close>

abbreviation oom :: "clht_mem \<Rightarrow> bool" where
  "oom s \<equiv> \<exists>i \<ge> nalloc s. fails s i"

definition expansions :: "chain list \<Rightarrow> nat" where
  "expansions cs = sum_list (map (\<lambda>c. length c - 1) cs)"

definition packed :: "chain \<Rightarrow> bool" where
  "packed c \<longleftrightarrow> 3 * (length c - 1) + (if 1 < length c then 1 else 0) \<le> length (chain_live c)"

definition built :: "clht_hashtable_t \<Rightarrow> (u64 \<times> u64) list \<Rightarrow> bool" where
  "built t es \<longleftrightarrow> ht_ok t \<and> ht_map t = map_of es \<and> distinct (map fst es)
     \<and> (\<forall>c \<in> set (table t). packed c) \<and> expansions (table t) = unat (num_expands t) \<and> ht_unlocked t"

lemma get_ht_Some [simp]: "tables s a = Some t \<Longrightarrow> get_ht s a = Ret t"
  by (simp add: get_ht_def)

lemma tables_put_ht [simp]: "tables (put_ht a t s) = (tables s)(a \<mapsto> t)"
  by (simp add: put_ht_def)

lemma put_ht_fields [simp]:
  "nalloc (put_ht a t s) = nalloc s" "fails (put_ht a t s) = fails s" "clht (put_ht a t s) = clht s"
  "junk (put_ht a t s) = junk s" "released (put_ht a t s) = released s"
  by (simp_all add: put_ht_def)

text \<open>Field updates in one order.\<close>

lemma upd_order [simp]:
  "t\<lparr>num_expands := e, table := x\<rparr> = t\<lparr>table := x, num_expands := e\<rparr>"
  "s\<lparr>nalloc := m, tables := T\<rparr> = s\<lparr>tables := T, nalloc := m\<rparr>"
  by simp_all

section \<open>Counting\<close>

lemma packed_sum:
  assumes "\<forall>c \<in> set cs. packed c"
  shows "3 * expansions cs \<le> sum_list (map chain_size cs)
    \<and> (0 < expansions cs \<longrightarrow> 3 * expansions cs < sum_list (map chain_size cs))"
  using assms
proof (induction cs)
  case (Cons c cs)
  then show ?case
    by (auto simp: expansions_def packed_def chain_size_live split: if_splits)
qed (simp add: expansions_def)

lemma built_size: "built t es \<Longrightarrow> clht_size t = length es"
  using distinct_card[of "map fst es"]
  by (simp add: built_def clht_size_card dom_map_of_conv_image_fst)

lemma built_crowded:
  assumes "built t es"
  shows "3 * unat (num_expands t) \<le> length es"
    and "0 < unat (num_expands t) \<Longrightarrow> 3 * unat (num_expands t) < length es"
proof -
  have t: "ht_ok t" "\<forall>c \<in> set (table t). packed c" "expansions (table t) = unat (num_expands t)"
    using assms by (auto simp: built_def)
  have "sum_list (map chain_size (table t)) = length es"
    using built_size[OF assms] clht_size_sum[OF ht_okD(3)[OF t(1)]] by simp
  then show "3 * unat (num_expands t) \<le> length es"
    and "0 < unat (num_expands t) \<Longrightarrow> 3 * unat (num_expands t) < length es"
    using packed_sum[OF t(2)] t(3) by auto
qed

lemma full_chain: "remove_scan c 0 0 = None \<Longrightarrow> length (chain_live c) = 3 * length c"
proof -
  assume "remove_scan c 0 0 = None"
  then have "0 \<notin> fst ` set (chain_slots c)" by (simp add: remove_scan_None)
  then have "chain_live c = chain_slots c"
    by (auto simp: chain_live_def live_def intro!: filter_True)
  then show ?thesis by simp
qed

lemma expansions_update:
  "i < length cs \<Longrightarrow> expansions (cs[i := c]) + (length (cs ! i) - 1) = expansions cs + (length c - 1)"
  unfolding expansions_def
  by (simp add: map_update sum_list_update)
     (metis (no_types, lifting) add.commute add_diff_cancel_right' diff_add elem_le_sum_list length_map
       nth_map trans_le_add1)

text \<open>One entry more, in a chain that replaces the chain of its key.\<close>

lemma built_adds:
  assumes b: "built t es" and k: "k \<noteq> 0" "k \<notin> fst ` set es"
    and c: "adds (chain_of t k) c k v" "chain_ok c" "packed c" "chain_lock c = LOCK_FREE"
    and e: "unat e + (length (chain_of t k) - 1) = unat (num_expands t) + (length c - 1)"
  shows "built (t\<lparr>table := (table t)[unat (clht_hash t k) := c], num_expands := e\<rparr>) (es @ [(k, v)])"
proof -
  let ?b = "unat (clht_hash t k)" and ?t = "set_chain (unat (clht_hash t k)) c t"
  have t: "ht_ok t" "ht_map t = map_of es" "distinct (map fst es)" "\<forall>c \<in> set (table t). packed c"
    "expansions (table t) = unat (num_expands t)" "ht_unlocked t"
    using b by (auto simp: built_def)
  have bin: "?b < num_buckets t" using t(1) by (rule hash_less)
  have none: "ht_map t k = None" using t(2) k(2) by (simp add: map_of_eq_None_iff)
  note a = ht_adds[OF t(1) none k(1) c(1,2)]
  have "map_of (es @ [(k, v)]) = (map_of es)(k \<mapsto> v)"
    using k(2) by (simp add: map_of_insert_mid del: map_of_append)
  then have m: "ht_map ?t = map_of (es @ [(k, v)])" using a(2) t(2) by simp
  have x: "expansions ((table t)[?b := c]) = unat e"
    using expansions_update[of ?b "table t" c] bin ht_okD(3)[OF t(1)] e t(5) by (simp add: chain_of_def)
  have u: "ht_unlocked (set_chain ?b c t)"
    using t(6) c(4) bin ht_okD(3)[OF t(1)] by (simp add: ht_unlocked_def table_set_chain nth_list_update)
  have same: "ht_ok (t'\<lparr>num_expands := e\<rparr>) = ht_ok t'" "ht_map (t'\<lparr>num_expands := e\<rparr>) = ht_map t'"
    "ht_unlocked (t'\<lparr>num_expands := e\<rparr>) = ht_unlocked t'" for t'
    by (simp_all add: ht_ok_def ht_map_def ht_unlocked_def hashes_to_def clht_hash_def chain_of_def fun_eq_iff)
  have "built (?t\<lparr>num_expands := e\<rparr>) (es @ [(k, v)])"
    using a(1) m u x t(3,4) k(2) c(3)
    by (auto simp: built_def same table_set_chain dest!: set_update_subset_insert[THEN subsetD])
  then show ?thesis by (simp add: set_chain_def)
qed

section \<open>One entry\<close>

lemma bucket_create_cases:
  obtains (oom) s' where "clht_bucket_create s = (None, s')" "fails s (nalloc s)"
  | (new) b where "clht_bucket_create s = (Some b, s\<lparr>nalloc := Suc (nalloc s)\<rparr>)" "fresh_bucket b"
  by (cases "fails s (nalloc s)")
     (auto simp: clht_bucket_create_def memalign_def fresh_bucket_def)

lemma create_stats_post:
  assumes "tables s a = Some t"
  shows "run_post (\<lambda>(nb, r, s'). case nb of
      None \<Rightarrow> oom s
    | Some b \<Rightarrow> fresh_bucket b \<and> r = (num_expands_threshold t \<le> num_expands t + 1)
        \<and> s' = s\<lparr>tables := (tables s)(a \<mapsto> t\<lparr>num_expands := num_expands t + 1\<rparr>), nalloc := Suc (nalloc s)\<rparr>) E
    (clht_bucket_create_stats s a)"
proof (cases rule: bucket_create_cases[of s])
  case (oom s')
  then have "tables s' a = Some t" using assms by (auto simp: clht_bucket_create_def memalign_def split: if_splits)
  then show ?thesis using oom by (auto simp: clht_bucket_create_stats_def)
next
  case (new b)
  then show ?thesis using assms by (simp add: clht_bucket_create_stats_def Let_def put_ht_def)
qed

lemma put_seq_built:
  assumes s: "tables s a = Some t" and b: "built t es" and k: "k \<noteq> 0" "k \<notin> fst ` set es"
    and small: "length es < 2 ^ 32 - 1"
  shows "run_post (\<lambda>s'. \<exists>x e m. nalloc s \<le> m \<and> built (t\<lparr>table := x, num_expands := e\<rparr>) (es @ [(k, v)])
      \<and> s' = s\<lparr>tables := (tables s)(a \<mapsto> t\<lparr>table := x, num_expands := e\<rparr>), nalloc := m\<rparr>) (oom s)
    (clht_put_seq s a k v (unat (clht_hash t k)))"
proof -
  let ?b = "unat (clht_hash t k)" let ?c = "table t ! ?b"
  have t: "ht_ok t" "ht_unlocked t" "\<forall>c \<in> set (table t). packed c" using b by (auto simp: built_def)
  have bin: "?b < num_buckets t" using t(1) by (rule hash_less)
  have c: "chain_ok ?c" "chain_of t k = ?c" "packed ?c" "chain_lock ?c = LOCK_FREE"
    "distinct (map fst (chain_live ?c))"
    using ht_okD[OF t(1)] bin t(2,3) by (auto simp: chain_of_def ht_unlocked_def)
  have "ht_map t k = None" using b k(2) by (simp add: built_def map_of_eq_None_iff)
  then have notin: "k \<notin> fst ` set (chain_live ?c)" by (simp add: ht_map_def c(2) map_of_eq_None_iff)
  show ?thesis
  proof (cases "remove_scan ?c 0 0")
    case (Some p)
    then obtain d j where p: "remove_scan ?c 0 0 = Some (d, j)" by (cases p) auto
    let ?c' = "write_slot ?c d j k v"
    note a = adds_fill[OF c(1) p k(1), of v]
    have len: "length ?c' = length ?c" by (simp add: write_slot_def)
    have "packed ?c'"
      using c(3) adds_facts(4)[OF a(1) notin c(5)] by (simp add: packed_def len)
    then have "built (t\<lparr>table := (table t)[?b := ?c'], num_expands := num_expands t\<rparr>) (es @ [(k, v)])"
      using built_adds[OF b k, of ?c' v "num_expands t"] a c(2,4) len by simp
    then show ?thesis
      using s p
      by (auto simp: clht_put_seq_def seq_slot_eq put_ht_def set_chain_def
          intro!: exI[of _ "(table t)[?b := ?c']"] exI[of _ "num_expands t"] exI[of _ "nalloc s"])
  next
    case None
    have e: "unat (num_expands t + 1) = Suc (unat (num_expands t))"
      using built_crowded(1)[OF b] small by (intro unat_add_lem[THEN iffD1, of _ 1, simplified]) simp
    have link: "built (t\<lparr>table := (table t)[?b := ?c @ [first_entry nb k v]], num_expands := num_expands t + 1\<rparr>)
        (es @ [(k, v)])" if "fresh_bucket nb" for nb
    proof -
      note a = adds_link[OF c(1) that k(1), of v]
      have "packed (?c @ [first_entry nb k v])"
        using full_chain[OF None] adds_facts(4)[OF a(1) notin c(5)] by (simp add: packed_def)
      moreover have "chain_lock (?c @ [first_entry nb k v]) = LOCK_FREE"
        using c(1,4) by (simp add: chain_lock_def chain_ok_def nth_append)
      moreover have "0 < length ?c" using c(1) by (simp add: chain_ok_def)
      ultimately show ?thesis
        using a c(2) e by (intro built_adds[OF b k]) auto
    qed
    show ?thesis
      unfolding clht_put_seq_def get_ht_Some[OF s] bind_run.simps seq_slot_eq None option.case
    proof (rule run_post_bind[OF create_stats_post[OF s]])
      fix r :: "bucket_t option \<times> bool \<times> clht_mem"
      obtain nb q s' where r: "r = (nb, q, s')" by (cases r) auto
      assume P: "case r of (nb, q, s') \<Rightarrow> case nb of None \<Rightarrow> oom s
        | Some b \<Rightarrow> fresh_bucket b \<and> q = (num_expands_threshold t \<le> num_expands t + 1)
           \<and> s' = s\<lparr>tables := (tables s)(a \<mapsto> t\<lparr>num_expands := num_expands t + 1\<rparr>), nalloc := Suc (nalloc s)\<rparr>"
      show "run_post (\<lambda>s'. \<exists>x e m. nalloc s \<le> m \<and> built (t\<lparr>table := x, num_expands := e\<rparr>) (es @ [(k, v)])
          \<and> s' = s\<lparr>tables := (tables s)(a \<mapsto> t\<lparr>table := x, num_expands := e\<rparr>), nalloc := m\<rparr>) (oom s)
        (case r of (nb, _, s) \<Rightarrow> case nb of None \<Rightarrow> Abort ''NULL bucket''
          | Some b \<Rightarrow> bind_run (get_ht s a) (\<lambda>t. let b = first_entry b k v in
              Ret (put_ht a (set_chain ?b (table t ! ?b @ [b]) t) s)))"
      proof (cases nb)
        case None
        then show ?thesis using P r by simp
      next
        case (Some y)
        then show ?thesis
          using P r link[of y]
          by (auto simp: put_ht_def set_chain_def intro!: exI[of _ "Suc (nalloc s)"]
              exI[of _ "num_expands t + 1"] exI[of _ "(table t)[?b := ?c @ [first_entry y k v]]"])
      qed
    qed
  qed
qed

section \<open>One bin, all bins\<close>

definition filled :: "nat \<Rightarrow> clht_mem \<Rightarrow> clht_hashtable_t \<Rightarrow> (u64 \<times> u64) list \<Rightarrow> clht_mem \<Rightarrow> bool" where
  "filled a s t es s' \<longleftrightarrow> (\<exists>x e m. nalloc s \<le> m \<and> built (t\<lparr>table := x, num_expands := e\<rparr>) es
      \<and> s' = s\<lparr>tables := (tables s)(a \<mapsto> t\<lparr>table := x, num_expands := e\<rparr>), nalloc := m\<rparr>)"

lemma cpy_slots_built:
  assumes "tables s a = Some t" "built t es" "distinct (map fst (live sl))"
    and "fst ` set (live sl) \<inter> fst ` set es = {}" "length es + length (live sl) < 2 ^ 32"
  shows "run_post (filled a s t (es @ live sl)) (oom s) (cpy_slots sl s a)"
  using assms
proof (induction sl arbitrary: s t es)
  case Nil
  then have "filled a s t es s"
    by (auto simp: filled_def map_upd_triv intro!: exI[of _ "table t"] exI[of _ "num_expands t"] exI[of _ "nalloc s"])
  then show ?case by simp
next
  case (Cons p sl)
  obtain k v where p: "p = (k, v)" by (cases p)
  show ?case
  proof (cases "k = 0")
    case True
    then show ?thesis using Cons p by (simp add: live_Cons)
  next
    case False
    have "run_post (filled a s t (es @ live (p # sl))) (oom s)
       (bind_run (clht_put_seq s a k v (unat (clht_hash t k))) (\<lambda>s. cpy_slots sl s a))"
    proof (rule run_post_bind[OF put_seq_built[OF Cons.prems(1,2) False]])
      show "k \<notin> fst ` set es" "length es < 2 ^ 32 - 1"
        using Cons.prems(4,5) False by (auto simp: p live_Cons)
    next
      fix s' assume "\<exists>x e m. nalloc s \<le> m \<and> built (t\<lparr>table := x, num_expands := e\<rparr>) (es @ [(k, v)])
        \<and> s' = s\<lparr>tables := (tables s)(a \<mapsto> t\<lparr>table := x, num_expands := e\<rparr>), nalloc := m\<rparr>"
      then obtain x e m where x: "nalloc s \<le> m" "built (t\<lparr>table := x, num_expands := e\<rparr>) (es @ [(k, v)])"
        "s' = s\<lparr>tables := (tables s)(a \<mapsto> t\<lparr>table := x, num_expands := e\<rparr>), nalloc := m\<rparr>" by blast
      have "run_post (filled a s' (t\<lparr>table := x, num_expands := e\<rparr>) ((es @ [(k, v)]) @ live sl)) (oom s')
          (cpy_slots sl s' a)"
        using Cons.prems(3-5) False x by (intro Cons.IH) (auto simp: p live_Cons)
      then show "run_post (filled a s t (es @ live (p # sl))) (oom s) (cpy_slots sl s' a)"
      proof (rule run_post_mono)
        show "oom s" if "oom s'" using that x(1,3) by (auto intro: order_trans)
      next
        fix s'' assume "filled a s' (t\<lparr>table := x, num_expands := e\<rparr>) ((es @ [(k, v)]) @ live sl) s''"
        then obtain x' e' m' where "m \<le> m'" "built (t\<lparr>table := x', num_expands := e'\<rparr>) ((es @ [(k, v)]) @ live sl)"
          "s'' = s\<lparr>tables := (tables s)(a \<mapsto> t\<lparr>table := x', num_expands := e'\<rparr>), nalloc := m'\<rparr>"
          using x(3) by (auto simp: filled_def)
        then show "filled a s t (es @ live (p # sl)) s''"
          using x(1) False unfolding filled_def p live_Cons
          by (intro exI[of _ x'] exI[of _ e'] exI[of _ m']) auto
      qed
    qed
    then show ?thesis using Cons.prems(1) False p by simp
  qed
qed

text \<open>The old table differs only in its locks.\<close>

definition locks_only :: "clht_hashtable_t \<Rightarrow> clht_hashtable_t \<Rightarrow> bool" where
  "locks_only t t' \<longleftrightarrow> (\<exists>x. t' = t\<lparr>table := x\<rparr> \<and> length x = length (table t)
     \<and> (\<forall>i < length x. \<exists>l. x ! i = set_chain_lock l (table t ! i)))"

lemma locks_only_refl [simp]: "locks_only t t"
  unfolding locks_only_def by (rule exI[of _ "table t"]) (auto intro: set_chain_lock_id[symmetric])

lemma locks_only_trans: "locks_only t t' \<Longrightarrow> locks_only t' t'' \<Longrightarrow> locks_only t t''"
  unfolding locks_only_def by (force simp: )

lemma locks_only_set:
  "locks_only t (set_chain bin (set_chain_lock l (table t ! bin)) t)"
proof -
  have "(table t)[bin := set_chain_lock l (table t ! bin)] ! i =
      set_chain_lock (if i = bin then l else chain_lock (table t ! i)) (table t ! i)"
    if "i < length (table t)" for i
    using that by (auto simp: nth_list_update set_chain_lock_id)
  then show ?thesis unfolding locks_only_def set_chain_def
    by (intro exI[of _ "(table t)[bin := set_chain_lock l (table t ! bin)]"]) auto
qed

lemma locks_only_slots:
  assumes "locks_only t t'"
  shows "chain_slots (table t' ! i) = chain_slots (table t ! i) \<or> length (table t) \<le> i"
    and "length (table t') = length (table t)" "num_buckets t' = num_buckets t"
proof -
  obtain x where x: "t' = t\<lparr>table := x\<rparr>" "length x = length (table t)"
    "\<forall>i < length x. \<exists>l. x ! i = set_chain_lock l (table t ! i)"
    using assms by (auto simp: locks_only_def)
  then show "chain_slots (table t' ! i) = chain_slots (table t ! i) \<or> length (table t) \<le> i"
    using chain_slots_lock by (cases "i < length x") auto
  show "length (table t') = length (table t)" "num_buckets t' = num_buckets t" using x by auto
qed

lemma bin_entries_disjoint:
  assumes "ht_ok t" "b < num_buckets t" "b' < num_buckets t" "b \<noteq> b'"
  shows "fst ` set (chain_live (table t ! b)) \<inter> fst ` set (chain_live (table t ! b')) = {}"
proof -
  have "unat (clht_hash t k) = i" if "k \<in> fst ` set (chain_live (table t ! i))" "i < num_buckets t" for k i
    using that ht_okD(7)[OF assms(1)] by (auto simp: hashes_to_def)
  then show ?thesis using assms(2-4) by (metis disjoint_iff)
qed

definition copied ::
  "nat \<Rightarrow> nat \<Rightarrow> clht_mem \<Rightarrow> clht_hashtable_t \<Rightarrow> clht_hashtable_t \<Rightarrow> (u64 \<times> u64) list \<Rightarrow> clht_mem \<Rightarrow> bool" where
  "copied a a1 s t t1 es s' \<longleftrightarrow> (\<exists>t' x e m. nalloc s \<le> m \<and> locks_only t t'
      \<and> built (t1\<lparr>table := x, num_expands := e\<rparr>) es
      \<and> s' = s\<lparr>tables := (tables s)(a \<mapsto> t', a1 \<mapsto> t1\<lparr>table := x, num_expands := e\<rparr>), nalloc := m\<rparr>)"

lemma bucket_cpy_built:
  assumes s: "tables s a = Some t" "tables s a1 = Some t1" "a \<noteq> a1" and b: "built t1 es"
    and c: "chain_lock (table t ! bin) = LOCK_FREE" "distinct (map fst (chain_live (table t ! bin)))"
    and d: "fst ` set (chain_live (table t ! bin)) \<inter> fst ` set es = {}"
    and n: "length es + length (chain_live (table t ! bin)) < 2 ^ 32"
  shows "run_post (\<lambda>(r, s'). r = 1 \<and> copied a a1 s t t1 (es @ chain_live (table t ! bin)) s'
      \<and> tables s' a = Some (set_chain bin (set_chain_lock LOCK_RESIZE (table t ! bin)) t)) (oom s)
    (bucket_cpy s a bin a1)"
proof -
  let ?t = "set_chain bin (set_chain_lock LOCK_RESIZE (table t ! bin)) t"
  let ?s = "put_ht a ?t s"
  have l: "lock_acq_resize (chain_lock (table t ! bin)) = Ret (1, LOCK_RESIZE)"
    using c(1) by (simp add: lock_acq_resize_def LOCK_FREE_def LOCK_UPDATE_def LOCK_RESIZE_def)
  have "run_post (filled a1 ?s t1 (es @ live (chain_slots (table t ! bin)))) (oom ?s)
      (cpy_slots (chain_slots (table t ! bin)) ?s a1)"
    using s b c d n by (intro cpy_slots_built) (auto simp: chain_live_def)
  then have "run_post (\<lambda>s'. copied a a1 s t t1 (es @ chain_live (table t ! bin)) s' \<and> tables s' a = Some ?t)
      (oom s) (cpy_slots (chain_slots (table t ! bin)) ?s a1)"
  proof (rule run_post_mono)
    fix s' assume "filled a1 ?s t1 (es @ live (chain_slots (table t ! bin))) s'"
    then show "copied a a1 s t t1 (es @ chain_live (table t ! bin)) s' \<and> tables s' a = Some ?t"
      using locks_only_set[of t bin LOCK_RESIZE] s(3)
      unfolding filled_def copied_def chain_live_def put_ht_def by fastforce
  qed simp
  then show ?thesis
    using s(1) l by (auto simp: bucket_cpy_def intro!: run_post_bind elim: run_post_mono)
qed

lemma cpy_bins_built:
  assumes "tables s a = Some t" "tables s a1 = Some t1" "a \<noteq> a1" "built t1 es" "ht_ok t"
    and "distinct bs" "\<forall>b \<in> set bs. b < num_buckets t \<and> chain_lock (table t ! b) = LOCK_FREE"
    and "\<forall>b \<in> set bs. fst ` set (chain_live (table t ! b)) \<inter> fst ` set es = {}"
    and "length es + sum_list (map (\<lambda>b. length (chain_live (table t ! b))) bs) < 2 ^ 32"
  shows "run_post (copied a a1 s t t1 (es @ concat (map (\<lambda>b. chain_live (table t ! b)) bs))) (oom s)
    (cpy_bins bs s a a1)"
  using assms
proof (induction bs arbitrary: s t t1 es)
  case Nil
  then show ?case
    by (auto simp: copied_def map_upd_triv intro!: exI[of _ t] exI[of _ "table t1"] exI[of _ "num_expands t1"] exI[of _ "nalloc s"])
next
  case (Cons b bs)
  let ?es = "es @ chain_live (table t ! b)" and ?t = "set_chain b (set_chain_lock LOCK_RESIZE (table t ! b)) t"
  let ?all = "es @ concat (map (\<lambda>b. chain_live (table t ! b)) (b # bs))"
  have b: "b < num_buckets t" "chain_lock (table t ! b) = LOCK_FREE" "b \<notin> set bs" using Cons.prems by auto
  have other: "table ?t ! i = table t ! i" if "i \<in> set bs" for i
    using that b(3) by (cases "i = b") (auto simp: table_set_chain)
  have "run_post (copied a a1 s t t1 ?all) (oom s)
    (bind_run (bucket_cpy s a b a1) (\<lambda>(r, s). if r = 0 then Ret s else cpy_bins bs s a a1))"
  proof (rule run_post_bind[OF bucket_cpy_built[OF Cons.prems(1-4) b(2)]])
    show "distinct (map fst (chain_live (table t ! b)))" using ht_okD(6)[OF Cons.prems(5) b(1)] .
    show "fst ` set (chain_live (table t ! b)) \<inter> fst ` set es = {}" using Cons.prems(8) by simp
    show "length es + length (chain_live (table t ! b)) < 2 ^ 32" using Cons.prems(9) by simp
  next
    fix r :: "int \<times> clht_mem"
    assume r: "case r of (r, s') \<Rightarrow> r = 1 \<and> copied a a1 s t t1 ?es s' \<and> tables s' a = Some ?t"
    then obtain s' x e m where s': "r = (1, s')" "nalloc s \<le> m" "built (t1\<lparr>table := x, num_expands := e\<rparr>) ?es"
      "s' = s\<lparr>tables := (tables s)(a \<mapsto> ?t, a1 \<mapsto> t1\<lparr>table := x, num_expands := e\<rparr>), nalloc := m\<rparr>"
      using Cons.prems(3) by (auto simp: copied_def)
    have "run_post (copied a a1 s' ?t (t1\<lparr>table := x, num_expands := e\<rparr>)
        (?es @ concat (map (\<lambda>b. chain_live (table ?t ! b)) bs))) (oom s') (cpy_bins bs s' a a1)"
    proof (rule Cons.IH)
      show "ht_ok ?t" using Cons.prems(5) b(1) by (rule ht_relock)
      show "\<forall>i \<in> set bs. i < num_buckets ?t \<and> chain_lock (table ?t ! i) = LOCK_FREE"
        using Cons.prems(7) other by simp
      show "\<forall>i \<in> set bs. fst ` set (chain_live (table ?t ! i)) \<inter> fst ` set ?es = {}"
      proof
        fix i assume i: "i \<in> set bs"
        then have "i < num_buckets t" "i \<noteq> b" using Cons.prems(7) b(3) by auto
        then show "fst ` set (chain_live (table ?t ! i)) \<inter> fst ` set ?es = {}"
          using Cons.prems(8) i other[OF i] bin_entries_disjoint[OF Cons.prems(5) _ b(1), of i]
          by (simp add: image_Un Int_Un_distrib)
      qed
      have eq: "map (\<lambda>i. length (chain_live (table ?t ! i))) bs = map (\<lambda>i. length (chain_live (table t ! i))) bs"
        using other by simp
      show "length ?es + sum_list (map (\<lambda>i. length (chain_live (table ?t ! i))) bs) < 2 ^ 32"
        unfolding eq using Cons.prems(9) by simp
    qed (use s' Cons.prems in auto)
    moreover have "map (\<lambda>i. chain_live (table ?t ! i)) bs = map (\<lambda>i. chain_live (table t ! i)) bs"
      using other by simp
    ultimately have "run_post (copied a a1 s' ?t (t1\<lparr>table := x, num_expands := e\<rparr>) ?all) (oom s') (cpy_bins bs s' a a1)"
      by (simp only: list.map concat.simps append_assoc)
    then have "run_post (copied a a1 s t t1 ?all) (oom s) (cpy_bins bs s' a a1)"
    proof (rule run_post_mono)
      show "oom s" if "oom s'" using that s'(2,4) by (auto intro: order_trans)
    next
      fix s'' assume "copied a a1 s' ?t (t1\<lparr>table := x, num_expands := e\<rparr>) ?all s''"
      then obtain t' x' e' m' where q: "m \<le> m'" "locks_only ?t t'" "built (t1\<lparr>table := x', num_expands := e'\<rparr>) ?all"
        "s'' = s\<lparr>tables := (tables s)(a \<mapsto> t', a1 \<mapsto> t1\<lparr>table := x', num_expands := e'\<rparr>), nalloc := m'\<rparr>"
        using s'(4) Cons.prems(3) by (auto simp: copied_def fun_upd_twist)
      show "copied a a1 s t t1 ?all s''"
        unfolding copied_def
        using order_trans[OF s'(2) q(1)] locks_only_trans[OF locks_only_set q(2)] q(3,4) by blast
    qed
    then show "run_post (copied a a1 s t t1 ?all) (oom s)
        (case r of (r, s) \<Rightarrow> if r = 0 then Ret s else cpy_bins bs s a a1)"
      using s'(1) by simp
  qed
  then show ?case by simp
qed

end
