(* ===== verification/ClhtOps.thy ===== *)
theory ClhtOps
  imports ClhtResize
begin

text \<open>
  The invariant of the hash table between operations, \<open>clht_ok B s t\<close>: \<open>t\<close> is the table \<^verbatim>\<open>h->ht\<close>
  points to, it is well formed with all locks free and a power of two of at most \<open>B\<close> buckets, and
  what has been handed to \<^verbatim>\<open>ssmem_release\<close> was handed over once and is not the current table.
  Every operation keeps it and acts on \<open>ht_map\<close> as the operation of a map, unless a call of
  \<^verbatim>\<open>memalign\<close> fails.
\<close>

primrec obj_table :: "clht_obj \<Rightarrow> nat" where
  "obj_table (OBucket a bin d) = a"
| "obj_table (OTable a) = a"
| "obj_table (OHeader a) = a"

definition released_ok :: "clht_mem \<Rightarrow> bool" where
  "released_ok s \<longleftrightarrow> distinct (released s)
     \<and> (\<forall>x \<in> set (released s). obj_table x < nalloc s \<and> obj_table x \<noteq> ht (clht s))"

definition clht_ok :: "nat \<Rightarrow> clht_mem \<Rightarrow> clht_hashtable_t \<Rightarrow> bool" where
  "clht_ok B s t \<longleftrightarrow> tables s (ht (clht s)) = Some t \<and> ht_ok t \<and> ht_unlocked t \<and> is_helper t = 1
     \<and> (\<exists>k. num_buckets t = 2 ^ k) \<and> num_buckets t \<le> B \<and> B < 2 ^ 32 \<and> resize_lock (clht s) = 0
     \<and> (\<forall>a \<ge> nalloc s. tables s a = None) \<and> released_ok s"

text \<open>The operation changed the allocator's state only by allocating.\<close>

definition later :: "clht_mem \<Rightarrow> clht_mem \<Rightarrow> bool" where
  "later s s' \<longleftrightarrow> fails s' = fails s \<and> nalloc s \<le> nalloc s'"

lemma later_refl [simp]: "later s s"
  by (simp add: later_def)

lemma later_trans: "later s s' \<Longrightarrow> later s' s'' \<Longrightarrow> later s s''"
  by (simp add: later_def)

lemma later_oom: "later s s' \<Longrightarrow> oom s' \<Longrightarrow> oom s"
  by (auto simp: later_def intro: order_trans)

section \<open>A new table\<close>

lemma slots_empty_bucket: "chain_live [empty_bucket] = []"
  by (simp add: chain_live_def chain_slots_Cons empty_bucket_def ENTRIES_3 upt_rec live_Cons)

lemma create_post:
  assumes n: "0 < n" "n < 2 ^ 32"
  shows "run_post (\<lambda>(h, s'). case h of
      None \<Rightarrow> oom s
    | Some a \<Rightarrow> \<exists>t. a = nalloc s \<and> built t [] \<and> num_buckets t = n \<and> is_helper t = 1
        \<and> num_expands_threshold t = word_of_nat n \<and> table_new t = None \<and> ht_version t = 0
        \<and> s' = s\<lparr>tables := (tables s)(a \<mapsto> t), nalloc := Suc (Suc (nalloc s))\<rparr>) E
    (clht_hashtable_create s n)"
proof -
  let ?t = "\<lparr>num_buckets = n, table = replicate n [empty_bucket], hash = word_of_nat n - 1,
                 ht_version = 0, table_tmp = None, table_prev = None, table_new = None, num_expands = 0,
                 num_expands_threshold = word_of_nat n, is_helper = 1, helper_done = 0\<rparr>"
  have ok: "ht_ok ?t"
    using n by (auto simp: ht_ok_def SIZEOF_BUCKET_def chain_ok_def bucket_ok_def empty_bucket_def hashes_to_def
        slots_empty_bucket[unfolded empty_bucket_def])
  have m: "ht_map ?t k = None" for k
    using hash_less[OF ok, of k] by (simp add: ht_map_def chain_of_def slots_empty_bucket)
  have "built ?t []"
    using ok m by (auto simp: built_def packed_def expansions_def ht_unlocked_def chain_lock_def empty_bucket_def
        sum_list_replicate)
  moreover have "(word_of_nat n :: u32) \<noteq> 0" using n by (auto simp: word_of_nat_eq_0_iff dest: nat_dvd_not_less)
  moreover have "n * SIZEOF_BUCKET < 2 ^ 64" using n by (simp add: SIZEOF_BUCKET_def)
  ultimately show ?thesis
    using n(1)
    by (auto simp: clht_hashtable_create_def memalign_def put_ht_def CLHT_PERC_EXPANSIONS_def Let_def
        intro: exI[of _ "Suc (nalloc s)"])
qed

section \<open>Releasing the old table\<close>

lemma release_list_table: "x \<in> set (release_list a t) \<Longrightarrow> obj_table x = a"
  by (auto simp: release_list_def)

lemma distinct_release_list: "distinct (release_list a t)"
proof -
  have "distinct (concat (map (\<lambda>bin. map (OBucket a bin) [1..<length (table t ! bin)]) [0..<n]))" for n
  proof (induction n)
    case (Suc n)
    then show ?case by (auto simp: distinct_map inj_on_def)
  qed simp
  then show ?thesis by (auto simp: release_list_def)
qed

lemma released_ok_retire:
  assumes "released_ok s" "ht (clht s) < nalloc s" "a' \<noteq> ht (clht s)"
    and "\<forall>x \<in> set (released s). obj_table x \<noteq> a'" "nalloc s \<le> nalloc s'"
    and "released s' = released s @ release_list (ht (clht s)) t" "ht (clht s') = a'"
  shows "released_ok s'"
  using assms distinct_release_list[of "ht (clht s)" t] release_list_table[of _ "ht (clht s)" t]
  unfolding released_ok_def by (force simp: disjoint_iff)

section \<open>Resizing\<close>

lemma ht_live_concat: "ht_ok t \<Longrightarrow> concat (map (\<lambda>b. chain_live (table t ! b)) [0..<num_buckets t]) = ht_live t"
  unfolding ht_live_def
  by (rule arg_cong[where f = concat]) (simp add: list_eq_iff_nth_eq ht_okD)

lemma ht_fields_cong:
  assumes "num_buckets t' = num_buckets t" "table t' = table t" "hash t' = hash t"
  shows "ht_ok t' = ht_ok t" "ht_map t' = ht_map t" "ht_unlocked t' = ht_unlocked t" "clht_size t' = clht_size t"
  using assms
  by (simp_all add: ht_ok_def ht_map_def ht_unlocked_def hashes_to_def clht_hash_def chain_of_def clht_size_def fun_eq_iff)

lemma built_cong:
  assumes "num_buckets t' = num_buckets t" "table t' = table t" "hash t' = hash t" "num_expands t' = num_expands t"
  shows "built t' es = built t es"
  using assms by (simp add: built_def ht_fields_cong[OF assms(1-3)])

lemma built_facts: "built t es \<Longrightarrow> ht_ok t" "built t es \<Longrightarrow> ht_unlocked t" "built t es \<Longrightarrow> ht_map t = map_of es"
  by (auto simp: built_def)

definition resized :: "nat \<Rightarrow> clht_mem \<Rightarrow> clht_hashtable_t \<Rightarrow> nat \<Rightarrow> bool option \<Rightarrow> clht_mem \<Rightarrow> bool" where
  "resized B s t n r s' \<longleftrightarrow> (\<exists>t1. clht_ok B s' t1 \<and> built t1 (ht_live t) \<and> num_buckets t1 = n
     \<and> r = Some (word_of_nat n \<le> num_expands t1) \<and> later s s' \<and> status_lock (clht s') = status_lock (clht s))"

text \<open>After the copy: linking the tables, the swap of the root pointer, the release.\<close>

lemma resize_swap_post:
  assumes ok: "clht_ok B s t" and a: "a = ht (clht s)" "a1 = nalloc s"
    and n: "num_buckets t1 = n" "n \<le> B" "\<exists>k. n = 2 ^ k" and t1: "is_helper t1 = 1" "num_expands_threshold t1 = word_of_nat n"
    and b: "built t1 (ht_live t)" and m: "nalloc s < m" and T: "T = (tables s)(a \<mapsto> t', a1 \<mapsto> t1)"
    and s1: "s1 = s\<lparr>check_ht_status_steps := c, clht := (clht s)\<lparr>resize_lock := 255\<rparr>, tables := T, nalloc := m\<rparr>"
  shows "run_post (\<lambda>(r, s'). resized B s t n r s') E (ht_resize_swap s1 a a1)"
proof -
  let ?t1 = "t1\<lparr>table_prev := Some a\<rparr>" and ?t' = "t'\<lparr>table_new := Some a1\<rparr>"
  let ?s = "s\<lparr>check_ht_status_steps := c,
      tables := (tables s)(a \<mapsto> ?t', a1 \<mapsto> ?t1), nalloc := m,
      clht := (clht s)\<lparr>ht := a1, resize_lock := LOCK_FREE\<rparr>, released := released s @ release_list a ?t'\<rparr>"
  have h: "tables s a = Some t" "\<forall>x \<ge> nalloc s. tables s x = None" "released_ok s" "B < 2 ^ 32"
    using ok by (auto simp: clht_ok_def a(1))
  then have lt: "a < nalloc s" by (metis not_le option.distinct(1))
  have rel: "released_ok ?s"
  proof (rule released_ok_retire[OF h(3)])
    show "\<forall>x \<in> set (released s). obj_table x \<noteq> a1" using h(3) a(2) by (auto simp: released_ok_def)
  qed (use lt a m in auto)
  have "built ?t1 (ht_live t)" using b by (simp add: built_cong[of ?t1 t1])
  moreover have "clht_ok B ?s ?t1"
    using calculation n t1 rel h m lt a unfolding clht_ok_def
    by (auto simp: LOCK_FREE_def dest: built_facts)
  ultimately have "resized B s t n (Some (num_expands_threshold t1 \<le> num_expands t1)) ?s"
    using n t1 m by (auto simp: resized_def later_def intro!: exI[of _ ?t1])
  then show ?thesis
    using lt a by (simp add: s1 T ht_resize_swap_def clht_gc_release_def put_ht_def fun_upd_twist Let_def)
qed

lemma resize_copy_post:
  assumes ok: "clht_ok B s t" and sz: "clht_size t < 2 ^ 32" and a: "a = ht (clht s)" "a1 = nalloc s"
    and n: "num_buckets t1 = n" "n \<le> B" "\<exists>k. n = 2 ^ k" and t1: "is_helper t1 = 1" "num_expands_threshold t1 = word_of_nat n"
    and b: "built t1 []" and m: "nalloc s < m"
    and t: "t' = (if inc then t else t\<lparr>is_helper := 0\<rparr>)"
    and s1: "s1 = s\<lparr>check_ht_status_steps := c, clht := (clht s)\<lparr>resize_lock := 255\<rparr>,
               tables := (tables s)(a \<mapsto> t', a1 \<mapsto> t1), nalloc := m\<rparr>"
  shows "run_post (\<lambda>(r, s'). resized B s t n r s') (oom s) (ht_resize_copy s1 a a1 inc)"
proof -
  let ?t1 = "t1\<lparr>ht_version := ht_version t' + 1\<rparr>" and ?t = "t'\<lparr>table_tmp := Some a1\<rparr>"
  let ?s = "put_ht a ?t (put_ht a1 ?t1 s1)"
  have h: "tables s a = Some t" "\<forall>x \<ge> nalloc s. tables s x = None" "ht_ok t" "ht_unlocked t" "is_helper t = 1"
    using ok by (auto simp: clht_ok_def a(1))
  then have ne: "a \<noteq> a1" using a(2) by (metis option.distinct(1) order_refl)
  have eq: "num_buckets ?t = num_buckets t" "table ?t = table t" "hash ?t = hash t" by (simp_all add: t)
  have b': "built ?t1 []" using b by (simp add: built_cong[of ?t1 t1])
  have cpy: "run_post (copied a a1 ?s ?t ?t1 ([] @ concat (map (\<lambda>b. chain_live (table ?t ! b)) [0..<num_buckets ?t])))
      (oom ?s) (cpy_bins [0..<num_buckets ?t] ?s a a1)"
  proof (rule cpy_bins_built)
    show "\<forall>b \<in> set [0..<num_buckets ?t]. b < num_buckets ?t \<and> chain_lock (table ?t ! b) = LOCK_FREE"
      using h(4) by (simp add: eq ht_unlocked_def)
    have "sum_list (map (\<lambda>b. length (chain_live (table t ! b))) [0..<num_buckets t]) = clht_size t"
      by (simp add: clht_size_def chain_size_live)
    then show "length ([] :: (u64 \<times> u64) list) + sum_list (map (\<lambda>b. length (chain_live (table ?t ! b))) [0..<num_buckets ?t]) < 2 ^ 32"
      using sz by (simp add: eq)
  qed (use ne b' h(3) in \<open>auto simp: ht_fields_cong(1)[OF eq]\<close>)
  have "run_post (\<lambda>(r, s'). resized B s t n r s') (oom s)
    (bind_run (cpy_bins [0..<num_buckets ?t] ?s a a1) (\<lambda>s. bind_run (get_ht s a) (\<lambda>old.
       if inc \<and> is_helper old \<noteq> 1 \<and> helper_done old \<noteq> 1 then OutOfFuel else ht_resize_swap s a a1)))"
  proof (rule run_post_bind[OF run_post_mono[OF cpy]])
    show "oom s" if "oom ?s" using that m by (auto simp: s1 intro: order_trans less_imp_le)
  next
    fix s2 assume "copied a a1 ?s ?t ?t1 ([] @ concat (map (\<lambda>b. chain_live (table ?t ! b)) [0..<num_buckets ?t])) s2"
    then obtain t2 x e m' where x: "m \<le> m'" "locks_only ?t t2" "built (?t1\<lparr>table := x, num_expands := e\<rparr>) (ht_live t)"
      "s2 = s\<lparr>check_ht_status_steps := c, clht := (clht s)\<lparr>resize_lock := 255\<rparr>,
          tables := (tables s)(a \<mapsto> t2, a1 \<mapsto> ?t1\<lparr>table := x, num_expands := e\<rparr>), nalloc := m'\<rparr>"
      using ne ht_live_concat[OF h(3)] by (auto simp: copied_def s1 put_ht_def eq fun_upd_twist)
    have "run_post (\<lambda>(r, s'). resized B s t n r s') (oom s) (ht_resize_swap s2 a a1)"
      by (rule resize_swap_post[OF ok a _ n(2,3) _ _ x(3) _ refl x(4)]) (use n t1 m x(1) in auto)
    moreover have "inc \<Longrightarrow> is_helper t2 = 1" using x(2) h(5) by (auto simp: locks_only_def t)
    ultimately show "run_post (\<lambda>(r, s'). resized B s t n r s') (oom s) (bind_run (get_ht s2 a) (\<lambda>old.
       if inc \<and> is_helper old \<noteq> 1 \<and> helper_done old \<noteq> 1 then OutOfFuel else ht_resize_swap s2 a a1))"
      using x(4) ne by auto
  qed
  then show ?thesis
    using ne by (simp add: ht_resize_copy_def s1 Let_def)
qed

lemma resize_body_post:
  assumes ok: "clht_ok B s t" and sz: "clht_size t < 2 ^ 32"
    and n: "n = (if inc then (by * num_buckets t) mod 2 ^ 64 else num_buckets t div CLHT_RATIO_HALVE)"
    and nB: "0 < n" "n \<le> B" "\<exists>k. n = 2 ^ k"
  shows "run_post (\<lambda>(r, s'). resized B s t n r s') (oom s) (ht_resize_body s inc by)"
proof -
  let ?a = "ht (clht s)" and ?a1 = "nalloc s"
  let ?s1 = "s\<lparr>check_ht_status_steps := CLHT_STATUS_INVOK, clht := (clht s)\<lparr>resize_lock := 255\<rparr>\<rparr>"
  let ?t = "if inc then t else t\<lparr>is_helper := 0\<rparr>"
  let ?s2 = "if inc then ?s1 else put_ht ?a (t\<lparr>is_helper := 0\<rparr>) ?s1"
  have h: "tables s ?a = Some t" "resize_lock (clht s) = 0" "B < 2 ^ 32"
    using ok by (auto simp: clht_ok_def)
  have s2: "?s2\<lparr>tables := (tables ?s2)(x \<mapsto> y), nalloc := m\<rparr> = s\<lparr>check_ht_status_steps := CLHT_STATUS_INVOK,
      clht := (clht s)\<lparr>resize_lock := 255\<rparr>, tables := (tables s)(?a \<mapsto> ?t, x \<mapsto> y), nalloc := m\<rparr>"
    "nalloc ?s2 = nalloc s" "fails ?s2 = fails s" for x y m
    using h(1) by (auto simp: put_ht_def map_upd_triv)
  have "n < 2 ^ 32" using nB(2) h(3) by simp
  note create = create_post[OF nB(1) this, of ?s2 "oom s"]
  have "run_post (\<lambda>(r, s'). resized B s t n r s') (oom s)
    (bind_run (clht_hashtable_create ?s2 n)
      (\<lambda>(h, s). case h of None \<Rightarrow> Abort ''NULL table'' | Some a_new \<Rightarrow> ht_resize_copy s ?a a_new inc))"
  proof (rule run_post_bind[OF create], clarify)
    fix hd s3
    assume P: "case hd of None \<Rightarrow> oom ?s2
      | Some a \<Rightarrow> \<exists>t. a = nalloc ?s2 \<and> built t [] \<and> num_buckets t = n \<and> is_helper t = 1
          \<and> num_expands_threshold t = word_of_nat n \<and> table_new t = None \<and> ht_version t = 0
          \<and> s3 = ?s2\<lparr>tables := (tables ?s2)(a \<mapsto> t), nalloc := Suc (Suc (nalloc ?s2))\<rparr>"
    show "run_post (\<lambda>(r, s'). resized B s t n r s') (oom s)
      (case hd of None \<Rightarrow> Abort ''NULL table'' | Some a_new \<Rightarrow> ht_resize_copy s3 ?a a_new inc)"
    proof (cases hd)
      case None
      then show ?thesis using P by (simp add: s2(2,3))
    next
      case (Some a1)
      then obtain t1 where t1: "a1 = nalloc s" "built t1 []" "num_buckets t1 = n" "is_helper t1 = 1"
        "num_expands_threshold t1 = word_of_nat n" "s3 = ?s2\<lparr>tables := (tables ?s2)(a1 \<mapsto> t1), nalloc := Suc (Suc (nalloc s))\<rparr>"
        using P by (auto simp: s2(2))
      have "run_post (\<lambda>(r, s'). resized B s t n r s') (oom s) (ht_resize_copy s3 ?a a1 inc)"
        by (rule resize_copy_post[OF ok sz refl t1(1) t1(3) nB(2,3) t1(4,5,2) _ refl t1(6)[unfolded s2(1)]]) simp
      then show ?thesis using Some by simp
    qed
  qed
  then show ?thesis
    using h n by (cases inc) (simp_all add: ht_resize_body_def Let_def cong: option.case_cong)
qed

section \<open>The recursion between resize and status\<close>

definition status_post :: "nat \<Rightarrow> clht_mem \<Rightarrow> clht_hashtable_t \<Rightarrow> nat \<times> clht_mem \<Rightarrow> bool" where
  "status_post B s t r \<longleftrightarrow> (\<exists>t'. clht_ok B (snd r) t' \<and> status_lock (clht (snd r)) = 0
     \<and> ht_map t' = ht_map t \<and> later s (snd r))"

text \<open>A table that was just built and is crowded again holds more than three entries per bin.\<close>

lemma crowded_again:
  assumes b: "built t1 es" and n: "num_buckets t1 = n" "n < 2 ^ 32" and c: "word_of_nat n \<le> num_expands t1"
  shows "3 * n < length es"
proof -
  have "unat (word_of_nat n :: u32) = n" using n(2) by (simp add: unat_of_nat)
  then have "n \<le> unat (num_expands t1)" using c by (simp add: word_le_nat_alt)
  moreover have "0 < n" using b n(1) by (auto simp: built_def ht_ok_def)
  ultimately show ?thesis using built_crowded(2)[OF b] by simp
qed

lemma pow2_div8: "\<exists>k. n = (2::nat) ^ k \<Longrightarrow> 8 \<le> n \<Longrightarrow> \<exists>k. n div 8 = 2 ^ k"
proof -
  assume "\<exists>k. n = (2::nat) ^ k" "8 \<le> n"
  then obtain k where k: "n = 2 ^ k" "2 ^ 3 \<le> (2::nat) ^ k" by auto
  have "3 \<le> k" by (rule power_le_imp_le_exp[OF _ k(2)]) simp
  then have "n = 2 ^ (k - 3) * 2 ^ 3" unfolding k(1) power_add[symmetric] by simp
  then have "n div 8 = 2 ^ (k - 3)" by simp
  then show ?thesis by blast
qed

text \<open>The number of buckets a status call chooses, on a table that holds something.\<close>

lemma shrink_size:
  assumes "\<exists>k. n = (2::nat) ^ k" "0 < sz" "100 * sz < CLHT_PERC_FULL_HALVE * (n * ENTRIES_PER_BUCKET)"
  shows "0 < n div CLHT_RATIO_HALVE" "n div CLHT_RATIO_HALVE \<le> n" "\<exists>k. n div CLHT_RATIO_HALVE = 2 ^ k"
proof -
  obtain k where k: "n = 2 ^ k" using assms(1) by blast
  have "7 \<le> n" using assms(2,3) by (simp add: CLHT_PERC_FULL_HALVE_def ENTRIES_PER_BUCKET_def)
  moreover have "n \<noteq> 7"
  proof
    assume "n = 7"
    then have "odd n" by simp
    then have "k = 0" using k by (cases k) auto
    then show False using k \<open>n = 7\<close> by simp
  qed
  ultimately have "8 \<le> n" by simp
  then show "0 < n div CLHT_RATIO_HALVE" "n div CLHT_RATIO_HALVE \<le> n" "\<exists>k. n div CLHT_RATIO_HALVE = 2 ^ k"
    using pow2_div8[OF assms(1)] by (auto simp: CLHT_RATIO_HALVE_def)
qed

lemma grow_size:
  assumes p: "\<exists>k. n = (2::nat) ^ k" and B: "14 * sz \<le> B" "B < 2 ^ 32" and "0 < n"
    and big: "\<not> 100 * sz < CLHT_PERC_FULL_HALVE * (n * ENTRIES_PER_BUCKET)"
  defines "n' \<equiv> (inc_by_pow2 sz n * n) mod 2 ^ 64"
  shows "0 < n'" "n' \<le> B" "\<exists>k. n' = 2 ^ k" "2 * n \<le> n'"
proof -
  have sz: "sz < 2 ^ 32" using B by simp
  note q = inc_by_pow2_bounds[OF \<open>0 < n\<close> sz]
  have "15 * n \<le> 100 * sz" using big by (simp add: CLHT_PERC_FULL_HALVE_def ENTRIES_PER_BUCKET_def)
  then have le: "inc_by_pow2 sz n * n \<le> B" using q(3) B(1) by linarith
  then have eq: "n' = inc_by_pow2 sz n * n" using B(2) by (simp add: n'_def)
  show "n' \<le> B" using le eq by simp
  show "2 * n \<le> n'" using q(1) eq by simp
  then show "0 < n'" using \<open>0 < n\<close> by simp
  obtain i j where "inc_by_pow2 sz n = 2 ^ i" "n = 2 ^ j" using q(2) p by blast
  then have "n' = 2 ^ (i + j)" using eq by (simp add: power_add)
  then show "\<exists>k. n' = 2 ^ k" by blast
qed

lemma resize_pes_post:
  assumes ok: "clht_ok B s t" and sz: "clht_size t < 2 ^ 32"
    and n: "n = (if inc then (by * num_buckets t) mod 2 ^ 64 else num_buckets t div CLHT_RATIO_HALVE)"
    and nB: "0 < n" "n \<le> B" "\<exists>k. n = 2 ^ k"
    and st: "\<And>s' t'. clht_ok B s' t' \<Longrightarrow> ht_map t' = ht_map t \<Longrightarrow> num_buckets t' = n \<Longrightarrow> 3 * n < clht_size t' \<Longrightarrow>
       run_post (status_post B s' t') (oom s') (status s')"
  shows "run_post (\<lambda>(_, s'). \<exists>t'. clht_ok B s' t' \<and> ht_map t' = ht_map t \<and> later s s') (oom s)
    (ht_resize_pes status s inc by)"
  unfolding ht_resize_pes_def
proof (rule run_post_bind[OF resize_body_post[OF ok sz n nB]], clarify)
  fix r s' assume "resized B s t n r s'"
  then obtain t1 where t1: "clht_ok B s' t1" "built t1 (ht_live t)" "num_buckets t1 = n"
    "r = Some (word_of_nat n \<le> num_expands t1)" "later s s'"
    by (auto simp: resized_def)
  have t: "ht_ok t" "B < 2 ^ 32" using ok by (auto simp: clht_ok_def)
  have map: "ht_map t1 = ht_map t" using built_facts(3)[OF t1(2)] ht_map_ht_live[OF t(1)] by simp
  show "run_post (\<lambda>(_, s'). \<exists>t'. clht_ok B s' t' \<and> ht_map t' = ht_map t \<and> later s s') (oom s)
    (case r of None \<Rightarrow> Ret (0 :: int, s')
     | Some again \<Rightarrow> if again then bind_run (status s') (\<lambda>(_, s). Ret (1, s)) else Ret (1, s'))"
  proof (cases "(word_of_nat n :: u32) \<le> num_expands t1")
    case True
    have "n < 2 ^ 32" using nB(2) t(2) by simp
    then have "3 * n < clht_size t1" using crowded_again[OF t1(2,3) _ True] built_size[OF t1(2)] by simp
    then have "run_post (status_post B s' t1) (oom s') (status s')" by (rule st[OF t1(1) map t1(3)])
    then have "run_post (status_post B s' t1) (oom s) (status s')"
      by (rule run_post_mono) (simp, rule later_oom[OF t1(5)])
    then have "run_post (\<lambda>(_, s'). \<exists>t'. clht_ok B s' t' \<and> ht_map t' = ht_map t \<and> later s s') (oom s)
        (bind_run (status s') (\<lambda>(_, s). Ret (1 :: int, s)))"
    proof (rule run_post_bind, clarify)
      fix z s'' assume "status_post B s' t1 (z, s'')"
      then show "run_post (\<lambda>(_, s'). \<exists>t'. clht_ok B s' t' \<and> ht_map t' = ht_map t \<and> later s s') (oom s) (Ret (1 :: int, s''))"
        using map t1(5) by (auto simp: status_post_def intro: later_trans)
    qed
    then show ?thesis using True t1(4) by simp
  next
    case False
    then show ?thesis using t1 map by auto
  qed
qed

lemma status_release:
  assumes "clht_ok B s t"
  shows "clht_ok B (s\<lparr>clht := (clht s)\<lparr>status_lock := l\<rparr>\<rparr>) t"
  using assms by (simp add: clht_ok_def released_ok_def)

lemma status_unlock:
  assumes "run_post (\<lambda>(_, s'). \<exists>t'. clht_ok B s' t' \<and> ht_map t' = ht_map t \<and> later s s') E r"
  shows "run_post (status_post B s t) E
    (bind_run (bind_run r (\<lambda>(_, s). Ret s)) (\<lambda>s. Ret (z, s\<lparr>clht := (clht s)\<lparr>status_lock := LOCK_FREE\<rparr>\<rparr>)))"
proof (cases r)
  case (Ret x)
  then obtain y s' t' where x: "x = (y, s')" "clht_ok B s' t'" "ht_map t' = ht_map t" "later s s'"
    using assms by (cases x) auto
  have "status_post B s t (z, s'\<lparr>clht := (clht s')\<lparr>status_lock := LOCK_FREE\<rparr>\<rparr>)"
    unfolding status_post_def using x(3,4) status_release[OF x(2), of LOCK_FREE]
    by (intro exI[of _ t']) (simp add: later_def LOCK_FREE_def)
  then show ?thesis using Ret x(1) by simp
qed (use assms in auto)

lemma status_step:
  assumes ok: "clht_ok B s t" and sz: "0 < clht_size t" "14 * clht_size t \<le> B"
    and st: "\<And>s' t'. clht_ok B s' t' \<Longrightarrow> ht_map t' = ht_map t \<Longrightarrow> 3 * num_buckets t' < clht_size t' \<Longrightarrow>
       (3 * num_buckets t < clht_size t \<Longrightarrow> 2 * num_buckets t \<le> num_buckets t') \<Longrightarrow>
       run_post (status_post B s' t') (oom s') (ht_status fuel s' True False)"
  shows "run_post (status_post B s t) (oom s) (ht_status (Suc fuel) s True False)"
proof -
  let ?s = "s\<lparr>clht := (clht s)\<lparr>status_lock := 255\<rparr>\<rparr>" and ?n = "num_buckets t" and ?z = "clht_size t"
  let ?half = "100 * ?z < CLHT_PERC_FULL_HALVE * (?n * ENTRIES_PER_BUCKET)"
  let ?by = "if ?half then 33 else inc_by_pow2 ?z ?n"
  let ?m = "if \<not> ?half then (?by * ?n) mod 2 ^ 64 else ?n div CLHT_RATIO_HALVE"
  have t: "tables s (ht (clht s)) = Some t" "ht_ok t" "\<exists>k. ?n = 2 ^ k" "?n \<le> B" "B < 2 ^ 32"
    using ok by (auto simp: clht_ok_def)
  have pos: "0 < ?n" using t(2) by (simp add: ht_ok_def)
  have m: "0 < ?m" "?m \<le> B" "\<exists>k. ?m = 2 ^ k"
  proof -
    show "0 < ?m" "\<exists>k. ?m = 2 ^ k"
      using shrink_size(1,3)[OF t(3) sz(1)] grow_size(1,3)[OF t(3) sz(2) t(5) pos] by auto
    show "?m \<le> B"
      using order_trans[OF shrink_size(2)[OF t(3) sz(1)] t(4)] grow_size(2)[OF t(3) sz(2) t(5) pos] by simp
  qed
  have grow: "2 * ?n \<le> ?m" if "3 * ?n < ?z"
    using grow_size(4)[OF t(3) sz(2) t(5) pos] that
    by (simp add: CLHT_PERC_FULL_HALVE_def ENTRIES_PER_BUCKET_def)
  have small: "?z < 2 ^ 32" using sz(2) t(5) by simp
  have "run_post (\<lambda>(_, s'). \<exists>t'. clht_ok B s' t' \<and> ht_map t' = ht_map t \<and> later ?s s') (oom ?s)
      (ht_resize_pes (\<lambda>s. ht_status fuel s True False) ?s (\<not> ?half) ?by)"
    using st grow by (intro resize_pes_post[OF status_release[OF ok] small refl m]) auto
  then have "run_post (\<lambda>(_, s'). \<exists>t'. clht_ok B s' t' \<and> ht_map t' = ht_map t \<and> later s s') (oom s)
      (ht_resize_pes (\<lambda>s. ht_status fuel s True False) ?s (\<not> ?half) ?by)"
    by (rule run_post_mono) (auto simp: later_def)
  note status_unlock[OF this, of ?z]
  then show ?thesis using t(1) sz(1) by (cases ?half) (simp_all add: Let_def)
qed

lemma status_crowded:
  assumes "clht_ok B s t" "3 * num_buckets t < clht_size t" "14 * clht_size t \<le> B"
    and "clht_size t \<le> 3 * num_buckets t * 2 ^ f"
  shows "run_post (status_post B s t) (oom s) (ht_status (Suc f) s True False)"
  using assms
proof (induction f arbitrary: s t)
  case 0
  then show ?case by simp
next
  case (Suc f)
  have sz: "0 < clht_size t" using Suc.prems(2) by simp
  show ?case
  proof (rule status_step[OF Suc.prems(1) sz Suc.prems(3)])
    fix s' t' assume a: "clht_ok B s' t'" "ht_map t' = ht_map t" "3 * num_buckets t' < clht_size t'"
      and two: "3 * num_buckets t < clht_size t \<Longrightarrow> 2 * num_buckets t \<le> num_buckets t'"
    have eq: "clht_size t' = clht_size t"
      using a(1,2) Suc.prems(1) by (simp add: clht_size_card clht_ok_def)
    have "clht_size t \<le> 3 * (2 * num_buckets t) * 2 ^ f" using Suc.prems(4) by simp
    also have "\<dots> \<le> 3 * num_buckets t' * 2 ^ f" using two[OF Suc.prems(2)] by simp
    finally show "run_post (status_post B s' t') (oom s') (ht_status (Suc f) s' True False)"
      using a eq Suc.prems(3) by (intro Suc.IH) auto
  qed
qed

lemma status_total:
  assumes "clht_ok B s t" "0 < clht_size t" "14 * clht_size t \<le> B"
  shows "run_post (status_post B s t) (oom s) (ht_status STATUS_FUEL s True False)"
proof -
  have "STATUS_FUEL = Suc (Suc 62)" by (simp add: STATUS_FUEL_def)
  moreover have "run_post (status_post B s t) (oom s) (ht_status (Suc (Suc 62)) s True False)"
  proof (rule status_step[OF assms])
    fix s' t' assume a: "clht_ok B s' t'" "ht_map t' = ht_map t" "3 * num_buckets t' < clht_size t'"
    have eq: "clht_size t' = clht_size t"
      using a(1,2) assms(1) by (simp add: clht_size_card clht_ok_def)
    have "0 < num_buckets t'" "clht_size t < 2 ^ 32" using a(1) assms by (auto simp: clht_ok_def ht_ok_def)
    then have "clht_size t' \<le> 3 * num_buckets t' * 2 ^ 62" using eq by simp
    then show "run_post (status_post B s' t') (oom s') (ht_status (Suc 62) s' True False)"
      using a assms(3) eq by (intro status_crowded) auto
  qed
  ultimately show ?thesis by simp
qed

section \<open>Insertion and removal\<close>

lemma clht_ok_store:
  assumes ok: "clht_ok B s t" and t': "ht_ok t'" "ht_unlocked t'" "num_buckets t' = num_buckets t" "is_helper t' = is_helper t"
    and m: "nalloc s \<le> m"
  shows "clht_ok B (s\<lparr>tables := (tables s)(ht (clht s) \<mapsto> t'), nalloc := m\<rparr>) t'"
  using assms unfolding clht_ok_def released_ok_def by (auto intro: order.strict_trans2)

lemma clht_ok_bin:
  fixes k :: u64
  assumes "clht_ok B s t"
  defines "bin \<equiv> unat (clht_hash t k)"
  shows "tables s (ht (clht s)) = Some t" "ht_ok t" "ht_unlocked t" "bin < num_buckets t" "bin < length (table t)"
    "chain_ok (table t ! bin)" "chain_lock (table t ! bin) = LOCK_FREE" "chain_of t k = table t ! bin"
proof -
  show t: "tables s (ht (clht s)) = Some t" "ht_ok t" "ht_unlocked t" using assms by (auto simp: clht_ok_def)
  show b: "bin < num_buckets t" unfolding bin_def using t(2) by (rule hash_less)
  then show "bin < length (table t)" "chain_ok (table t ! bin)" "chain_lock (table t ! bin) = LOCK_FREE"
    using ht_okD[OF t(2)] t(3) by (auto simp: ht_unlocked_def)
  show "chain_of t k = table t ! bin" by (simp add: chain_of_def bin_def)
qed

text \<open>The lock of the bucket is taken at the first attempt.\<close>

abbreviation locked :: "u64 \<Rightarrow> clht_hashtable_t \<Rightarrow> clht_hashtable_t" where
  "locked k t \<equiv> set_chain (unat (clht_hash t k)) (set_chain_lock LOCK_UPDATE (table t ! unat (clht_hash t k))) t"

lemma lock_loop_free:
  assumes ok: "clht_ok B s t"
  shows "lock_loop LOCK_TRIES s (ht (clht s)) k = Ret (ht (clht s), put_ht (ht (clht s)) (locked k t) s)"
proof -
  show ?thesis
    using clht_ok_bin(1)[OF ok] clht_ok_bin(7)[OF ok, of k]
    by (simp add: LOCK_TRIES_def numeral_2_eq_2 lock_acq_chk_resize_def LOCK_FREE_def LOCK_UPDATE_def LOCK_RESIZE_def Let_def)
qed

lemma set_chain_twice [simp]: "set_chain b c (set_chain b c' t) = set_chain b c t"
  by (simp add: set_chain_def)

lemma nth_set_chain [simp]: "b < length (table t) \<Longrightarrow> table (set_chain b c t) ! b = c"
  by (simp add: table_set_chain)

lemma ht_unlocked_set_chain:
  "ht_unlocked t \<Longrightarrow> length (table t) = num_buckets t \<Longrightarrow> chain_lock c = LOCK_FREE \<Longrightarrow> ht_unlocked (set_chain b c t)"
  unfolding ht_unlocked_def by (metis length_list_update num_buckets_set_chain nth_list_update nth_list_update_neq table_set_chain)

lemma adds_lock [simp]: "adds (set_chain_lock l c) c' k v = adds c c' k v" "adds c (set_chain_lock l c') k v = adds c c' k v"
  by (simp_all add: adds_def chain_live_simps)

text \<open>Unlocking after the chain of the key was replaced.\<close>

lemma unlock_store:
  assumes ok: "clht_ok B s t" and c: "c \<noteq> []"
    and t': "t' = set_chain (unat (clht_hash t k)) (set_chain_lock LOCK_FREE c) (t\<lparr>num_expands := e\<rparr>)"
    and h: "ht_ok (set_chain (unat (clht_hash t k)) (set_chain_lock LOCK_FREE c) t)" and m: "nalloc s \<le> m"
  shows "unlock (ht (clht s)) (unat (clht_hash t k))
      (s\<lparr>tables := (tables s)(ht (clht s) \<mapsto> set_chain (unat (clht_hash t k)) c (t\<lparr>num_expands := e\<rparr>)), nalloc := m\<rparr>)
    = Ret (s\<lparr>tables := (tables s)(ht (clht s) \<mapsto> t'), nalloc := m\<rparr>)" (is ?eq)
    and "clht_ok B (s\<lparr>tables := (tables s)(ht (clht s) \<mapsto> t'), nalloc := m\<rparr>) t'" (is ?ok)
    and "ht_map t' = ht_map (set_chain (unat (clht_hash t k)) c t)" (is ?map)
proof -
  note b = clht_ok_bin(1-3)[OF ok] clht_ok_bin(4-8)[OF ok, of k]
  show ?eq using b(5) by (simp add: unlock_def t' put_ht_def)
  let ?u = "set_chain (unat (clht_hash t k)) (set_chain_lock LOCK_FREE c) t"
  have f: "num_buckets t' = num_buckets ?u" "table t' = table ?u" "hash t' = hash ?u"
    by (simp_all add: t' set_chain_def)
  have u: "ht_unlocked ?u" using b(3) c ht_okD(3)[OF b(2)] by (intro ht_unlocked_set_chain) auto
  show ?ok
    using h u b(4) by (intro clht_ok_store[OF ok _ _ _ _ m]) (simp_all add: ht_fields_cong[OF f] f(1), simp add: t' set_chain_def)
  show ?map
    unfolding ht_fields_cong(2)[OF f]
    by (auto simp: fun_eq_iff ht_map_set_chain[OF b(2,4)] chain_live_simps)
qed

definition put_post :: "nat \<Rightarrow> clht_mem \<Rightarrow> clht_hashtable_t \<Rightarrow> u64 \<Rightarrow> u64 \<Rightarrow> bool \<times> clht_mem \<Rightarrow> bool" where
  "put_post B s t k v r \<longleftrightarrow> fst r = (ht_map t k = None) \<and> later s (snd r) \<and> status_lock (clht (snd r)) = 0
     \<and> (\<exists>t'. clht_ok B (snd r) t' \<and> ht_map t' = (if ht_map t k = None then (ht_map t)(k \<mapsto> v) else ht_map t))"

lemma put_new_chain:
  fixes e :: u32
  assumes ok: "clht_ok B s t" and k: "k \<noteq> 0" "ht_map t k = None"
    and c: "adds (chain_of t k) c k v" "chain_ok c" and m: "nalloc s \<le> m"
  defines "t' \<equiv> set_chain (unat (clht_hash t k)) (set_chain_lock LOCK_FREE c) (t\<lparr>num_expands := e\<rparr>)"
  shows "unlock (ht (clht s)) (unat (clht_hash t k))
      (s\<lparr>tables := (tables s)(ht (clht s) \<mapsto> set_chain (unat (clht_hash t k)) c (t\<lparr>num_expands := e\<rparr>)), nalloc := m\<rparr>)
    = Ret (s\<lparr>tables := (tables s)(ht (clht s) \<mapsto> t'), nalloc := m\<rparr>)" (is ?eq)
    and "clht_ok B (s\<lparr>tables := (tables s)(ht (clht s) \<mapsto> t'), nalloc := m\<rparr>) t'" (is ?ok)
    and "ht_map t' = (ht_map t)(k \<mapsto> v)" (is ?map)
proof -
  note b = clht_ok_bin(1-3)[OF ok] clht_ok_bin(4-8)[OF ok, of k]
  have "ht_ok (set_chain (unat (clht_hash t k)) (set_chain_lock LOCK_FREE c) t)"
    using c by (intro ht_adds(1)[OF b(2) k(2,1)]) auto
  moreover have "c \<noteq> []" using c(2) by (simp add: chain_ok_def)
  ultimately show ?eq ?ok ?map
    using unlock_store[OF ok _ t'_def[THEN meta_eq_to_obj_eq] _ m] ht_adds(2)[OF b(2) k(2,1) c] by auto
qed

lemma put_post_store:
  assumes "clht_ok B (s\<lparr>tables := T, nalloc := m\<rparr>) t'" "ht_map t' = (ht_map t)(k \<mapsto> v)" "ht_map t k = None"
    "status_lock (clht s) = 0" "nalloc s \<le> m"
  shows "put_post B s t k v (True, s\<lparr>tables := T, nalloc := m\<rparr>)"
  using assms by (auto simp: put_post_def later_def)

text \<open>The two places for a new entry: a free slot of the chain, or a new bucket behind it.\<close>

lemma put_slot:
  fixes v :: u64
  assumes ok: "clht_ok B s t" and k: "k \<noteq> 0" "ht_map t k = None" and st: "status_lock (clht s) = 0"
    and p: "remove_scan (set_chain_lock LOCK_UPDATE (chain_of t k)) 0 0 = Some (d, j)"
  defines "c \<equiv> write_slot (set_chain_lock LOCK_UPDATE (chain_of t k)) d j k v"
  shows "run_post (put_post B s t k v) E
    (bind_run (unlock (ht (clht s)) (unat (clht_hash t k))
       (put_ht (ht (clht s)) (set_chain (unat (clht_hash t k)) c (locked k t)) (put_ht (ht (clht s)) (locked k t) s)))
      (\<lambda>s. Ret (True, s)))"
proof -
  note b = clht_ok_bin(1-3)[OF ok] clht_ok_bin(4-8)[OF ok, of k]
  have "chain_ok (set_chain_lock LOCK_UPDATE (chain_of t k))" using b(6,8) by simp
  then have c: "adds (chain_of t k) c k v" "chain_ok c"
    using adds_fill[OF _ p k(1), of v] by (simp_all add: c_def)
  note n = put_new_chain[OF ok k c order_refl, of "num_expands t"]
  show ?thesis
    using n(1) put_post_store[OF n(2,3) k(2) st order_refl] by (simp add: put_ht_def)
qed

lemma put_link:
  assumes ok: "clht_ok B s t" and k: "k \<noteq> 0" "ht_map t k = None" and st: "status_lock (clht s) = 0"
    and nb: "fresh_bucket nb" and B: "14 * Suc (clht_size t) \<le> B"
  defines "u \<equiv> (locked k t)\<lparr>num_expands := num_expands t + 1\<rparr>"
  shows "run_post (put_post B s t k v) (oom s)
    (bind_run (unlock (ht (clht s)) (unat (clht_hash t k))
       (put_ht (ht (clht s))
         (set_chain (unat (clht_hash t k)) (table u ! unat (clht_hash t k) @ [first_entry nb k v]) u)
         (s\<lparr>tables := (tables s)(ht (clht s) \<mapsto> u), nalloc := Suc (nalloc s)\<rparr>)))
      (\<lambda>s. if resize then bind_run (ht_status STATUS_FUEL s True False) (\<lambda>(_, s). Ret (True, s))
           else Ret (True, s)))"
proof -
  let ?b = "unat (clht_hash t k)"
  let ?c = "set_chain_lock LOCK_UPDATE (chain_of t k) @ [first_entry nb k v]"
  let ?t = "set_chain ?b (set_chain_lock LOCK_FREE ?c) (t\<lparr>num_expands := num_expands t + 1\<rparr>)"
  let ?s = "s\<lparr>tables := (tables s)(ht (clht s) \<mapsto> ?t), nalloc := Suc (nalloc s)\<rparr>"
  note b = clht_ok_bin(1-3)[OF ok] clht_ok_bin(4-8)[OF ok, of k]
  have "chain_ok (set_chain_lock LOCK_UPDATE (chain_of t k))" using b(6,8) by simp
  then have c: "adds (chain_of t k) ?c k v" "chain_ok ?c"
    using adds_link[OF _ nb k(1), of "set_chain_lock LOCK_UPDATE (chain_of t k)" v] by simp_all
  note n = put_new_chain[OF ok k c, of "Suc (nalloc s)" "num_expands t + 1"]
  have u: "set_chain ?b (table u ! ?b @ [first_entry nb k v]) u = set_chain ?b ?c (t\<lparr>num_expands := num_expands t + 1\<rparr>)"
    using b(5,8) by (simp add: u_def set_chain_def)
  have ok': "clht_ok B ?s ?t" and m: "ht_map ?t = (ht_map t)(k \<mapsto> v)" using n(2,3) by auto
  have "clht_size ?t = card (dom (ht_map t) \<union> {k})"
    using ok' m by (simp add: clht_size_card clht_ok_def)
  also have "\<dots> = Suc (clht_size t)"
    using k(2) b(2) by (simp add: clht_size_card finite_ht_map domIff)
  finally have sz: "clht_size ?t = Suc (clht_size t)" .
  have "run_post (put_post B s t k v) (oom s)
      (if resize then bind_run (ht_status STATUS_FUEL ?s True False) (\<lambda>(_, s). Ret (True, s)) else Ret (True, ?s))"
  proof (cases resize)
    case True
    have "run_post (status_post B ?s ?t) (oom ?s) (ht_status STATUS_FUEL ?s True False)"
      using ok' sz B by (intro status_total) auto
    then have "run_post (status_post B ?s ?t) (oom s) (ht_status STATUS_FUEL ?s True False)"
      by (rule run_post_mono) (auto intro: Suc_leD)
    then have "run_post (put_post B s t k v) (oom s)
        (bind_run (ht_status STATUS_FUEL ?s True False) (\<lambda>(_, s). Ret (True, s)))"
      by (rule run_post_bind) (auto simp: status_post_def put_post_def m k(2) later_def)
    then show ?thesis using True by simp
  next
    case False
    then show ?thesis using put_post_store[OF ok' m k(2) st] by simp
  qed
  then show ?thesis using n(1) u by (simp add: put_ht_def)
qed

lemma put_correct:
  assumes ok: "clht_ok B s t" and k: "k \<noteq> 0" and st: "status_lock (clht s) = 0" and B: "14 * Suc (clht_size t) \<le> B"
  shows "run_post (put_post B s t k v) (oom s) (clht_put s k v)"
proof (cases "ht_map t k")
  case (Some w)
  then show ?thesis
    using exists_map[OF k, of t] clht_ok_bin(1)[OF ok] ok st by (auto simp: clht_put_def put_post_def)
next
  case None
  let ?a = "ht (clht s)" and ?b = "unat (clht_hash t k)" and ?c = "set_chain_lock LOCK_UPDATE (chain_of t k)"
  let ?s = "put_ht ?a (locked k t) s"
  note b = clht_ok_bin(1-3)[OF ok] clht_ok_bin(4-8)[OF ok, of k]
  have ex: "\<not> bucket_exists (chain_of t k) k" using exists_map[OF k, of t] None by simp
  then have "k \<notin> fst ` set (chain_slots ?c)" by (simp add: bucket_exists_iff slot_simps)
  then have scan: "put_scan ?c k 0 None = Some (remove_scan ?c 0 0)" by (simp add: put_scan_None)
  have tab: "table (locked k t) ! ?b = ?c" using b(5,8) by simp
  show ?thesis
  proof (cases "remove_scan ?c 0 0")
    case (Some p)
    then obtain d j where p: "remove_scan ?c 0 0 = Some (d, j)" by (cases p) auto
    show ?thesis
      using put_slot[OF ok k None st p, of v "oom s"] b(1) ex scan p tab
      by (simp add: clht_put_def lock_loop_free[OF ok] Let_def)
  next
    case no: None
    have "tables ?s ?a = Some (locked k t)" by simp
    note cs = create_stats_post[OF this, of "oom s"]
    have "run_post (put_post B s t k v) (oom s)
      (bind_run (clht_bucket_create_stats ?s ?a) (\<lambda>(nb, resize, s).
           case nb of
             None \<Rightarrow> Abort ''NULL bucket''
           | Some b \<Rightarrow>
               bind_run (get_ht s ?a) (\<lambda>t.
               let b = first_entry b k v; s = put_ht ?a (set_chain ?b (table t ! ?b @ [b]) t) s in
               bind_run (unlock ?a ?b s) (\<lambda>s.
                 if resize then bind_run (ht_status STATUS_FUEL s True False) (\<lambda>(_, s). Ret (True, s))
                 else Ret (True, s)))))"
    proof (rule run_post_bind[OF cs], clarify)
      fix nb r s'
      assume P: "case nb of None \<Rightarrow> oom ?s
        | Some b \<Rightarrow> fresh_bucket b \<and> r = (num_expands_threshold (locked k t) \<le> num_expands (locked k t) + 1)
           \<and> s' = ?s\<lparr>tables := (tables ?s)(?a \<mapsto> (locked k t)\<lparr>num_expands := num_expands (locked k t) + 1\<rparr>), nalloc := Suc (nalloc ?s)\<rparr>"
      show "run_post (put_post B s t k v) (oom s) (case nb of
             None \<Rightarrow> Abort ''NULL bucket''
           | Some b \<Rightarrow>
               bind_run (get_ht s' ?a) (\<lambda>t.
               let b = first_entry b k v; s = put_ht ?a (set_chain ?b (table t ! ?b @ [b]) t) s' in
               bind_run (unlock ?a ?b s) (\<lambda>s.
                 if r then bind_run (ht_status STATUS_FUEL s True False) (\<lambda>(_, s). Ret (True, s))
                 else Ret (True, s))))"
      proof (cases nb)
        case None
        then show ?thesis using P by simp
      next
        case (Some nb')
        then have "fresh_bucket nb'" "s' = s\<lparr>tables := (tables s)(?a \<mapsto> (locked k t)\<lparr>num_expands := num_expands t + 1\<rparr>), nalloc := Suc (nalloc s)\<rparr>"
          using P by (simp_all add: put_ht_def set_chain_def)
        then show ?thesis
          using put_link[OF ok k None st _ B, of nb' v r] Some by (simp add: Let_def)
      qed
    qed
    then show ?thesis
      using b(1) ex scan no tab by (simp add: clht_put_def lock_loop_free[OF ok] Let_def cong: option.case_cong)
  qed
qed

text \<open>Removal never allocates, so it always returns.\<close>

definition remove_post :: "nat \<Rightarrow> clht_mem \<Rightarrow> clht_hashtable_t \<Rightarrow> u64 \<Rightarrow> u64 \<times> clht_mem \<Rightarrow> bool" where
  "remove_post B s t k r \<longleftrightarrow> fst r = (case ht_map t k of Some v \<Rightarrow> v | None \<Rightarrow> 0) \<and> later s (snd r)
     \<and> clht (snd r) = clht s \<and> (\<exists>t'. clht_ok B (snd r) t' \<and> ht_map t' = (ht_map t)(k := None))"

lemma remove_correct:
  assumes ok: "clht_ok B s t" and k: "k \<noteq> 0"
  shows "run_post (remove_post B s t k) E (clht_remove s k)"
proof (cases "ht_map t k")
  case None
  then show ?thesis
    using exists_map[OF k, of t] clht_ok_bin(1)[OF ok] ok
    by (auto simp: clht_remove_def remove_post_def fun_upd_idem)
next
  case (Some w)
  let ?a = "ht (clht s)" and ?b = "unat (clht_hash t k)" and ?c = "set_chain_lock LOCK_UPDATE (chain_of t k)"
  note b = clht_ok_bin(1-3)[OF ok] clht_ok_bin(4-8)[OF ok, of k]
  have ex: "bucket_exists (chain_of t k) k" using exists_map[OF k, of t] Some by simp
  then have "remove_scan ?c k 0 \<noteq> None" by (simp add: remove_scan_None bucket_exists_iff slot_simps)
  then obtain d j where p: "remove_scan ?c k 0 = Some (d, j)" by auto
  let ?c' = "?c[d := (?c ! d)\<lparr>b_key := (b_key (?c ! d))[j := 0]\<rparr>]" and ?v = "b_val (?c ! d) ! j"
  have "chain_ok ?c" using b(6,8) by simp
  note r = removes_clear[OF this p k]
  have c': "adds (set_chain_lock LOCK_FREE ?c') (chain_of t k) k ?v" "chain_ok (set_chain_lock LOCK_FREE ?c')" "?c' \<noteq> []"
    using r by (simp_all, simp add: chain_ok_def)
  note h = ht_removes[OF b(2) c'(1,2)]
  let ?t = "set_chain ?b (set_chain_lock LOCK_FREE ?c') (t\<lparr>num_expands := num_expands t\<rparr>)"
  let ?s = "s\<lparr>tables := (tables s)(?a \<mapsto> ?t), nalloc := nalloc s\<rparr>"
  note u = unlock_store[OF ok c'(3) refl h(1) order_refl]
  have "ht_map ?t = (ht_map t)(k := None)" using h(2) by simp
  moreover have "clht_ok B ?s ?t" using u(2)[of "num_expands t"] by simp
  ultimately have "remove_post B s t k (?v, ?s)"
    using h(3) by (auto simp: remove_post_def later_def)
  moreover have "table (locked k t) ! ?b = ?c" using b(5,8) by simp
  ultimately show ?thesis
    using u(1)[of "num_expands t"] b(1) ex p by (simp add: clht_remove_def lock_loop_free[OF ok] Let_def put_ht_def)
qed

end
