(* ===== verification/KvIface.thy ===== *)
theory KvIface
  imports Prelude
begin

text \<open>
  What the benchmark drivers rely on when they use one of the indexes: a finite map with lookup,
  insertion and removal, where an insertion of a present key either keeps the old value (\<open>keep\<close>)
  or replaces it. A client is a list of operations; \<open>kv_run\<close> executes it on an index, \<open>kv_spec\<close> on
  the map itself. The locale says when the two agree.
\<close>

datatype ('k, 'v) kv_op = KGet 'k | KPut 'k 'v | KRemove 'k
datatype 'v kv_out = Got 'v | Put bool | Removed 'v

fun kv_run ::
  "('s \<Rightarrow> 'k \<Rightarrow> 'v) \<Rightarrow> ('s \<Rightarrow> 'k \<Rightarrow> 'v \<Rightarrow> (bool \<times> 's) run) \<Rightarrow> ('s \<Rightarrow> 'k \<Rightarrow> ('v \<times> 's) run) \<Rightarrow>
   ('k, 'v) kv_op list \<Rightarrow> 's \<Rightarrow> ('v kv_out list \<times> 's) run" where
  "kv_run get put rem [] s = Ret ([], s)"
| "kv_run get put rem (KGet k # ops) s =
     bind_run (kv_run get put rem ops s) (\<lambda>(out, s'). Ret (Got (get s k) # out, s'))"
| "kv_run get put rem (KPut k v # ops) s =
     bind_run (put s k v) (\<lambda>(r, s). bind_run (kv_run get put rem ops s) (\<lambda>(out, s'). Ret (Put r # out, s')))"
| "kv_run get put rem (KRemove k # ops) s =
     bind_run (rem s k) (\<lambda>(r, s). bind_run (kv_run get put rem ops s) (\<lambda>(out, s'). Ret (Removed r # out, s')))"

definition val_of :: "'v \<Rightarrow> 'v option \<Rightarrow> 'v" where
  "val_of none x = (case x of Some v \<Rightarrow> v | None \<Rightarrow> none)"

definition ins :: "bool \<Rightarrow> ('k \<rightharpoonup> 'v) \<Rightarrow> 'k \<Rightarrow> 'v \<Rightarrow> ('k \<rightharpoonup> 'v)" where
  "ins keep m k v = (if keep \<and> m k \<noteq> None then m else m(k \<mapsto> v))"

fun kv_spec :: "bool \<Rightarrow> 'v \<Rightarrow> ('k, 'v) kv_op list \<Rightarrow> ('k \<rightharpoonup> 'v) \<Rightarrow> 'v kv_out list \<times> ('k \<rightharpoonup> 'v)" where
  "kv_spec keep none [] m = ([], m)"
| "kv_spec keep none (KGet k # ops) m =
     (case kv_spec keep none ops m of (out, m') \<Rightarrow> (Got (val_of none (m k)) # out, m'))"
| "kv_spec keep none (KPut k v # ops) m =
     (case kv_spec keep none ops (ins keep m k v) of (out, m') \<Rightarrow> (Put (m k = None) # out, m'))"
| "kv_spec keep none (KRemove k # ops) m =
     (case kv_spec keep none ops (m(k := None)) of (out, m') \<Rightarrow> (Removed (val_of none (m k)) # out, m'))"

fun kv_key :: "('k, 'v) kv_op \<Rightarrow> 'k" where
  "kv_key (KGet k) = k"
| "kv_key (KPut k v) = k"
| "kv_key (KRemove k) = k"

fun is_put :: "('k, 'v) kv_op \<Rightarrow> bool" where
  "is_put (KPut k v) = True"
| "is_put _ = False"

abbreviation puts :: "('k, 'v) kv_op list \<Rightarrow> nat" where
  "puts ops \<equiv> length (filter is_put ops)"

locale kv_store =
  fixes ok :: "'s \<Rightarrow> ('k \<rightharpoonup> 'v) \<Rightarrow> bool"
    and get :: "'s \<Rightarrow> 'k \<Rightarrow> 'v"
    and put :: "'s \<Rightarrow> 'k \<Rightarrow> 'v \<Rightarrow> (bool \<times> 's) run"
    and rem :: "'s \<Rightarrow> 'k \<Rightarrow> ('v \<times> 's) run"
    and valid :: "'k \<Rightarrow> bool"
    and none :: 'v
    and keep :: bool
    and cap :: nat
  assumes finite_map: "ok s m \<Longrightarrow> finite (dom m)"
    and get_law: "ok s m \<Longrightarrow> valid k \<Longrightarrow> get s k = val_of none (m k)"
    and put_law: "ok s m \<Longrightarrow> valid k \<Longrightarrow> card (dom m) < cap \<Longrightarrow>
      \<exists>s'. put s k v = Ret (m k = None, s') \<and> ok s' (ins keep m k v)"
    and rem_law: "ok s m \<Longrightarrow> valid k \<Longrightarrow>
      \<exists>s'. rem s k = Ret (val_of none (m k), s') \<and> ok s' (m(k := None))"
begin

lemma card_ins: "finite (dom m) \<Longrightarrow> card (dom (ins keep m k v)) \<le> Suc (card (dom m))"
  by (auto simp: ins_def card_insert_if)

lemma card_del: "finite (dom m) \<Longrightarrow> card (dom (m(k := None))) \<le> card (dom m)"
  by (auto intro: card_mono)

lemma run_refines:
  assumes "ok s m" "\<forall>op \<in> set ops. valid (kv_key op)" "card (dom m) + puts ops \<le> cap"
  shows "\<exists>s'. kv_run get put rem ops s = Ret (fst (kv_spec keep none ops m), s')
    \<and> ok s' (snd (kv_spec keep none ops m))"
  using assms
proof (induction ops arbitrary: s m)
  case (Cons op ops)
  note fin = finite_map[OF Cons.prems(1)]
  show ?case
  proof (cases op)
    case (KGet k)
    then show ?thesis
      using Cons.IH[OF Cons.prems(1)] Cons.prems get_law[of s m k] by (auto split: prod.splits)
  next
    case (KPut k v)
    obtain s' where s': "put s k v = Ret (m k = None, s')" "ok s' (ins keep m k v)"
      using put_law[OF Cons.prems(1), of k v] Cons.prems KPut by auto
    have "card (dom (ins keep m k v)) + puts ops \<le> cap"
      using card_ins[OF fin, of k v] Cons.prems(3) KPut by simp
    then show ?thesis
      using Cons.IH[OF s'(2)] Cons.prems(2) s'(1) KPut by (auto split: prod.splits)
  next
    case (KRemove k)
    obtain s' where s': "rem s k = Ret (val_of none (m k), s')" "ok s' (m(k := None))"
      using rem_law[OF Cons.prems(1), of k] Cons.prems KRemove by auto
    have "card (dom (m(k := None))) + puts ops \<le> cap"
      using card_del[OF fin, of k] Cons.prems(3) KRemove by simp
    from Cons.IH[OF s'(2) _ this] show ?thesis
      using Cons.prems(2) s'(1) KRemove by (auto simp del: fun_upd_apply split: prod.splits)
  qed
qed simp

end

end
