(* ===== verification/ClhtStore.thy ===== *)
theory ClhtStore
  imports ClhtOps KvIface
begin

text \<open>
  The hash table as an index: the interpretation of the key-value interface on \<^verbatim>\<open>clht_get\<close>,
  \<^verbatim>\<open>clht_put\<close> and \<^verbatim>\<open>clht_remove\<close>, and the properties of the sequential hash table. A table of at
  most \<open>B\<close> buckets, \<open>B < 2 ^ 32\<close>, serves \<open>B div 14\<close> entries: a resize never asks for more than 14
  buckets per entry.
\<close>

text \<open>The lookup as the drivers call it: \<^verbatim>\<open>clht_get(h->ht, key)\<close>.\<close>

definition clht_lookup :: "clht_mem \<Rightarrow> u64 \<Rightarrow> u64" where
  "clht_lookup s k = (case tables s (ht (clht s)) of Some t \<Rightarrow> clht_get t k | None \<Rightarrow> 0)"

definition clht_holds :: "nat \<Rightarrow> clht_mem \<Rightarrow> (u64 \<rightharpoonup> u64) \<Rightarrow> bool" where
  "clht_holds B s m \<longleftrightarrow> (\<exists>t. clht_ok B s t \<and> ht_map t = m) \<and> status_lock (clht s) = 0 \<and> (\<forall>i. \<not> fails s i)"

lemma room: "n < B div 14 \<Longrightarrow> 14 * Suc n \<le> (B::nat)"
  by presburger

interpretation clht_kv: kv_store "clht_holds B" clht_lookup clht_put clht_remove "\<lambda>k. k \<noteq> 0" 0 True "B div 14" for B
proof unfold_locales
  fix s m assume "clht_holds B s m"
  then show "finite (dom m)" by (auto simp: clht_holds_def clht_ok_def intro: finite_ht_map)
next
  fix s m k assume "clht_holds B s m" and "k \<noteq> (0 :: u64)"
  then show "clht_lookup s k = val_of 0 (m k)"
    by (auto simp: clht_holds_def clht_ok_def clht_lookup_def clht_get_map val_of_def)
next
  fix s m k v assume h: "clht_holds B s m" and k: "k \<noteq> (0 :: u64)" and c: "card (dom m) < B div 14"
  then obtain t where t: "clht_ok B s t" "ht_map t = m" "status_lock (clht s) = 0" "\<forall>i. \<not> fails s i"
    by (auto simp: clht_holds_def)
  have "14 * Suc (clht_size t) \<le> B"
    using room[OF c] t(1,2) by (simp add: clht_size_card clht_ok_def)
  from put_correct[OF t(1) k t(3) this, of v]
  show "\<exists>s'. clht_put s k v = Ret (m k = None, s') \<and> clht_holds B s' (ins True m k v)"
    using t(2,4) by (cases "clht_put s k v") (auto simp: put_post_def clht_holds_def ins_def later_def)
next
  fix s m k assume h: "clht_holds B s m" and k: "k \<noteq> (0 :: u64)"
  then obtain t where t: "clht_ok B s t" "ht_map t = m" "status_lock (clht s) = 0" "\<forall>i. \<not> fails s i"
    by (auto simp: clht_holds_def)
  from remove_correct[OF t(1) k, of False]
  show "\<exists>s'. clht_remove s k = Ret (val_of 0 (m k), s') \<and> clht_holds B s' (m(k := None))"
    using t(2-4) by (cases "clht_remove s k") (auto simp: remove_post_def clht_holds_def val_of_def later_def simp del: fun_upd_apply)
qed

section \<open>Creation and lock initialisation\<close>

definition clht_fresh :: "clht_mem \<Rightarrow> bool" where
  "clht_fresh s \<longleftrightarrow> (\<forall>a. tables s a = None) \<and> released s = []"

lemma create_correct:
  assumes f: "clht_fresh s" and n: "\<exists>k. n = 2 ^ k" "n \<le> B" "B < 2 ^ 32"
  shows "run_post (\<lambda>(r, s'). if r then (\<exists>t. clht_ok B s' t \<and> ht_map t = Map.empty)
      \<and> status_lock (clht s') = 0 \<and> fails s' = fails s else oom s) E (clht_create s n)"
proof (cases "fails s (nalloc s)")
  case True
  then show ?thesis by (auto simp: clht_create_def memalign_def)
next
  case False
  let ?s = "s\<lparr>nalloc := Suc (nalloc s)\<rparr>"
  have n': "0 < n" "n < 2 ^ 32" using n by auto
  have "run_post (\<lambda>(r, s'). if r then (\<exists>t. clht_ok B s' t \<and> ht_map t = Map.empty)
      \<and> status_lock (clht s') = 0 \<and> fails s' = fails s else oom s) E
    (bind_run (clht_hashtable_create ?s n) (\<lambda>(h, s).
          case h of
            None \<Rightarrow> Ret (False, s)
          | Some a \<Rightarrow>
              Ret (True, s\<lparr>clht := \<lparr>ht = a, ht_oldest = a, version_list = [], version_min = 0,
                                     resize_lock = LOCK_FREE, gc_lock = LOCK_FREE, status_lock = LOCK_FREE\<rparr>\<rparr>)))"
  proof (rule run_post_bind[OF create_post[OF n', of ?s E]], clarify)
    fix h s'
    assume P: "case h of None \<Rightarrow> oom ?s
      | Some a \<Rightarrow> \<exists>t. a = nalloc ?s \<and> built t [] \<and> num_buckets t = n \<and> is_helper t = 1
          \<and> num_expands_threshold t = word_of_nat n \<and> table_new t = None \<and> ht_version t = 0
          \<and> s' = ?s\<lparr>tables := (tables ?s)(a \<mapsto> t), nalloc := Suc (Suc (nalloc ?s))\<rparr>"
    show "run_post (\<lambda>(r, s'). if r then (\<exists>t. clht_ok B s' t \<and> ht_map t = Map.empty)
        \<and> status_lock (clht s') = 0 \<and> fails s' = fails s else oom s) E
      (case h of None \<Rightarrow> Ret (False, s')
       | Some a \<Rightarrow> Ret (True, s'\<lparr>clht := \<lparr>ht = a, ht_oldest = a, version_list = [], version_min = 0,
                                     resize_lock = LOCK_FREE, gc_lock = LOCK_FREE, status_lock = LOCK_FREE\<rparr>\<rparr>))"
    proof (cases h)
      case None
      then show ?thesis using P by (auto intro: Suc_leD)
    next
      case (Some a)
      then obtain t where t: "a = Suc (nalloc s)" "built t []" "num_buckets t = n" "is_helper t = 1"
        "s' = s\<lparr>tables := (tables s)(a \<mapsto> t), nalloc := Suc (Suc (Suc (nalloc s)))\<rparr>" using P by auto
      have "clht_ok B (s'\<lparr>clht := \<lparr>ht = a, ht_oldest = a, version_list = [], version_min = 0,
                                     resize_lock = LOCK_FREE, gc_lock = LOCK_FREE, status_lock = LOCK_FREE\<rparr>\<rparr>) t"
        using t n f built_facts[OF t(2)]
        by (auto simp: clht_ok_def clht_fresh_def released_ok_def LOCK_FREE_def)
      then show ?thesis
        using Some t built_facts(3)[OF t(2)] by (auto simp: LOCK_FREE_def)
    qed
  qed
  then show ?thesis using False by (simp add: clht_create_def memalign_def)
qed

text \<open>No bucket is locked, those linked behind the ones of the array included.\<close>

definition all_unlocked :: "clht_hashtable_t \<Rightarrow> bool" where
  "all_unlocked t \<longleftrightarrow> (\<forall>c \<in> set (table t). \<forall>b \<in> set c. b_lock b = LOCK_FREE)"

definition entries :: "clht_hashtable_t \<Rightarrow> (u64 list \<times> u64 list) list list" where
  "entries t = map (map (\<lambda>b. (b_key b, b_val b))) (table t)"

lemma init_locks_table:
  assumes "ht_ok t"
  defines "t' \<equiv> t\<lparr>table := map (map (\<lambda>b. b\<lparr>b_lock := LOCK_FREE\<rparr>)) (table t)\<rparr>"
  shows "ht_ok t'" "ht_unlocked t'" "ht_map t' = ht_map t" "num_buckets t' = num_buckets t" "is_helper t' = is_helper t"
proof -
  have len: "length (table t) = num_buckets t" using assms(1) by (simp add: ht_ok_def)
  have live: "chain_live (map (\<lambda>b. b\<lparr>b_lock := LOCK_FREE\<rparr>) c) = chain_live c" for c
    by (simp add: chain_live_simps)
  have cok: "chain_ok (map (\<lambda>b. b\<lparr>b_lock := LOCK_FREE\<rparr>) c) = chain_ok c" for c
    by (auto simp: chain_ok_def bucket_ok_def)
  have lock: "chain_lock (map (\<lambda>b. b\<lparr>b_lock := LOCK_FREE\<rparr>) c) = LOCK_FREE" if "c \<noteq> []" for c
    using that by (simp add: chain_lock_def)
  show "num_buckets t' = num_buckets t" "is_helper t' = is_helper t" by (simp_all add: t'_def)
  have hash: "clht_hash t' k = clht_hash t k" for k by (simp add: clht_hash_def t'_def)
  show "ht_ok t'"
    using assms(1) len unfolding ht_ok_def hashes_to_def hash by (simp add: t'_def live cok)
  show "ht_unlocked t'"
    using ht_okD(5)[OF assms(1)] len by (auto simp: ht_unlocked_def t'_def lock chain_ok_def)
  show "ht_map t' = ht_map t"
  proof
    fix k
    have "unat (clht_hash t k) < length (table t)" using hash_less[OF assms(1)] len by simp
    then show "ht_map t' k = ht_map t k"
      by (simp add: ht_map_def chain_of_def hash) (simp add: t'_def live)
  qed
qed

section \<open>A concrete table\<close>

definition clht_mem0 :: clht_mem where
  "clht_mem0 = \<lparr>tables = (\<lambda>_. None), nalloc = 0, fails = (\<lambda>_. False), junk = (\<lambda>_ _. 0),
     clht = \<lparr>ht = 0, ht_oldest = 0, version_list = [], version_min = 0, resize_lock = 0, gc_lock = 0, status_lock = 0\<rparr>,
     released = [], freed = [], check_ht_status_steps = CLHT_STATUS_INVOK\<rparr>"

definition clht_example :: clht_mem where
  "clht_example = (case clht_create clht_mem0 8 of Ret (_, s) \<Rightarrow> s | _ \<Rightarrow> clht_mem0)"

lemma mem0_fresh: "clht_fresh clht_mem0" "\<exists>k. (8::nat) = 2 ^ k" "\<not> fails clht_mem0 i"
  by (auto simp: clht_fresh_def clht_mem0_def intro: exI[of _ 3])

lemma example_holds: "clht_holds 4096 clht_example Map.empty"
proof -
  have "run_post (\<lambda>(r, s'). if r then (\<exists>t. clht_ok 4096 s' t \<and> ht_map t = Map.empty)
      \<and> status_lock (clht s') = 0 \<and> fails s' = fails clht_mem0 else oom clht_mem0) False (clht_create clht_mem0 8)"
    by (rule create_correct[OF mem0_fresh(1,2)]) simp_all
  then show ?thesis
    using mem0_fresh(3)
    by (cases "clht_create clht_mem0 8") (auto simp: clht_example_def clht_holds_def split: if_splits)
qed

lemma example_table:
  obtains t where "clht_ok 4096 clht_example t" "ht_map t = Map.empty" "status_lock (clht clht_example) = 0"
    "\<forall>i. \<not> fails clht_example i" "clht_size t = 0"
  using example_holds by (auto simp: clht_holds_def clht_size_card clht_ok_def)

lemma example_one:
  obtains s t where "clht_put clht_example 1 10 = Ret (True, s)" "clht_ok 4096 s t" "clht_size t = 1" "\<forall>i. \<not> fails s i"
proof -
  obtain s where s: "clht_put clht_example 1 10 = Ret (True, s)" "clht_holds 4096 s [1 \<mapsto> 10]"
    using clht_kv.put_law[OF example_holds, of 1 10] by (auto simp: ins_def)
  then obtain t where t: "clht_ok 4096 s t" "ht_map t = [1 \<mapsto> 10]" "\<forall>i. \<not> fails s i" by (auto simp: clht_holds_def)
  then have "clht_size t = 1" by (simp add: clht_size_card clht_ok_def)
  then show ?thesis using that s(1) t(1,3) by blast
qed

text \<open>A table whose locks a crash left taken: one bin with an overflow bucket.\<close>

definition locked_bucket :: "u8 \<Rightarrow> u64 \<Rightarrow> u64 \<Rightarrow> bucket_t" where
  "locked_bucket l k v = \<lparr>b_lock = l, b_key = [k, 0, 0], b_val = [v, 0, 0]\<rparr>"

definition locked_example :: clht_mem where
  "locked_example = clht_mem0\<lparr>tables := [1 \<mapsto>
     \<lparr>num_buckets = 1, table = [[locked_bucket LOCK_UPDATE 3 30, locked_bucket LOCK_RESIZE 5 50]], hash = 0, ht_version = 0, table_tmp = None,
      table_prev = None, table_new = None, num_expands = 1, num_expands_threshold = 1, is_helper = 1, helper_done = 0\<rparr>],
     clht := (clht clht_mem0)\<lparr>ht := 1, resize_lock := 255, status_lock := 255\<rparr>\<rparr>"

lemma locked_example_table:
  obtains t where "tables locked_example (ht (clht locked_example)) = Some t" "ht_ok t" "num_buckets t = 1" "ht_map t 5 = Some 50"
    "ht (clht locked_example) = 1"
proof -
  define t where "t = the (tables locked_example 1)"
  have live: "chain_live [locked_bucket LOCK_UPDATE 3 30, locked_bucket LOCK_RESIZE 5 50] = [(3, 30), (5, 50)]"
  proof -
    have "slots (locked_bucket l k v) = [(k, v), (0, 0), (0, 0)]" for l k v
      by (simp add: locked_bucket_def ENTRIES_3 upt_rec numeral_2_eq_2)
    then show ?thesis by (simp add: chain_live_def chain_slots_Cons live_Cons)
  qed
  have ok: "chain_ok [locked_bucket LOCK_UPDATE 3 30, locked_bucket LOCK_RESIZE 5 50]"
    by (auto simp: chain_ok_def bucket_ok_def locked_bucket_def ENTRIES_3)
  have "tables locked_example (ht (clht locked_example)) = Some t" "num_buckets t = 1" "ht (clht locked_example) = 1"
    by (simp_all add: t_def locked_example_def)
  moreover have "ht_ok t"
    by (simp add: t_def locked_example_def ht_ok_def SIZEOF_BUCKET_def ok live hashes_to_def clht_hash_def)
  moreover have "ht_map t 5 = Some 50"
    by (simp add: t_def locked_example_def ht_map_def chain_of_def clht_hash_def live)
  ultimately show thesis using that by blast
qed

section \<open>Properties\<close>

text \<open>
  C25: Every sequence of lookups, insertions and removals with keys other than the empty
  marker 0, on a hash table in a consistent state, returns, and answers each call as a finite map
  does: \<^verbatim>\<open>clht_get\<close> and \<^verbatim>\<open>clht_remove\<close> give the value of the key or 0, \<^verbatim>\<open>clht_put\<close> inserts and returns
  true exactly when the key was absent. It holds across the resizes that insertions trigger, as long
  as no allocation fails and the table has fewer than \<open>B div 14\<close> entries, \<open>B < 2 ^ 32\<close>.
\<close>

theorem clht_client:
  assumes "clht_holds B s m" and "\<forall>op \<in> set ops. kv_key op \<noteq> 0" and "card (dom m) + puts ops \<le> B div 14"
  shows "\<exists>s'. kv_run clht_lookup clht_put clht_remove ops s = Ret (fst (kv_spec True 0 ops m), s')
    \<and> clht_holds B s' (snd (kv_spec True 0 ops m))"
  using assms by (rule clht_kv.run_refines)

theorem clht_client_witness:
  "\<exists>s'. kv_run clht_lookup clht_put clht_remove [KPut 1 10, KPut 9 20, KPut 1 30, KGet 9, KRemove 1, KGet 1] clht_example
    = Ret ([Put True, Put True, Put False, Got 20, Removed 10, Got 0], s')"
  using clht_client[OF example_holds, of "[KPut 1 10, KPut 9 20, KPut 1 30, KGet 9, KRemove 1, KGet 1]"]
  by (auto simp: val_of_def ins_def)

text \<open>
  C26: On every branch of \<^verbatim>\<open>clht_put\<close>, for a key other than the empty marker 0, called alone on a consistent
  table with at most \<open>B div 14 - 1\<close> entries, \<open>B < 2 ^ 32\<close>, whose status lock is free. It always ends: it returns whether the key was
  absent, the map is extended exactly in that case, and the invariant of the table holds again (locks
  free, a power of two of buckets, retired tables released once); or it dereferences a null pointer,
  and then an allocation has failed.
\<close>

theorem clht_put_outcome:
  assumes "clht_ok B s t" and "k \<noteq> 0" and "status_lock (clht s) = 0" and "14 * (clht_size t + 1) \<le> B"
  shows "case clht_put s k v of
      Ret (r, s') \<Rightarrow> r = (ht_map t k = None) \<and> status_lock (clht s') = 0
        \<and> (\<exists>t'. clht_ok B s' t' \<and> ht_map t' = (if ht_map t k = None then (ht_map t)(k \<mapsto> v) else ht_map t))
    | Abort _ \<Rightarrow> \<exists>i \<ge> nalloc s. fails s i
    | OutOfFuel \<Rightarrow> False"
  using put_correct[OF assms(1-3), of v] assms(4)
  by (auto simp: run_post_def put_post_def split: run.splits)

theorem clht_put_outcome_witness: "\<exists>s'. clht_put clht_example 1 10 = Ret (True, s')"
proof -
  obtain t where t: "clht_ok 4096 clht_example t" "ht_map t = Map.empty" "status_lock (clht clht_example) = 0"
    "\<forall>i. \<not> fails clht_example i" "clht_size t = 0" by (rule example_table)
  then show ?thesis
    using clht_put_outcome[OF t(1) _ t(3), of 1 10] by (auto split: run.splits)
qed

text \<open>
  C27: The recursion between \<^verbatim>\<open>ht_status\<close> and \<^verbatim>\<open>ht_resize_pes\<close> ends, for a consistent table that holds at least
  one and at most \<open>B div 14\<close> entries, \<open>B < 2 ^ 32\<close>: called with \<^verbatim>\<open>resize_increase\<close>, \<^verbatim>\<open>ht_status\<close> returns with a consistent
  table of at most \<open>B\<close> buckets that holds the same map, or it stops at a null pointer, and then an allocation has failed.
  In particular it never halves the table to no bucket at all.
\<close>

theorem clht_resize_ends:
  assumes "clht_ok B s t" and "0 < clht_size t" and "14 * clht_size t \<le> B"
  shows "case ht_status STATUS_FUEL s True False of
      Ret (_, s') \<Rightarrow> \<exists>t'. clht_ok B s' t' \<and> ht_map t' = ht_map t
    | Abort _ \<Rightarrow> \<exists>i \<ge> nalloc s. fails s i
    | OutOfFuel \<Rightarrow> False"
  using status_total[OF assms] by (auto simp: run_post_def status_post_def split: run.splits)

theorem clht_resize_ends_witness:
  "\<exists>s t n s' t'. clht_put clht_example 1 10 = Ret (True, s) \<and> clht_ok 4096 s t
     \<and> ht_status STATUS_FUEL s True False = Ret (n, s') \<and> clht_ok 4096 s' t' \<and> ht_map t' = ht_map t"
proof -
  obtain s t where "clht_put clht_example 1 10 = Ret (True, s)" "clht_ok 4096 s t" "clht_size t = 1" "\<forall>i. \<not> fails s i"
    by (rule example_one)
  then show ?thesis using clht_resize_ends[of 4096 s t] by (auto split: run.splits)
qed

text \<open>
  C30: \<^verbatim>\<open>clht_create\<close> with a power of two of buckets below \<open>2 ^ 32\<close> gives a consistent empty table, or
  returns \<^verbatim>\<open>NULL\<close> because an allocation failed. With 0 buckets it returns \<^verbatim>\<open>NULL\<close> and makes no table.
\<close>

theorem clht_create_empty:
  assumes "clht_fresh s" and "n = 0 \<or> (\<exists>k. n = 2 ^ k)" and "n \<le> B" and "B < 2 ^ 32"
  shows "\<exists>r s'. clht_create s n = Ret (r, s') \<and>
    (if r then n \<noteq> 0 \<and> (\<exists>t. clht_ok B s' t \<and> ht_map t = Map.empty) \<and> status_lock (clht s') = 0
     else n = 0 \<and> tables s' = tables s \<or> n \<noteq> 0 \<and> (\<exists>i \<ge> nalloc s. fails s i))"
proof (cases "n = 0")
  case True
  then show ?thesis by (auto simp: clht_create_def clht_hashtable_create_def memalign_def)
next
  case False
  then have "\<exists>k. n = 2 ^ k" using assms(2) by blast
  from create_correct[OF assms(1) this assms(3,4), of False] False show ?thesis
    by (cases "clht_create s n") (auto split: if_splits)
qed

theorem clht_create_empty_witness:
  "\<exists>s' t. clht_create clht_mem0 8 = Ret (True, s') \<and> clht_ok 4096 s' t \<and> ht_map t = Map.empty"
  using clht_create_empty[OF mem0_fresh(1) disjI2[OF mem0_fresh(2)], of 4096] mem0_fresh(3) by (auto split: if_splits)

text \<open>
  C32: \<^verbatim>\<open>clht_size\<close> is the number of keys of the map.
\<close>

theorem clht_size_exact:
  assumes "ht_ok t"
  shows "clht_size t = card (dom (ht_map t))"
  using assms by (rule clht_size_card)

theorem clht_size_exact_witness:
  "\<exists>t. tables clht_example (ht (clht clht_example)) = Some t \<and> clht_size t = card (dom (ht_map t)) \<and> clht_size t = 0"
proof -
  obtain t where "clht_ok 4096 clht_example t" "clht_size t = 0" by (rule example_table)
  then show ?thesis using clht_size_exact[of t] by (auto simp: clht_ok_def)
qed

text \<open>
  C33: For arguments from 1 to \<open>2 ^ 63\<close>, \<^verbatim>\<open>pow2roundup\<close> is the least power of two that
  is not below its argument.
\<close>

theorem pow2roundup_least:
  assumes "0 < unat x" and "unat x \<le> 2 ^ 63"
  shows "\<exists>k. unat (pow2roundup x) = 2 ^ k \<and> unat x \<le> 2 ^ k \<and> (\<forall>j. unat x \<le> 2 ^ j \<longrightarrow> k \<le> j)"
proof -
  obtain k where k: "k < 64" "pow2roundup x = 2 ^ k" "unat x \<le> 2 ^ k" "2 ^ k < 2 * unat x"
    using pow2roundup_pow[OF assms] by blast
  have "unat (2 ^ k :: u64) = 2 ^ k" using unat_word_of_nat[OF power_strict_increasing[OF k(1)]] by simp
  moreover have "k \<le> j" if "unat x \<le> 2 ^ j" for j
  proof -
    have "(2::nat) ^ k < 2 ^ Suc j" using k(4) that by simp
    then have "k < Suc j" by (rule power_less_imp_less_exp[rotated]) simp
    then show ?thesis by simp
  qed
  ultimately show ?thesis using k(2,3) by auto
qed

theorem pow2roundup_least_witness:
  "\<exists>k. unat (pow2roundup 5) = 2 ^ k \<and> unat (5::u64) \<le> 2 ^ k \<and> (\<forall>j. unat (5::u64) \<le> 2 ^ j \<longrightarrow> k \<le> j)"
  by (rule pow2roundup_least) simp_all

text \<open>
  C31: After a crash the locks of the table are in an arbitrary state. For a table of fewer than
  \<open>2 ^ 31\<close> buckets, the range of the loop counter, \<^verbatim>\<open>clht_lock_initialization\<close> frees the lock of every bucket,
  those linked behind a bucket of the array included, and the three locks of the table, and keeps every
  key and value: the table is consistent and holds the same map, and the other tables are as before.
\<close>

theorem clht_recover_locks:
  assumes "tables s (ht (clht s)) = Some t" and "ht_ok t" and "num_buckets t < 2 ^ 31"
  shows "\<exists>s' t'. clht_lock_initialization s = Ret s' \<and> ht (clht s') = ht (clht s) \<and> tables s' = (tables s)(ht (clht s) \<mapsto> t')
    \<and> all_unlocked t' \<and> entries t' = entries t \<and> ht_ok t' \<and> ht_unlocked t' \<and> ht_map t' = ht_map t
    \<and> resize_lock (clht s') = 0 \<and> status_lock (clht s') = 0 \<and> gc_lock (clht s') = 0"
proof -
  let ?t = "t\<lparr>table := map (map (\<lambda>b. b\<lparr>b_lock := LOCK_FREE\<rparr>)) (table t)\<rparr>"
  let ?c = "(clht s)\<lparr>resize_lock := LOCK_FREE, status_lock := LOCK_FREE, gc_lock := LOCK_FREE\<rparr>"
  have "all_unlocked ?t" "entries ?t = entries t" by (auto simp: all_unlocked_def entries_def)
  moreover have "clht_lock_initialization s = Ret (put_ht (ht (clht s)) ?t (s\<lparr>clht := ?c\<rparr>))"
    using assms(1,3) ht_okD(3)[OF assms(2)] by (simp add: clht_lock_initialization_def)
  ultimately show ?thesis
    using init_locks_table(1-3)[OF assms(2)]
    by (intro exI[of _ "put_ht (ht (clht s)) ?t (s\<lparr>clht := ?c\<rparr>)"] exI[of _ ?t]) (simp add: LOCK_FREE_def)
qed

theorem clht_recover_locks_witness:
  "\<exists>s' t'. clht_lock_initialization locked_example = Ret s' \<and> tables s' 1 = Some t' \<and> all_unlocked t' \<and> ht_map t' 5 = Some 50
     \<and> ht_unlocked t' \<and> resize_lock (clht s') = 0"
proof -
  obtain t where t: "tables locked_example (ht (clht locked_example)) = Some t" "ht_ok t" "num_buckets t = 1" "ht_map t 5 = Some 50"
    "ht (clht locked_example) = 1" by (rule locked_example_table)
  then show ?thesis using clht_recover_locks[of locked_example t] by auto
qed

text \<open>
  C34: The key 0 is not usable: if the bucket it hashes to has a free entry, \<^verbatim>\<open>clht_put\<close>
  takes the entry for the key and returns false without inserting, and \<^verbatim>\<open>clht_get\<close> answers with the
  value a removed key left in the first free entry.
\<close>

theorem clht_zero_key:
  assumes "tables s (ht (clht s)) = Some t" and "(0, w) \<in> set (chain_slots (chain_of t 0))"
  shows "clht_put s 0 v = Ret (False, s)
    \<and> (\<exists>w'. (0, w') \<in> set (chain_slots (chain_of t 0)) \<and> clht_lookup s 0 = w')"
proof
  have z: "0 \<in> fst ` set (chain_slots (chain_of t 0))" using assms(2) by force
  then show "clht_put s 0 v = Ret (False, s)"
    using assms(1) by (simp add: clht_put_def bucket_exists_iff)
  have "map_of (chain_slots (chain_of t 0)) 0 \<noteq> None"
    using z by (simp add: map_of_eq_None_iff)
  then obtain w' where "map_of (chain_slots (chain_of t 0)) 0 = Some w'" by blast
  then show "\<exists>w'. (0, w') \<in> set (chain_slots (chain_of t 0)) \<and> clht_lookup s 0 = w'"
    using assms(1) by (auto simp: clht_lookup_def clht_get_def chain_get_map_of dest: map_of_SomeD)
qed

theorem clht_zero_key_witness: "clht_put clht_example 0 7 = Ret (False, clht_example)"
proof -
  define t where "t = the (tables clht_example (ht (clht clht_example)))"
  have "tables clht_example (ht (clht clht_example)) = Some t"
    by (simp add: t_def clht_example_def clht_create_def clht_hashtable_create_def clht_mem0_def memalign_def
        SIZEOF_BUCKET_def put_ht_def Let_def)
  moreover have "chain_of t 0 = [empty_bucket]"
    by (simp add: t_def clht_example_def clht_create_def clht_hashtable_create_def clht_mem0_def memalign_def
        SIZEOF_BUCKET_def put_ht_def Let_def chain_of_def clht_hash_def)
  then have "(0, 0) \<in> set (chain_slots (chain_of t 0))"
    by (simp add: chain_slots_def empty_bucket_def ENTRIES_PER_BUCKET_def image_constant_conv)
  ultimately show ?thesis using clht_zero_key by blast
qed

end
