(* ===== verification/ClhtGc.thy ===== *)
theory ClhtGc
  imports ClhtStore
begin

text \<open>
  The collection of retired tables, \<^verbatim>\<open>src/RECIPE/P-CLHT/src/clht_gc.c\<close>. A thread announces the version
  of the table it uses in a node of \<^verbatim>\<open>version_list\<close>; \<^verbatim>\<open>clht_gc_collect_cond\<close> walks from the oldest table
  along \<^verbatim>\<open>table_new\<close> and frees the tables whose version is below every announced one. Nodes are named
  by the number of the allocation that created them, the thread-local \<^verbatim>\<open>clht_ts_thread\<close> is an argument.
\<close>

section \<open>Thread registration\<close>

definition clht_gc_thread_init :: "clht_mem \<Rightarrow> int \<Rightarrow> (nat \<times> clht_mem) run" where
  "clht_gc_thread_init s i =
     (let (alloc, s) = memalign s in
      bind_run (assert_run (alloc \<noteq> None) ''clht_alloc != NULL'') (\<lambda>_.
      let (ts, s) = memalign s in
      case ts of
        None \<Rightarrow> Abort ''ts != NULL''
      | Some ts \<Rightarrow>
          bind_run (get_ht s (ht (clht s))) (\<lambda>t.
            let node = \<lparr>ts_version = ht_version t, ts_id = i\<rparr> in
            Ret (ts, s\<lparr>clht := (clht s)\<lparr>version_list := (ts, node) # version_list (clht s)\<rparr>\<rparr>))))"

definition set_ts_version :: "nat \<Rightarrow> u64 \<Rightarrow> clht_mem \<Rightarrow> clht_mem" where
  "set_ts_version ts v s =
     s\<lparr>clht := (clht s)\<lparr>version_list :=
        map (\<lambda>(a, n). (a, if a = ts then n\<lparr>ts_version := v\<rparr> else n)) (version_list (clht s))\<rparr>\<rparr>"

definition clht_gc_thread_version :: "clht_mem \<Rightarrow> nat \<Rightarrow> nat \<Rightarrow> clht_mem run" where
  "clht_gc_thread_version s ts h = bind_run (get_ht s h) (\<lambda>t. Ret (set_ts_version ts (ht_version t) s))"

definition clht_gc_thread_version_max :: "clht_mem \<Rightarrow> nat \<Rightarrow> clht_mem" where
  "clht_gc_thread_version_max s ts = set_ts_version ts (-1) s"

definition clht_gc_get_id :: "clht_mem \<Rightarrow> nat \<Rightarrow> int option" where
  "clht_gc_get_id s ts = map_option ts_id (map_of (version_list (clht s)) ts)"

section \<open>Collection\<close>

fun min_version_loop :: "(nat \<times> ht_ts_t) list \<Rightarrow> u64 \<Rightarrow> u64" where
  "min_version_loop [] m = m"
| "min_version_loop ((_, cur) # rest) m = min_version_loop rest (if ts_version cur < m then ts_version cur else m)"

definition clht_gc_min_version_used :: "clht_mem \<Rightarrow> u64 run" where
  "clht_gc_min_version_used s =
     bind_run (get_ht s (ht (clht s))) (\<lambda>t. Ret (min_version_loop (version_list (clht s)) (ht_version t)))"

text \<open>\<^verbatim>\<open>free\<close> of the overflow buckets, the array and the header: the table is gone from the store.\<close>

definition clht_gc_free :: "clht_mem \<Rightarrow> nat \<Rightarrow> clht_mem run" where
  "clht_gc_free s a =
     bind_run (get_ht s a) (\<lambda>t.
       Ret (s\<lparr>freed := freed s @ release_list a t, tables := (tables s)(a := None)\<rparr>))"

fun collect_loop :: "nat \<Rightarrow> clht_mem \<Rightarrow> nat option \<Rightarrow> u64 \<Rightarrow> int \<Rightarrow> (int \<times> nat option \<times> clht_mem) run" where
  "collect_loop 0 s cur vmin n = OutOfFuel"
| "collect_loop (Suc fuel) s cur vmin n =
     (case cur of
        None \<Rightarrow> Ret (n, None, s)
      | Some a \<Rightarrow>
          bind_run (get_ht s a) (\<lambda>t.
          if \<not> ht_version t < vmin then Ret (n, Some a, s)
          else case table_new t of
            None \<Rightarrow> Abort ''NULL table''
          | Some nxt \<Rightarrow>
              bind_run (get_ht s nxt) (\<lambda>t'.
              bind_run (clht_gc_free (put_ht nxt (t'\<lparr>table_prev := None\<rparr>) s) a) (\<lambda>s.
                collect_loop fuel s (Some nxt) vmin (n + 1)))))"

text \<open>Versions along \<^verbatim>\<open>table_new\<close> grow by one, so \<open>vmin + 1\<close> rounds are enough.\<close>

definition clht_gc_collect_cond :: "clht_mem \<Rightarrow> bool \<Rightarrow> (int \<times> clht_mem) run" where
  "clht_gc_collect_cond s not_referenced_only =
     bind_run (get_ht s (ht (clht s))) (\<lambda>t.
     if ht_version t \<le> version_min (clht s) then Ret (0, s)
     else
       let busy = gc_lock (clht s) \<noteq> 0; s = s\<lparr>clht := (clht s)\<lparr>gc_lock := 255\<rparr>\<rparr> in
       if busy then Ret (0, s)
       else
         bind_run (if not_referenced_only then clht_gc_min_version_used s else Ret (ht_version t)) (\<lambda>vmin.
         if vmin \<le> version_min (clht s) then Ret (0, s\<lparr>clht := (clht s)\<lparr>gc_lock := LOCK_FREE\<rparr>\<rparr>)
         else
           bind_run (collect_loop (Suc (unat vmin)) s (Some (ht_oldest (clht s))) vmin 0) (\<lambda>(n, cur, s).
           case cur of
             None \<Rightarrow> Abort ''NULL table''
           | Some a \<Rightarrow>
               bind_run (get_ht s a) (\<lambda>t'.
                 Ret (n, s\<lparr>clht := (clht s)\<lparr>version_min := ht_version t', ht_oldest := a, gc_lock := LOCK_FREE\<rparr>\<rparr>)))))"

definition clht_gc_collect_all :: "clht_mem \<Rightarrow> (int \<times> clht_mem) run" where
  "clht_gc_collect_all s = clht_gc_collect_cond s False"

text \<open>All versions, then the table in use; the handle itself is freed by the caller's \<^verbatim>\<open>free(hashtable)\<close>.\<close>

definition clht_gc_destroy :: "clht_mem \<Rightarrow> clht_mem run" where
  "clht_gc_destroy s =
     bind_run (clht_gc_collect_all s) (\<lambda>(_, s). clht_gc_free s (ht (clht s)))"

section \<open>The chain of versions\<close>

text \<open>
  \<open>versions s a as\<close>: the tables \<open>as\<close> follow \<open>a\<close> along \<^verbatim>\<open>table_new\<close>, with consecutive version numbers, up
  to the table in use.
\<close>

fun versions :: "clht_mem \<Rightarrow> nat \<Rightarrow> nat list \<Rightarrow> bool" where
  "versions s a [] \<longleftrightarrow> tables s a \<noteq> None \<and> a = ht (clht s)"
| "versions s a (b # bs) \<longleftrightarrow> a \<noteq> ht (clht s) \<and> a \<notin> set (b # bs)
     \<and> (\<exists>t t'. tables s a = Some t \<and> tables s b = Some t' \<and> table_new t = Some b
          \<and> unat (ht_version t') = Suc (unat (ht_version t))) \<and> versions s b bs"

definition version_of :: "clht_mem \<Rightarrow> nat \<Rightarrow> nat" where
  "version_of s a = (case tables s a of Some t \<Rightarrow> unat (ht_version t) | None \<Rightarrow> 0)"

lemma min_version_loop_min:
  "unat (min_version_loop l m) = fold min (map (\<lambda>x. unat (ts_version (snd x))) l) (unat m)"
proof (induction l m rule: min_version_loop.induct)
  case (2 u cur rest m)
  then show ?case by (auto simp: word_less_nat_alt min_def)
qed simp

lemma fold_min_le: "fold min l (m::nat) \<le> m \<and> (\<forall>x \<in> set l. fold min l m \<le> x)"
proof (induction l arbitrary: m)
  case (Cons a l)
  have "fold min l (min a m) \<le> min a m" "\<forall>x \<in> set l. fold min l (min a m) \<le> x" using Cons by blast+
  then show ?case by simp
qed simp

text \<open>Freeing the first table of the chain keeps the rest.\<close>

lemma versions_drop:
  assumes "versions s b bs" and "a \<notin> set (b # bs)" and "a \<noteq> ht (clht s)"
    and "tables s' = (tables s)(b \<mapsto> t'\<lparr>table_prev := None\<rparr>, a := None)" and "tables s b = Some t'" and "clht s' = clht s"
  shows "versions s' b bs"
proof -
  have keep: "versions s' x xs" if "versions s x xs" "a \<notin> set (x # xs)" for x xs
    using that
  proof (induction xs arbitrary: x)
    case Nil
    then show ?case using assms by auto
  next
    case (Cons y ys)
    then obtain t u where t: "tables s x = Some t" "tables s y = Some u" "table_new t = Some y"
      "unat (ht_version u) = Suc (unat (ht_version t))" by auto
    have "\<exists>t2. tables s' z = Some t2 \<and> ht_version t2 = ht_version w \<and> table_new t2 = table_new w"
      if "tables s z = Some w" "z \<noteq> a" for z w
      using that assms(4,5) by (cases "z = b") auto
    then obtain t2 u2 where "tables s' x = Some t2" "ht_version t2 = ht_version t" "table_new t2 = table_new t"
      "tables s' y = Some u2" "ht_version u2 = ht_version u"
      using t Cons.prems(2) by (metis list.set_intros(1,2))
    then show ?case using Cons t assms(6) by auto
  qed
  then show ?thesis using assms(1,2) by blast
qed

lemma version_of_frame:
  assumes "tables s' = (tables s)(b \<mapsto> t'\<lparr>table_prev := None\<rparr>, a := None)" "tables s b = Some t'" "x \<noteq> a"
  shows "version_of s' x = version_of s x"
  using assms by (auto simp: version_of_def)

lemma versions_ge:
  assumes "versions s a as" "x \<in> set (a # as)"
  shows "version_of s a \<le> version_of s x"
  using assms
proof (induction as arbitrary: a)
  case (Cons b bs)
  then show ?case by (fastforce simp: version_of_def)
qed simp

lemma versions_Some: "versions s a as \<Longrightarrow> x \<in> set (a # as) \<Longrightarrow> tables s x \<noteq> None"
  by (induction as arbitrary: a) auto

lemma release_list_prev [simp]: "release_list a (t\<lparr>table_prev := p\<rparr>) = release_list a t"
  by (simp add: release_list_def)

definition table_objs :: "clht_mem \<Rightarrow> nat \<Rightarrow> clht_obj list" where
  "table_objs s a = (case tables s a of Some t \<Rightarrow> release_list a t | None \<Rightarrow> [])"

definition collected :: "clht_mem \<Rightarrow> nat \<Rightarrow> nat list \<Rightarrow> u64 \<Rightarrow> nat \<Rightarrow> clht_mem \<Rightarrow> bool" where
  "collected s a as vmin k s' \<longleftrightarrow> k \<le> length as \<and> clht s' = clht s \<and> released s' = released s
     \<and> versions s' ((a # as) ! k) (drop k as)
     \<and> freed s' = freed s @ concat (map (table_objs s) (take k (a # as)))
     \<and> (\<forall>x \<in> set (a # as). tables s' x = None \<longleftrightarrow> version_of s x < unat vmin)
     \<and> (\<forall>x. x \<notin> set (a # as) \<longrightarrow> tables s' x = tables s x)"

lemma collect_loop_post:
  assumes "versions s a as" "unat vmin \<le> version_of s (ht (clht s))" "unat vmin < fuel + version_of s a" "0 < fuel"
  shows "\<exists>k s'. collect_loop fuel s (Some a) vmin n = Ret (n + int k, Some ((a # as) ! k), s') \<and> collected s a as vmin k s'"
  using assms
proof (induction as arbitrary: s a n fuel)
  case Nil
  then obtain t f where t: "tables s a = Some t" "a = ht (clht s)" "fuel = Suc f" by (cases fuel) auto
  then have "\<not> ht_version t < vmin" using Nil.prems(2) by (auto simp: version_of_def word_less_nat_alt)
  then show ?case using t Nil.prems(2) by (auto simp: collected_def version_of_def intro!: exI[of _ 0])
next
  case (Cons b bs)
  obtain t t' where t: "tables s a = Some t" "tables s b = Some t'" "table_new t = Some b"
    "unat (ht_version t') = Suc (unat (ht_version t))" and v: "versions s b bs"
    and a: "a \<noteq> ht (clht s)" "a \<notin> set (b # bs)" using Cons.prems(1) by auto
  obtain f where f: "fuel = Suc f" using Cons.prems(4) by (cases fuel) auto
  show ?case
  proof (cases "ht_version t < vmin")
    case False
    have "tables s x \<noteq> None \<and> \<not> version_of s x < unat vmin" if "x \<in> set (a # b # bs)" for x
      using versions_ge[OF Cons.prems(1) that] versions_Some[OF Cons.prems(1) that] False t(1)
      by (auto simp: version_of_def word_less_nat_alt)
    then have "collected s a (b # bs) vmin 0 s" using Cons.prems(1) by (simp add: collected_def)
    then show ?thesis using False t(1) f by (auto intro!: exI[of _ 0])
  next
    case True
    let ?s = "s\<lparr>freed := freed s @ release_list a t, tables := (tables s)(b \<mapsto> t'\<lparr>table_prev := None\<rparr>, a := None)\<rparr>"
    have tab: "tables ?s = (tables s)(b \<mapsto> t'\<lparr>table_prev := None\<rparr>, a := None)" by simp
    have v': "versions ?s b bs" by (rule versions_drop[OF v a(2,1) tab t(2)]) simp
    note vo = version_of_frame[OF tab t(2)]
    have "unat vmin \<le> version_of ?s (ht (clht ?s))" using Cons.prems(2) vo[of "ht (clht s)"] a(1) by simp
    moreover have "b \<noteq> a" using a(2) by auto
    moreover have "unat vmin < f + version_of ?s b" "0 < f"
      using Cons.prems(3) f t True vo[of b] \<open>b \<noteq> a\<close> by (auto simp: version_of_def word_less_nat_alt)
    ultimately obtain k s' where k: "collect_loop f ?s (Some b) vmin (n + 1) = Ret (n + 1 + int k, Some ((b # bs) ! k), s')"
      "collected ?s b bs vmin k s'"
      using Cons.IH[OF v'] by blast
    have eq: "table_objs ?s x = table_objs s x" if "x \<noteq> a" for x
      using that t(2) by (auto simp: table_objs_def)
    have mp: "map (table_objs ?s) (take k (b # bs)) = map (table_objs s) (take k (b # bs))"
    proof (intro map_cong refl eq)
      fix x assume "x \<in> set (take k (b # bs))"
      then have "x \<in> set (b # bs)" by (rule in_set_takeD)
      then show "x \<noteq> a" using a(2) by blast
    qed
    have c: "k \<le> length bs" "clht s' = clht s \<and> released s' = released s" "versions s' ((b # bs) ! k) (drop k bs)"
      "freed s' = freed s @ concat (map (table_objs s) (take (Suc k) (a # b # bs)))"
      "\<forall>x \<in> set (b # bs). tables s' x = None \<longleftrightarrow> version_of ?s x < unat vmin"
      "\<forall>x. x \<notin> set (b # bs) \<longrightarrow> tables s' x = tables ?s x"
      using k(2) t(1) unfolding collected_def mp by (simp_all add: table_objs_def[of s a])
    have "collected s a (b # bs) vmin (Suc k) s'"
      unfolding collected_def
    proof (intro conjI ballI allI impI)
      fix x assume x: "x \<in> set (a # b # bs)"
      show "tables s' x = None \<longleftrightarrow> version_of s x < unat vmin"
      proof (cases "x = a")
        case True
        then show ?thesis
          using c(6) a(2) t(1) \<open>ht_version t < vmin\<close> by (simp add: version_of_def word_less_nat_alt)
      next
        case False
        then have "x \<in> set (b # bs)" using x by simp
        from c(5)[rule_format, OF this] vo[OF False] show ?thesis by simp
      qed
    next
      fix x assume "x \<notin> set (a # b # bs)"
      then show "tables s' x = tables s x" using c(6) by simp
    qed (use c in auto)
    moreover have "collect_loop fuel s (Some a) vmin n = Ret (n + int (Suc k), Some ((a # b # bs) ! Suc k), s')"
      using k(1) t True f \<open>b \<noteq> a\<close> by (simp add: clht_gc_free_def put_ht_def fun_upd_twist algebra_simps)
    ultimately show ?thesis by blast
  qed
qed

text \<open>The least version a collection has to keep.\<close>

definition keep_from :: "clht_mem \<Rightarrow> bool \<Rightarrow> nat" where
  "keep_from s only = (if only then fold min (map (\<lambda>x. unat (ts_version (snd x))) (version_list (clht s))) (version_of s (ht (clht s)))
     else version_of s (ht (clht s)))"

lemma keep_from_le: "keep_from s only \<le> version_of s (ht (clht s))"
  using fold_min_le by (simp add: keep_from_def)

lemma versions_current: "versions s a as \<Longrightarrow> ht (clht s) \<in> set (a # as)"
  by (induction as arbitrary: a) auto

definition versions_ok :: "clht_mem \<Rightarrow> nat list \<Rightarrow> bool" where
  "versions_ok s as \<longleftrightarrow> versions s (ht_oldest (clht s)) as
     \<and> version_of s (ht_oldest (clht s)) = unat (version_min (clht s)) \<and> gc_lock (clht s) = 0"

lemma versions_cong:
  "tables s' = tables s \<Longrightarrow> ht (clht s') = ht (clht s) \<Longrightarrow> versions s' a as = versions s a as"
  by (induction as arbitrary: a) auto

lemma version_of_cong: "tables s' = tables s \<Longrightarrow> version_of s' = version_of s"
  by (simp add: version_of_def fun_eq_iff)

lemma collect_cond_post:
  assumes ok: "versions_ok s as"
  shows "\<exists>k s'. clht_gc_collect_cond s only = Ret (int k, s') \<and> versions_ok s' (drop k as)
    \<and> ht (clht s') = ht (clht s) \<and> released s' = released s \<and> ht_oldest (clht s') = (ht_oldest (clht s) # as) ! k
    \<and> freed s' = freed s @ concat (map (table_objs s) (take k (ht_oldest (clht s) # as)))
    \<and> (\<forall>x \<in> set (ht_oldest (clht s) # as). tables s' x = None \<longleftrightarrow> version_of s x < keep_from s only)"
proof -
  let ?a = "ht_oldest (clht s)" and ?h = "ht (clht s)"
  have v: "versions s ?a as" "version_of s ?a = unat (version_min (clht s))" "gc_lock (clht s) = 0"
    using ok by (auto simp: versions_ok_def)
  obtain t where t: "tables s ?h = Some t" using versions_current[OF v(1)] versions_Some[OF v(1)] by blast
  have cur: "version_of s ?h = unat (ht_version t)" using t by (simp add: version_of_def)
  have none: "tables s x = None \<longleftrightarrow> version_of s x < keep_from s only"
    if "keep_from s only \<le> unat (version_min (clht s))" "x \<in> set (?a # as)" for x
    using versions_ge[OF v(1) that(2)] versions_Some[OF v(1) that(2)] that(1) v(2) by auto
  show ?thesis
  proof (cases "ht_version t \<le> version_min (clht s)")
    case True
    then have "keep_from s only \<le> unat (version_min (clht s))"
      using keep_from_le[of s only] cur by (simp add: word_le_nat_alt)
    from none[OF this] have "\<forall>x \<in> set (?a # as). tables s x = None \<longleftrightarrow> version_of s x < keep_from s only" by blast
    moreover have "clht_gc_collect_cond s only = Ret (0, s)" using True t by (simp add: clht_gc_collect_cond_def)
    ultimately show ?thesis using ok by (intro exI[of _ 0] exI[of _ s]) simp
  next
    case False
    let ?s = "s\<lparr>clht := (clht s)\<lparr>gc_lock := 255\<rparr>\<rparr>"
    define vmin where "vmin = (if only then min_version_loop (version_list (clht s)) (ht_version t) else ht_version t)"
    have vmin: "unat vmin = keep_from s only"
      using cur by (simp add: vmin_def keep_from_def min_version_loop_min)
    have get: "(if only then clht_gc_min_version_used ?s else Ret (ht_version t)) = Ret vmin"
      using t by (simp add: vmin_def clht_gc_min_version_used_def)
    show ?thesis
    proof (cases "vmin \<le> version_min (clht s)")
      case True
      let ?f = "s\<lparr>clht := (clht s)\<lparr>gc_lock := LOCK_FREE\<rparr>\<rparr>"
      from True have "keep_from s only \<le> unat (version_min (clht s))" using vmin by (simp add: word_le_nat_alt)
      from none[OF this] have "\<forall>x \<in> set (?a # as). tables s x = None \<longleftrightarrow> version_of s x < keep_from s only" by blast
      moreover have "versions_ok ?f as"
        using v versions_cong[of ?f s ?a as] version_of_cong[of ?f s] by (simp add: versions_ok_def LOCK_FREE_def)
      moreover have "clht_gc_collect_cond s only = Ret (0, ?f)"
        using True False t v(3) get by (simp add: clht_gc_collect_cond_def Let_def)
      ultimately show ?thesis by (intro exI[of _ 0] exI[of _ ?f]) simp
    next
      case go: False
      have v': "versions ?s ?a as" "version_of ?s = version_of s"
        using v(1) by (simp_all add: versions_cong[of ?s s] version_of_cong[of ?s s])
      obtain k s' where k: "collect_loop (Suc (unat vmin)) ?s (Some ?a) vmin 0 = Ret (0 + int k, Some ((?a # as) ! k), s')"
        "collected ?s ?a as vmin k s'"
        using collect_loop_post[OF v'(1), of vmin "Suc (unat vmin)" 0] keep_from_le[of s only] vmin v'(2) by auto
      let ?b = "(?a # as) ! k"
      have c: "k \<le> length as" "clht s' = clht ?s \<and> released s' = released s" "versions s' ?b (drop k as)"
        "freed s' = freed s @ concat (map (table_objs s) (take k (?a # as)))"
        "\<forall>x \<in> set (?a # as). tables s' x = None \<longleftrightarrow> version_of s x < unat vmin"
        using k(2) v'(2) by (simp_all add: collected_def table_objs_def[abs_def])
      obtain t' where t': "tables s' ?b = Some t'" using versions_Some[OF c(3)] by auto
      let ?f = "s'\<lparr>clht := (clht s')\<lparr>version_min := ht_version t', ht_oldest := ?b, gc_lock := LOCK_FREE\<rparr>\<rparr>"
      have "versions_ok ?f (drop k as)"
        using c(3) t' versions_cong[of ?f s' ?b "drop k as"] by (simp add: versions_ok_def version_of_def LOCK_FREE_def)
      moreover have "clht_gc_collect_cond s only = Ret (int k, ?f)"
        using False go t v(3) get k(1) t' by (simp add: clht_gc_collect_cond_def Let_def)
      ultimately show ?thesis using c vmin by (intro exI[of _ k] exI[of _ ?f]) simp
    qed
  qed
qed

lemma less_fold_min: "x < fold min l (m::nat) \<longleftrightarrow> x < m \<and> (\<forall>y \<in> set l. x < y)"
  by (induction l arbitrary: m) auto

section \<open>A chain of two tables\<close>

definition gc_table :: "nat \<Rightarrow> u64 \<Rightarrow> nat option \<Rightarrow> clht_hashtable_t" where
  "gc_table n v nxt = \<lparr>num_buckets = n, table = replicate n [empty_bucket], hash = word_of_nat n - 1,
     ht_version = v, table_tmp = None, table_prev = None, table_new = nxt, num_expands = 0,
     num_expands_threshold = word_of_nat n, is_helper = 1, helper_done = 0\<rparr>"

definition gc_example :: clht_mem where
  "gc_example = clht_mem0\<lparr>tables := [1 \<mapsto> gc_table 1 0 (Some 3), 3 \<mapsto> gc_table 2 1 None], nalloc := 5,
     clht := (clht clht_mem0)\<lparr>ht := 3, ht_oldest := 1,
       version_list := [(4, \<lparr>ts_version = 1, ts_id = 0\<rparr>)]\<rparr>\<rparr>"

lemma gc_example_ok: "versions_ok gc_example [3]"
  by (simp add: versions_ok_def version_of_def gc_example_def gc_table_def clht_mem0_def)

section \<open>Properties\<close>

text \<open>
  C29: A collection of unreferenced versions frees exactly the tables older than the table in
  use and older than every version a registered thread has announced; so no thread loses the table it
  works on. It returns their number, and the chain from the oldest kept table to the table in use is
  intact.
\<close>

theorem clht_gc_safe:
  assumes "versions_ok s as"
  shows "\<exists>k s'. clht_gc_collect_cond s True = Ret (int k, s') \<and> versions_ok s' (drop k as)
    \<and> freed s' = freed s @ concat (map (table_objs s) (take k (ht_oldest (clht s) # as)))
    \<and> (\<forall>x \<in> set (ht_oldest (clht s) # as). tables s' x = None \<longleftrightarrow>
         version_of s x < version_of s (ht (clht s))
         \<and> (\<forall>n \<in> set (version_list (clht s)). version_of s x < unat (ts_version (snd n))))"
proof -
  have "x < keep_from s True \<longleftrightarrow> x < version_of s (ht (clht s))
      \<and> (\<forall>n \<in> set (version_list (clht s)). x < unat (ts_version (snd n)))" for x
    by (simp add: keep_from_def less_fold_min)
  note eq = this
  from collect_cond_post[OF assms, of True] show ?thesis unfolding eq by blast
qed

theorem clht_gc_safe_witness:
  "\<exists>k s'. clht_gc_collect_cond gc_example True = Ret (int k, s') \<and> tables s' 1 = None \<and> tables s' 3 \<noteq> None"
proof -
  have "version_of gc_example 1 = 0" "version_of gc_example 3 = 1" "ht (clht gc_example) = 3"
    "ht_oldest (clht gc_example) = 1" "version_list (clht gc_example) = [(4, \<lparr>ts_version = 1, ts_id = 0\<rparr>)]"
    by (simp_all add: version_of_def gc_example_def gc_table_def)
  then show ?thesis using clht_gc_safe[OF gc_example_ok] by auto
qed

text \<open>
  C35: A resize hands the header of the table it replaces to \<^verbatim>\<open>ssmem_release\<close> (the
  branch for \<^verbatim>\<open>CLHT_DO_GC == 0\<close>), but leaves the table on the chain that starts at \<^verbatim>\<open>ht_oldest\<close>; the
  next \<^verbatim>\<open>clht_gc_collect_all\<close>, which \<^verbatim>\<open>clht_gc_destroy\<close> calls, frees the same header again.
\<close>

theorem clht_double_release:
  assumes "tables s a = Some t" "tables s a' = Some t'" "a \<noteq> a'" "ht_oldest (clht s) = a" "gc_lock (clht s) = 0"
    and "version_min (clht s) = 0" "ht_version t = 0" "ht_version t' = 1"
  shows "\<exists>again s' n s''. ht_resize_swap s a a' = Ret (again, s') \<and> OHeader a \<in> set (released s')
    \<and> clht_gc_collect_all s' = Ret (n, s'') \<and> OHeader a \<in> set (released s'') \<and> OHeader a \<in> set (freed s'')"
proof -
  let ?t = "t\<lparr>table_new := Some a'\<rparr>" and ?t' = "t'\<lparr>table_prev := Some a\<rparr>"
  let ?s = "s\<lparr>tables := (tables s)(a' \<mapsto> ?t', a \<mapsto> ?t), clht := (clht s)\<lparr>ht := a', resize_lock := LOCK_FREE\<rparr>,
     released := released s @ release_list a ?t\<rparr>"
  have swap: "ht_resize_swap s a a' = Ret (Some (num_expands_threshold t' \<le> num_expands t'), ?s)"
    using assms(1-3) by (simp add: ht_resize_swap_def put_ht_def clht_gc_release_def Let_def)
  have "versions_ok ?s [a']"
    using assms by (auto simp: versions_ok_def version_of_def)
  from collect_cond_post[OF this, of False]
  obtain k s'' where c: "clht_gc_collect_cond ?s False = Ret (int k, s'')" "versions_ok s'' (drop k [a'])"
    "ht_oldest (clht s'') = [a, a'] ! k" "released s'' = released ?s"
    "freed s'' = freed s @ concat (map (table_objs ?s) (take k [a, a']))"
    "tables s'' a = None \<longleftrightarrow> version_of ?s a < keep_from ?s False"
    using assms(4) by auto
  have "tables s'' a = None" using c(6) assms by (simp add: keep_from_def version_of_def)
  moreover have "tables s'' ([a, a'] ! k) \<noteq> None"
    using c(2) versions_Some[of s'' "[a, a'] ! k"] unfolding versions_ok_def c(3) by auto
  ultimately have "k \<noteq> 0" by (metis nth_Cons_0)
  then obtain j where "k = Suc j" by (cases k) auto
  then have "OHeader a \<in> set (freed s'')"
    using c(5) assms(3) by (simp add: table_objs_def release_list_def)
  then show ?thesis
    using swap c(1,4) by (auto simp: clht_gc_collect_all_def release_list_def)
qed

theorem clht_double_release_witness:
  "\<exists>again s' n s''. ht_resize_swap (gc_example\<lparr>clht := (clht gc_example)\<lparr>ht := 1\<rparr>\<rparr>) 1 3 = Ret (again, s')
    \<and> OHeader 1 \<in> set (released s') \<and> clht_gc_collect_all s' = Ret (n, s'') \<and> OHeader 1 \<in> set (freed s'')"
  using clht_double_release[of "gc_example\<lparr>clht := (clht gc_example)\<lparr>ht := 1\<rparr>\<rparr>" 1 "gc_table 1 0 (Some 3)" 3 "gc_table 2 1 None"]
  by (auto simp: gc_example_def gc_table_def clht_mem0_def)

end
