(* ===== verification/ClhtHelp.thy ===== *)
theory ClhtHelp
  imports ClhtGc
begin

text \<open>
  Helping with a resize. While the resizer copies the bins of the old table in ascending order, one thread that finds a
  bucket locked for resizing runs \<^verbatim>\<open>ht_resize_help\<close> and copies them in descending order; each stops at the first bucket the
  other has locked, and the resizer then waits for the helper to finish.

  The threads interleave in small steps: taking the lock of a bucket, reading the chain of the new table that an entry goes to,
  and writing the entry (or linking a new bucket) at the place found by that reading. The writes to the new table take no lock.
  They do not get in each other's way because the new table is at least as large as the old one and both sizes are
  powers of two, so that entries of different old bins go to different new bins.
\<close>

section \<open>The two threads\<close>

datatype copy_pc =
    CIdle
  | CLoop nat
  | CCopy nat "(u64 \<times> u64) list"
  | CStore nat u64 u64 nat chain "(u64 \<times> u64) list"
  | CEnd
  | CWait
  | CDone

record copy_run =
  cr_mem :: clht_mem
  r_pc :: copy_pc
  h_pc :: copy_pc

text \<open>\<^verbatim>\<open>LOCK_ACQ_RES\<close> on a bucket; when it is taken, the entries of its chain, which now only this thread touches.\<close>

definition lock_bin :: "clht_mem \<Rightarrow> nat \<Rightarrow> nat \<Rightarrow> ((u64 \<times> u64) list option \<times> clht_mem) run" where
  "lock_bin s a b =
     bind_run (get_ht s a) (\<lambda>t.
     bind_run (lock_acq_resize (chain_lock (table t ! b))) (\<lambda>(r, l).
       if r = 0 then Ret (None, s)
       else Ret (Some (chain_slots (table t ! b)), put_ht a (set_chain b (set_chain_lock l (table t ! b)) t) s)))"

text \<open>
  \<^verbatim>\<open>clht_put_seq\<close> in two parts: the chain is read, later the entry is written where that reading found a place. A bucket
  linked in the meantime behind the last one that was read would be lost.
\<close>

definition seq_load :: "clht_mem \<Rightarrow> nat \<Rightarrow> u64 \<Rightarrow> (nat \<times> chain) run" where
  "seq_load s a key = bind_run (get_ht s a) (\<lambda>t. let bin = unat (clht_hash t key) in Ret (bin, table t ! bin))"

definition seq_store :: "clht_mem \<Rightarrow> nat \<Rightarrow> u64 \<Rightarrow> u64 \<Rightarrow> nat \<Rightarrow> chain \<Rightarrow> clht_mem run" where
  "seq_store s a key v bin c =
     (case seq_slot c 0 of
        Some (d, j) \<Rightarrow>
          bind_run (get_ht s a) (\<lambda>t. Ret (put_ht a (set_chain bin (write_slot (table t ! bin) d j key v) t) s))
      | None \<Rightarrow>
          bind_run (clht_bucket_create_stats s a) (\<lambda>(nb, _, s).
          case nb of
            None \<Rightarrow> Abort ''NULL bucket''
          | Some b \<Rightarrow>
              bind_run (get_ht s a) (\<lambda>t.
                let b = b\<lparr>b_val := (b_val b)[0 := v], b_key := (b_key b)[0 := key]\<rparr> in
                Ret (put_ht a (set_chain bin (take (length c) (table t ! bin) @ [b]) t) s))))"

text \<open>The copying of one bin, \<^verbatim>\<open>bucket_cpy\<close> after the lock; \<open>next\<close> is where the loop around it goes on.\<close>

fun copy_part :: "nat \<Rightarrow> (nat \<Rightarrow> copy_pc) \<Rightarrow> copy_pc \<Rightarrow> clht_mem \<Rightarrow> (copy_pc \<times> clht_mem) run" where
  "copy_part a_new next (CCopy b []) s = Ret (next b, s)"
| "copy_part a_new next (CCopy b ((key, v) # es)) s =
     (if key \<noteq> 0 then bind_run (seq_load s a_new key) (\<lambda>(bin, c). Ret (CStore b key v bin c es, s)) else Ret (CCopy b es, s))"
| "copy_part a_new next (CStore b key v bin c es) s =
     bind_run (seq_store s a_new key v bin c) (\<lambda>s. Ret (CCopy b es, s))"
| "copy_part a_new next pc s = Ret (pc, s)"

text \<open>The loop of \<^verbatim>\<open>ht_resize_pes\<close> for a growing table and the wait behind it.\<close>

fun resizer_act :: "nat \<Rightarrow> nat \<Rightarrow> nat \<Rightarrow> copy_pc \<Rightarrow> clht_mem \<Rightarrow> (copy_pc \<times> clht_mem) run" where
  "resizer_act a a_new n (CLoop b) s =
     (if b < n
      then bind_run (lock_bin s a b) (\<lambda>(es, s). Ret (case es of None \<Rightarrow> CEnd | Some es \<Rightarrow> CCopy b es, s))
      else Ret (CEnd, s))"
| "resizer_act a a_new n CEnd s =
     bind_run (get_ht s a) (\<lambda>t. Ret (if is_helper t \<noteq> 1 then CWait else CDone, s))"
| "resizer_act a a_new n CWait s =
     bind_run (get_ht s a) (\<lambda>t. Ret (if helper_done t \<noteq> 1 then CWait else CDone, s))"
| "resizer_act a a_new n pc s = copy_part a_new (\<lambda>b. CLoop (Suc b)) pc s"

text \<open>\<^verbatim>\<open>ht_resize_help\<close>; \<open>CLoop m\<close>: the bins from \<open>m\<close> on are behind it.\<close>

fun helper_act :: "nat \<Rightarrow> nat \<Rightarrow> copy_pc \<Rightarrow> clht_mem \<Rightarrow> (copy_pc \<times> clht_mem) run" where
  "helper_act a a_new CIdle s =
     bind_run (get_ht s a) (\<lambda>t.
       Ret (if sint (is_helper t) \<le> 0 then CDone else CLoop (nat (sint (ucast (hash t) :: u32) + 1)),
            put_ht a (t\<lparr>is_helper := is_helper t - 1\<rparr>) s))"
| "helper_act a a_new (CLoop m) s =
     (if m = 0 then Ret (CEnd, s)
      else bind_run (lock_bin s a (m - 1)) (\<lambda>(es, s). Ret (case es of None \<Rightarrow> CEnd | Some es \<Rightarrow> CCopy (m - 1) es, s)))"
| "helper_act a a_new CEnd s = bind_run (get_ht s a) (\<lambda>t. Ret (CDone, put_ht a (t\<lparr>helper_done := 1\<rparr>) s))"
| "helper_act a a_new pc s = copy_part a_new CLoop pc s"

inductive copy_step :: "nat \<Rightarrow> nat \<Rightarrow> nat \<Rightarrow> copy_run \<Rightarrow> copy_run \<Rightarrow> bool" for a a' n where
  resizer: "resizer_act a a' n (r_pc c) (cr_mem c) = Ret (pc, s) \<Longrightarrow> copy_step a a' n c (c\<lparr>cr_mem := s, r_pc := pc\<rparr>)"
| helper: "helper_act a a' (h_pc c) (cr_mem c) = Ret (pc, s) \<Longrightarrow> copy_step a a' n c (c\<lparr>cr_mem := s, h_pc := pc\<rparr>)"

inductive copy_reach :: "nat \<Rightarrow> nat \<Rightarrow> nat \<Rightarrow> copy_run \<Rightarrow> copy_run \<Rightarrow> bool" for a a' n c where
  start: "copy_reach a a' n c c"
| step: "copy_reach a a' n c d \<Longrightarrow> copy_step a a' n d e \<Longrightarrow> copy_reach a a' n c e"

definition copy_start :: "clht_mem \<Rightarrow> copy_run" where
  "copy_start s = \<lparr>cr_mem = s, r_pc = CLoop 0, h_pc = CIdle\<rparr>"

section \<open>No two bins meet\<close>

lemma hash_grow:
  assumes "ht_ok t" "ht_ok t'" "num_buckets t = 2 ^ i" "num_buckets t' = 2 ^ j" "i \<le> j"
    and "clht_hash t' k = clht_hash t' k'"
  shows "clht_hash t k = clht_hash t k'"
proof -
  have hash: "unat (clht_hash x q) = unat q mod 2 ^ l" if "ht_ok x" "num_buckets x = 2 ^ l" for x q l
  proof -
    have "hash x = mask l" using ht_okD(4)[OF that(1)] that(2) by (simp add: mask_eq_exp_minus_1)
    then have "clht_hash x q = take_bit l q" by (simp add: clht_hash_def take_bit_eq_mask)
    then show ?thesis by (metis take_bit_eq_mod unsigned_take_bit_eq)
  qed
  have "unat (clht_hash t' q) mod num_buckets t = unat (clht_hash t q)" for q
    using hash[OF assms(1,3)] hash[OF assms(2,4)] assms(3,5)
    by (simp add: mod_mod_cancel le_imp_power_dvd)
  then show ?thesis using assms(6) by (metis unat_eqD)
qed

lemma seq_store_put:
  assumes "tables s a = Some t" "table t ! bin = c"
  shows "seq_store s a k v bin c = clht_put_seq s a k v bin"
proof (cases "seq_slot c 0")
  case None
  have "table t' ! bin = c" if "clht_bucket_create_stats s a = Ret (x, y, s')" "tables s' a = Some t'" for x y s' t'
    using that assms by (auto simp: clht_bucket_create_stats_def clht_bucket_create_def memalign_def Let_def split: if_splits)
  then have "take (length c) (table t' ! bin) = table t' ! bin"
    if "clht_bucket_create_stats s a = Ret (x, y, s')" "tables s' a = Some t'" for x y s' t'
    using that by (metis order_refl take_all)
  then have "bind_run (get_ht s' a) (\<lambda>t. let b = b\<lparr>b_val := (b_val b)[0 := v], b_key := (b_key b)[0 := k]\<rparr> in
        Ret (put_ht a (set_chain bin (take (length c) (table t ! bin) @ [b]) t) s')) =
      bind_run (get_ht s' a) (\<lambda>t. let b = b\<lparr>b_val := (b_val b)[0 := v], b_key := (b_key b)[0 := k]\<rparr> in
        Ret (put_ht a (set_chain bin (table t ! bin @ [b]) t) s'))"
    if "clht_bucket_create_stats s a = Ret (x, y, s')" for x y s' b
    using that by (cases "tables s' a") (auto simp: get_ht_def)
  then show ?thesis
    using assms None unfolding seq_store_def clht_put_seq_def
    by (cases "clht_bucket_create_stats s a") (auto split: option.splits)
qed (use assms in \<open>auto simp: seq_store_def clht_put_seq_def\<close>)

lemma put_seq_other:
  assumes "clht_put_seq s a k v bin = Ret s'" "tables s a = Some t"
  shows "\<exists>t'. tables s' = (tables s)(a \<mapsto> t') \<and> (\<forall>i. i \<noteq> bin \<longrightarrow> table t' ! i = table t ! i)"
  using assms
  by (auto simp: clht_put_seq_def clht_bucket_create_stats_def clht_bucket_create_def memalign_def Let_def set_chain_def put_ht_def
      split: option.splits prod.splits if_splits)

section \<open>Copying one bin\<close>

text \<open>The entries a thread has still to copy, the old bin it works on, and what it knows of the new table.\<close>

fun pend :: "copy_pc \<Rightarrow> (u64 \<times> u64) list" where
  "pend (CCopy b es) = live es"
| "pend (CStore b k v bin c es) = (k, v) # live es"
| "pend _ = []"

fun bin_of :: "copy_pc \<Rightarrow> nat option" where
  "bin_of (CCopy b es) = Some b"
| "bin_of (CStore b k v bin c es) = Some b"
| "bin_of _ = None"

fun part_ok :: "clht_hashtable_t \<Rightarrow> clht_hashtable_t \<Rightarrow> copy_pc \<Rightarrow> bool" where
  "part_ok t t' (CCopy b es) \<longleftrightarrow> b < num_buckets t \<and> set (live es) \<subseteq> set (chain_live (table t ! b))"
| "part_ok t t' (CStore b k v bin c es) \<longleftrightarrow> b < num_buckets t \<and> set ((k, v) # live es) \<subseteq> set (chain_live (table t ! b)) \<and>
     k \<noteq> 0 \<and> bin = unat (clht_hash t' k) \<and> table t' ! bin = c"
| "part_ok t t' pc \<longleftrightarrow> True"

definition left_over :: "(u64 \<times> u64) list \<Rightarrow> copy_pc \<Rightarrow> copy_pc \<Rightarrow> (u64 \<times> u64) list" where
  "left_over es p q = es @ pend p @ pend q"

lemma chain_live_bin:
  "ht_ok t \<Longrightarrow> b < num_buckets t \<Longrightarrow> e \<in> set (chain_live (table t ! b)) \<Longrightarrow> unat (clht_hash t (fst e)) = b"
  using ht_okD(7) by (auto simp: hashes_to_def)

lemma live_subset_ht:
  assumes "ht_ok t" "b < num_buckets t"
  shows "set (chain_live (table t ! b)) \<subseteq> set (ht_live t)"
proof -
  have "table t ! b \<in> set (table t)" using assms ht_okD(3)[OF assms(1)] by simp
  then show ?thesis unfolding ht_live_def by auto
qed

text \<open>A write of one thread leaves the chain the other thread has read alone.\<close>

lemma part_ok_other:
  assumes t: "ht_ok t" "ht_ok t'" "num_buckets t = 2 ^ i" "num_buckets t' = 2 ^ j" "i \<le> j" and q: "part_ok t t' q"
    and k: "(k, v) \<in> set (chain_live (table t ! b))" "b < num_buckets t" "bin_of q \<noteq> Some b"
    and t2: "\<forall>l. l \<noteq> unat (clht_hash t' k) \<longrightarrow> table t2 ! l = table t' ! l" "hash t2 = hash t'"
  shows "part_ok t t2 q"
proof (cases q)
  case (CStore b' k' v' bin c es)
  have h: "clht_hash t2 k' = clht_hash t' k'" using t2(2) by (simp add: clht_hash_def)
  have "clht_hash t' k' \<noteq> clht_hash t' k"
  proof
    assume "clht_hash t' k' = clht_hash t' k"
    then have "clht_hash t k' = clht_hash t k" by (rule hash_grow[OF t])
    moreover have "unat (clht_hash t k) = b" using chain_live_bin[OF t(1) k(2,1)] by simp
    moreover have "unat (clht_hash t k') = b'" using chain_live_bin[OF t(1), of b' "(k', v')"] q CStore by simp
    ultimately show False using k(3) CStore by simp
  qed
  then have "unat (clht_hash t' k') \<noteq> unat (clht_hash t' k)" using unat_eqD by blast
  then show ?thesis using q CStore t2(1) h by auto
qed (use q in simp_all)

lemma copy_part_step:
  assumes t: "ht_ok t" "num_buckets t = 2 ^ i" "num_buckets t' = 2 ^ j" "i \<le> j" "clht_size t < 2 ^ 32"
    and b: "built t' es" "tables s a' = Some t'"
    and d: "distinct (map fst (left_over es p q))" "set (left_over es p q) \<subseteq> set (ht_live t)"
    and ok: "part_ok t t' p" "part_ok t t' q" "bin_of p = Some b" "bin_of q \<noteq> Some b"
    and next_pc: "bin_of (next b) = None"
    and run: "copy_part a' next p s = Ret (p', s')"
  shows "\<exists>t2 es2. tables s' = (tables s)(a' \<mapsto> t2) \<and> built t2 es2 \<and> num_buckets t2 = num_buckets t' \<and>
    distinct (map fst (left_over es2 p' q)) \<and> set (left_over es2 p' q) = set (left_over es p q) \<and>
    part_ok t t2 p' \<and> part_ok t t2 q \<and> (bin_of p' = Some b \<or> p' = next b \<and> pend p' = [])"
proof -
  have t': "ht_ok t'" using b(1) by (simp add: built_def)
  have same: "tables s = (tables s)(a' \<mapsto> t')" using b(2) by (simp add: fun_upd_idem)
  have "p = CCopy b [] \<or> (\<exists>k v es'. p = CCopy b ((k, v) # es')) \<or> (\<exists>k v bin c es'. p = CStore b k v bin c es')"
  proof (cases p)
    case (CCopy b' es')
    then show ?thesis using ok(3) by (cases es') auto
  qed (use ok(3) in auto)
  then consider "p = CCopy b []" | k v es' where "p = CCopy b ((k, v) # es')" | k v bin c es' where "p = CStore b k v bin c es'" by blast
  then show ?thesis
  proof cases
    case 1
    have "pend (next b) = []" "part_ok t t' (next b)" using next_pc by (cases "next b"; simp)+
    moreover have "p' = next b" "s' = s" using 1 run by simp_all
    moreover have "left_over es p' q = left_over es p q" using 1 calculation by (simp add: left_over_def)
    ultimately show ?thesis using 1 same b(1) d(1) ok(2) by (intro exI[of _ t'] exI[of _ es]) simp
  next
    case (2 k v es')
    show ?thesis
    proof (cases "k = 0")
      case True
      then have p': "p' = CCopy b es'" "s' = s" using 2 run by simp_all
      then have "left_over es p' q = left_over es p q" using 2 True by (simp add: left_over_def live_Cons)
      then show ?thesis using p' 2 same b(1) d(1) ok True by (intro exI[of _ t'] exI[of _ es]) (simp add: live_Cons)
    next
      case False
      then have p': "p' = CStore b k v (unat (clht_hash t' k)) (table t' ! unat (clht_hash t' k)) es'" "s' = s"
        using 2 run b(2) by (simp_all add: seq_load_def Let_def)
      then have "left_over es p' q = left_over es p q" using 2 False by (simp add: left_over_def live_Cons)
      then show ?thesis using p' 2 False same b(1) d(1) ok by (intro exI[of _ t'] exI[of _ es]) (simp add: live_Cons)
    qed
  next
    case (3 k v bin c es')
    have k: "k \<noteq> 0" "bin = unat (clht_hash t' k)" "table t' ! bin = c" "(k, v) \<in> set (chain_live (table t ! b))" "b < num_buckets t"
      "set (live es') \<subseteq> set (chain_live (table t ! b))"
      using ok(1) 3 by auto
    have run': "clht_put_seq s a' k v bin = Ret s'" "p' = CCopy b es'"
      using run 3 seq_store_put[OF b(2) k(3), of k v] by (auto simp: run_simps)
    have len: "length (left_over es p q) \<le> clht_size t"
    proof -
      have "distinct (left_over es p q)" using d(1) by (simp add: distinct_map)
      then have "length (left_over es p q) = card (set (left_over es p q))" by (simp add: distinct_card)
      also have "\<dots> \<le> card (set (ht_live t))" by (rule card_mono[OF _ d(2)]) simp
      also have "\<dots> \<le> length (ht_live t)" by (rule card_length)
      finally show ?thesis by (simp add: clht_size_live[OF t(1)])
    qed
    then have "length es < 2 ^ 32 - 1" using t(5) 3 by (simp add: left_over_def)
    moreover have "k \<notin> fst ` set es" using d(1) 3 by (auto simp: left_over_def)
    ultimately obtain x e m where x: "built (t'\<lparr>table := x, num_expands := e\<rparr>) (es @ [(k, v)])"
      "s' = s\<lparr>tables := (tables s)(a' \<mapsto> t'\<lparr>table := x, num_expands := e\<rparr>), nalloc := m\<rparr>"
      using put_seq_built[OF b(2,1) k(1), of v] run'(1) k(2) by auto
    let ?t = "t'\<lparr>table := x, num_expands := e\<rparr>"
    obtain t3 where t3: "tables s' = (tables s)(a' \<mapsto> t3)" "\<forall>l. l \<noteq> bin \<longrightarrow> table t3 ! l = table t' ! l"
      using put_seq_other[OF run'(1) b(2)] by blast
    have "t3 = ?t" using t3(1) x(2) by (simp add: fun_eq_iff) (metis option.inject)
    then have "part_ok t ?t q" using part_ok_other[OF t(1) t' t(2-4) ok(2) k(4,5) ok(4), of ?t] t3(2) k(2) by simp
    moreover have "part_ok t ?t p'" using run'(2) k(5,6) by simp
    moreover have "distinct (map fst (left_over (es @ [(k, v)]) p' q))" using d(1) run'(2) 3 by (simp add: left_over_def)
    moreover have "set (left_over (es @ [(k, v)]) p' q) = set (left_over es p q)" using run'(2) 3 by (auto simp: left_over_def)
    ultimately show ?thesis using x run'(2) by (intro exI[of _ ?t] exI[of _ "es @ [(k, v)]"]) simp
  qed
qed

section \<open>The invariant\<close>

text \<open>
  The bins below \<open>lo\<close> are locked by the resizer, those from \<open>hi\<close> on by the helper. The entries of these bins are in the new table
  (\<open>es\<close>) or still with the thread that copies their bin, each once.
\<close>

definition old_ok :: "clht_hashtable_t \<Rightarrow> clht_hashtable_t \<Rightarrow> nat \<Rightarrow> nat \<Rightarrow> bool" where
  "old_ok t u lo hi \<longleftrightarrow>
     num_buckets u = num_buckets t \<and> hash u = hash t \<and> length (table u) = num_buckets t \<and>
     (\<forall>l < num_buckets t. table u ! l \<noteq> [] \<and> chain_slots (table u ! l) = chain_slots (table t ! l) \<and>
        chain_lock (table u ! l) = (if l < lo \<or> hi \<le> l then LOCK_RESIZE else LOCK_FREE))"

fun r_at :: "copy_pc \<Rightarrow> nat \<Rightarrow> nat \<Rightarrow> bool" where
  "r_at CIdle lo hi \<longleftrightarrow> False"
| "r_at (CLoop b) lo hi \<longleftrightarrow> lo = b"
| "r_at (CCopy b es) lo hi \<longleftrightarrow> lo = Suc b"
| "r_at (CStore b k v bin c es) lo hi \<longleftrightarrow> lo = Suc b"
| "r_at CEnd lo hi \<longleftrightarrow> lo = hi"
| "r_at CWait lo hi \<longleftrightarrow> lo = hi"
| "r_at CDone lo hi \<longleftrightarrow> lo = hi"

fun h_at :: "copy_pc \<Rightarrow> nat \<Rightarrow> nat \<Rightarrow> nat \<Rightarrow> bool" where
  "h_at CIdle n lo hi \<longleftrightarrow> hi = n"
| "h_at (CLoop m) n lo hi \<longleftrightarrow> hi = m"
| "h_at (CCopy b es) n lo hi \<longleftrightarrow> hi = b"
| "h_at (CStore b k v bin c es) n lo hi \<longleftrightarrow> hi = b"
| "h_at CEnd n lo hi \<longleftrightarrow> lo = hi"
| "h_at CWait n lo hi \<longleftrightarrow> False"
| "h_at CDone n lo hi \<longleftrightarrow> lo = hi"

definition taken :: "clht_hashtable_t \<Rightarrow> nat \<Rightarrow> nat \<Rightarrow> (u64 \<times> u64) set" where
  "taken t lo hi = (\<Union>l \<in> {l. l < num_buckets t \<and> (l < lo \<or> hi \<le> l)}. set (chain_live (table t ! l)))"

definition copy_inv :: "nat \<Rightarrow> nat \<Rightarrow> clht_hashtable_t \<Rightarrow> nat \<Rightarrow> copy_run \<Rightarrow> bool" where
  "copy_inv a a' t m c \<longleftrightarrow> (\<exists>u t' es lo hi.
     tables (cr_mem c) a = Some u \<and> tables (cr_mem c) a' = Some t' \<and> old_ok t u lo hi \<and> built t' es \<and> num_buckets t' = m \<and>
     lo \<le> hi \<and> hi \<le> num_buckets t \<and> r_at (r_pc c) lo hi \<and> h_at (h_pc c) (num_buckets t) lo hi \<and>
     part_ok t t' (r_pc c) \<and> part_ok t t' (h_pc c) \<and>
     distinct (map fst (left_over es (r_pc c) (h_pc c))) \<and> set (left_over es (r_pc c) (h_pc c)) = taken t lo hi \<and>
     (is_helper u = 1 \<longleftrightarrow> h_pc c = CIdle) \<and> (helper_done u = 1 \<longrightarrow> h_pc c = CDone) \<and> (r_pc c = CDone \<longrightarrow> bin_of (h_pc c) = None))"

lemma old_ok_live: "old_ok t u lo hi \<Longrightarrow> l < num_buckets t \<Longrightarrow> chain_live (table u ! l) = chain_live (table t ! l)"
  by (simp add: old_ok_def chain_live_def)

lemma taken_subset: "ht_ok t \<Longrightarrow> taken t lo hi \<subseteq> set (ht_live t)"
  using live_subset_ht unfolding taken_def by blast

lemma taken_more:
  assumes "l < num_buckets t" "l = lo \<and> lo' = Suc lo \<and> hi' = hi \<or> Suc l = hi \<and> hi' = l \<and> lo' = lo"
  shows "taken t lo' hi' = taken t lo hi \<union> set (chain_live (table t ! l))"
proof -
  have "{i. i < num_buckets t \<and> (i < lo' \<or> hi' \<le> i)} = insert l {i. i < num_buckets t \<and> (i < lo \<or> hi \<le> i)}"
    using assms by auto
  then show ?thesis by (auto simp: taken_def)
qed

text \<open>Entries of a bin that is not yet taken are new.\<close>

lemma taken_fresh:
  assumes t: "ht_ok t" and l: "l < num_buckets t" "lo \<le> l" "l < hi"
  shows "fst ` taken t lo hi \<inter> fst ` set (chain_live (table t ! l)) = {}"
proof -
  have "k \<notin> fst ` set (chain_live (table t ! l))" if "k \<in> fst ` taken t lo hi" for k
  proof -
    obtain e i where e: "e \<in> set (chain_live (table t ! i))" "i < num_buckets t" "i < lo \<or> hi \<le> i" "k = fst e"
      using \<open>k \<in> fst ` taken t lo hi\<close> by (auto simp: taken_def)
    then have "i \<noteq> l" using l by auto
    then show ?thesis using bin_entries_disjoint[OF t e(2) l(1)] e(1,4) by auto
  qed
  then show ?thesis by blast
qed

lemma lock_bin_cases:
  assumes "tables s a = Some u" "old_ok t u lo hi" "l < num_buckets t"
  shows "lock_bin s a l = (if l < lo \<or> hi \<le> l then Ret (None, s)
    else Ret (Some (chain_slots (table t ! l)), put_ht a (set_chain l (set_chain_lock LOCK_RESIZE (table u ! l)) u) s))"
proof -
  have "chain_lock (table u ! l) = (if l < lo \<or> hi \<le> l then LOCK_RESIZE else LOCK_FREE)"
    "chain_slots (table u ! l) = chain_slots (table t ! l)" using assms(2,3) unfolding old_ok_def by blast+
  then show ?thesis using assms(1)
    by (simp add: lock_bin_def lock_acq_resize_def LOCK_RESIZE_def LOCK_UPDATE_def LOCK_FREE_def)
qed

lemma old_ok_lock:
  assumes "old_ok t u lo hi" "l < num_buckets t" "l = lo \<and> lo' = Suc lo \<and> hi' = hi \<or> Suc l = hi \<and> hi' = l \<and> lo' = lo" "lo < hi"
  shows "old_ok t (set_chain l (set_chain_lock LOCK_RESIZE (table u ! l)) u) lo' hi'"
  unfolding old_ok_def
proof (intro conjI allI impI)
  fix i assume i: "i < num_buckets t"
  have u: "table u ! i \<noteq> []" "chain_slots (table u ! i) = chain_slots (table t ! i)" "length (table u) = num_buckets t"
    "chain_lock (table u ! i) = (if i < lo \<or> hi \<le> i then LOCK_RESIZE else LOCK_FREE)" "table u ! l \<noteq> []"
    using assms(1,2) i unfolding old_ok_def by blast+
  show "table (set_chain l (set_chain_lock LOCK_RESIZE (table u ! l)) u) ! i \<noteq> []"
    using u i by (cases "i = l") (auto simp: table_set_chain set_chain_lock_def)
  show "chain_slots (table (set_chain l (set_chain_lock LOCK_RESIZE (table u ! l)) u) ! i) = chain_slots (table t ! i)"
    using u i by (cases "i = l") (auto simp: table_set_chain chain_slots_lock)
  show "chain_lock (table (set_chain l (set_chain_lock LOCK_RESIZE (table u ! l)) u) ! i) =
      (if i < lo' \<or> hi' \<le> i then LOCK_RESIZE else LOCK_FREE)"
    using u i assms(3,4) by (cases "i = l") (auto simp: table_set_chain)
qed (use assms(1) in \<open>simp_all add: old_ok_def set_chain_def\<close>)

lemma copy_invE:
  assumes "copy_inv a a' t m c"
  obtains u t' es lo hi where "tables (cr_mem c) a = Some u" "tables (cr_mem c) a' = Some t'" "old_ok t u lo hi" "built t' es" "num_buckets t' = m"
    "lo \<le> hi" "hi \<le> num_buckets t" "r_at (r_pc c) lo hi" "h_at (h_pc c) (num_buckets t) lo hi"
    "part_ok t t' (r_pc c)" "part_ok t t' (h_pc c)"
    "distinct (map fst (left_over es (r_pc c) (h_pc c)))" "set (left_over es (r_pc c) (h_pc c)) = taken t lo hi"
    "is_helper u = 1 \<longleftrightarrow> h_pc c = CIdle" "helper_done u = 1 \<longrightarrow> h_pc c = CDone" "r_pc c = CDone \<longrightarrow> bin_of (h_pc c) = None"
  using assms unfolding copy_inv_def by (elim exE conjE) (rule that; assumption)

lemma copy_invI:
  assumes "tables (cr_mem c) a = Some u" "tables (cr_mem c) a' = Some t'" "old_ok t u lo hi" "built t' es" "num_buckets t' = m"
    "lo \<le> hi" "hi \<le> num_buckets t" "r_at (r_pc c) lo hi" "h_at (h_pc c) (num_buckets t) lo hi"
    "part_ok t t' (r_pc c)" "part_ok t t' (h_pc c)"
    "distinct (map fst (left_over es (r_pc c) (h_pc c)))" "set (left_over es (r_pc c) (h_pc c)) = taken t lo hi"
    "is_helper u = 1 \<longleftrightarrow> h_pc c = CIdle" "helper_done u = 1 \<longrightarrow> h_pc c = CDone" "r_pc c = CDone \<longrightarrow> bin_of (h_pc c) = None"
  shows "copy_inv a a' t m c"
  using assms unfolding copy_inv_def by blast

lemma bins_apart: "r_at p lo hi \<Longrightarrow> h_at q n lo hi \<Longrightarrow> lo \<le> hi \<Longrightarrow> bin_of p = Some b \<Longrightarrow> bin_of q = Some b' \<Longrightarrow> b \<noteq> b'"
  by (cases p; cases q) auto

lemma left_over_lock:
  assumes "ht_ok t" "l < num_buckets t" "lo \<le> l" "l < hi" "distinct (map fst (es @ ps))" "set (es @ ps) = taken t lo hi"
  shows "distinct (map fst (es @ chain_live (table t ! l) @ ps))" "distinct (map fst (es @ ps @ chain_live (table t ! l)))"
    "set (es @ chain_live (table t ! l) @ ps) = taken t lo hi \<union> set (chain_live (table t ! l))"
    "set (es @ ps @ chain_live (table t ! l)) = taken t lo hi \<union> set (chain_live (table t ! l))"
proof -
  have f: "fst ` set (es @ ps) \<inter> fst ` set (chain_live (table t ! l)) = {}"
    using taken_fresh[OF assms(1-4)] unfolding assms(6) .
  have l: "distinct (map fst (chain_live (table t ! l)))" by (rule ht_okD(6)[OF assms(1,2)])
  show "distinct (map fst (es @ chain_live (table t ! l) @ ps))" "distinct (map fst (es @ ps @ chain_live (table t ! l)))"
    using f l assms(5) by (auto simp: image_Un Int_Un_distrib Int_Un_distrib2 Int_commute)
  show "set (es @ chain_live (table t ! l) @ ps) = taken t lo hi \<union> set (chain_live (table t ! l))"
    "set (es @ ps @ chain_live (table t ! l)) = taken t lo hi \<union> set (chain_live (table t ! l))"
    using assms(6) by auto
qed

lemma copy_inv_resizer:
  assumes t: "ht_ok t" "num_buckets t = 2 ^ i" "m = 2 ^ j" "i \<le> j" "clht_size t < 2 ^ 32" and aa: "a \<noteq> a'"
    and inv: "copy_inv a a' t m c" and run: "resizer_act a a' (num_buckets t) (r_pc c) (cr_mem c) = Ret (pc, s)"
  shows "copy_inv a a' t m (c\<lparr>cr_mem := s, r_pc := pc\<rparr>)"
proof -
  obtain u t' es lo hi where I: "tables (cr_mem c) a = Some u" "tables (cr_mem c) a' = Some t'" "old_ok t u lo hi" "built t' es" "num_buckets t' = m"
    "lo \<le> hi" "hi \<le> num_buckets t" "r_at (r_pc c) lo hi" "h_at (h_pc c) (num_buckets t) lo hi"
    "part_ok t t' (r_pc c)" "part_ok t t' (h_pc c)"
    "distinct (map fst (left_over es (r_pc c) (h_pc c)))" "set (left_over es (r_pc c) (h_pc c)) = taken t lo hi"
    "is_helper u = 1 \<longleftrightarrow> h_pc c = CIdle" "helper_done u = 1 \<longrightarrow> h_pc c = CDone" "r_pc c = CDone \<longrightarrow> bin_of (h_pc c) = None"
    using inv by (rule copy_invE)
  have stop: "copy_inv a a' t m (c\<lparr>cr_mem := cr_mem c, r_pc := p\<rparr>)"
    if p: "p \<in> {CEnd, CWait, CDone}" "lo = hi" "pend (r_pc c) = []" "p = CDone \<Longrightarrow> bin_of (h_pc c) = None" for p
  proof (rule copy_invI[of _ _ u _ t' _ lo hi es])
    have "pend p = []" "r_at p lo hi" "part_ok t t' p" using p(1,2) by auto
    then show "r_at (r_pc (c\<lparr>cr_mem := cr_mem c, r_pc := p\<rparr>)) lo hi" "part_ok t t' (r_pc (c\<lparr>cr_mem := cr_mem c, r_pc := p\<rparr>))"
      "distinct (map fst (left_over es (r_pc (c\<lparr>cr_mem := cr_mem c, r_pc := p\<rparr>)) (h_pc (c\<lparr>cr_mem := cr_mem c, r_pc := p\<rparr>))))"
      "set (left_over es (r_pc (c\<lparr>cr_mem := cr_mem c, r_pc := p\<rparr>)) (h_pc (c\<lparr>cr_mem := cr_mem c, r_pc := p\<rparr>))) = taken t lo hi"
      using I(12,13) p(3) by (simp_all add: left_over_def)
  qed (use I(1-7,9,11,14,15) p(4) in simp_all)
  show ?thesis
  proof (cases "bin_of (r_pc c)")
    case (Some b)
    have q: "bin_of (h_pc c) \<noteq> Some b" using bins_apart[OF I(8,9,6) Some] by auto
    have run': "copy_part a' (\<lambda>b. CLoop (Suc b)) (r_pc c) (cr_mem c) = Ret (pc, s)" using run Some by (cases "r_pc c") auto
    have sub: "set (left_over es (r_pc c) (h_pc c)) \<subseteq> set (ht_live t)" using taken_subset[OF t(1)] I(13) by simp
    obtain t2 es2 where S: "tables s = (tables (cr_mem c))(a' \<mapsto> t2)" "built t2 es2" "num_buckets t2 = num_buckets t'"
      "distinct (map fst (left_over es2 pc (h_pc c)))" "set (left_over es2 pc (h_pc c)) = set (left_over es (r_pc c) (h_pc c))"
      "part_ok t t2 pc" "part_ok t t2 (h_pc c)" "bin_of pc = Some b \<or> pc = CLoop (Suc b) \<and> pend pc = []"
      using copy_part_step[OF t(1,2) I(5)[unfolded t(3)] t(4,5) I(4,2,12) sub I(10,11) Some q _ run'] by auto
    have lo: "lo = Suc b" using I(8) Some by (cases "r_pc c") auto
    then have "r_at pc lo hi" "pc \<noteq> CDone" using S(8) by (cases pc; auto)+
    then show ?thesis
      using I(1-3,5-7,9,13-15) S aa by (intro copy_invI[of _ _ u _ t2 _ lo hi es2]) simp_all
  next
    case None
    then consider b where "r_pc c = CLoop b" | "r_pc c = CEnd" | "r_pc c = CWait" | "r_pc c = CDone" using I(8) by (cases "r_pc c") auto
    then show ?thesis
    proof cases
      case (1 b)
      then have lo: "lo = b" using I(8) by simp
      show ?thesis
      proof (cases "lo < hi")
        case True
        let ?u = "set_chain lo (set_chain_lock LOCK_RESIZE (table u ! lo)) u"
        have "lo < num_buckets t" using True I(7) by simp
        then have r: "pc = CCopy lo (chain_slots (table t ! lo))" "s = put_ht a ?u (cr_mem c)"
          using run lock_bin_cases[OF I(1,3), of lo] 1 lo True by auto
        have L: "distinct (map fst (es @ pend (h_pc c)))" "set (es @ pend (h_pc c)) = taken t lo hi"
          using I(12,13) 1 by (simp_all add: left_over_def)
        note P = left_over_lock[OF t(1) \<open>lo < num_buckets t\<close> order_refl True L]
        have pe: "pend pc = chain_live (table t ! lo)" using r(1) by (simp add: chain_live_def)
        have "old_ok t ?u (Suc lo) hi" by (rule old_ok_lock[OF I(3) \<open>lo < num_buckets t\<close> _ True]) simp
        moreover have "taken t (Suc lo) hi = taken t lo hi \<union> set (chain_live (table t ! lo))"
          by (rule taken_more[OF \<open>lo < num_buckets t\<close>]) simp
        moreover have "distinct (map fst (left_over es pc (h_pc c)))"
          "set (left_over es pc (h_pc c)) = taken t lo hi \<union> set (chain_live (table t ! lo))"
          using P(1,3) unfolding left_over_def pe by simp_all
        moreover have "h_at (h_pc c) (num_buckets t) (Suc lo) hi" using I(9) True by (cases "h_pc c") auto
        moreover have "part_ok t t' pc" using r(1) \<open>lo < num_buckets t\<close> by (simp add: chain_live_def)
        ultimately show ?thesis
          using I(2,4,5,7,11,14,15) r aa True
          by (intro copy_invI[of _ _ ?u _ t' _ "Suc lo" hi es]) (simp_all add: set_chain_def)
      next
        case False
        then have eq: "lo = hi" using I(6) by simp
        have "pc = CEnd" "s = cr_mem c" using run lock_bin_cases[OF I(1,3), of lo] 1 lo eq by (auto split: if_splits)
        then show ?thesis using stop[of CEnd] eq 1 by simp
      qed
    next
      case 2
      then have "pc = (if is_helper u \<noteq> 1 then CWait else CDone)" "s = cr_mem c" using run I(1) by auto
      then show ?thesis using stop[of pc] 2 I(8,14) by (auto split: if_splits)
    next
      case 3
      then have "pc = (if helper_done u \<noteq> 1 then CWait else CDone)" "s = cr_mem c" using run I(1) by auto
      then show ?thesis using stop[of pc] 3 I(8,15) by (auto split: if_splits)
    next
      case 4
      then show ?thesis using run stop[of CDone] I(8,16) by auto
    qed
  qed
qed

lemma hash_int: "ht_ok t \<Longrightarrow> num_buckets t \<le> 2 ^ 31 \<Longrightarrow> nat (sint (ucast (hash t) :: u32) + 1) = num_buckets t"
proof -
  assume t: "ht_ok t" "num_buckets t \<le> 2 ^ 31"
  define n where "n = num_buckets t - 1"
  have n: "n < 2 ^ 31" "num_buckets t = Suc n" using t ht_okD(1)[OF t(1)] by (simp_all add: n_def)
  have "hash t = word_of_nat n" using ht_okD(4)[OF t(1)] n(2) by simp
  then have "(ucast (hash t) :: u32) = word_of_nat n" using n(1) by (simp add: unsigned_of_nat take_bit_nat_eq_self)
  moreover have "sint (word_of_nat n :: u32) = int n"
    using n(1) by (simp add: signed_of_nat signed_take_bit_int_eq_self)
  ultimately show ?thesis using n(2) by simp
qed

lemma left_over_swap: "distinct (map fst (left_over es q p)) = distinct (map fst (left_over es p q))"
  "set (left_over es q p) = set (left_over es p q)"
  by (auto simp: left_over_def)

lemma copy_inv_helper:
  assumes t: "ht_ok t" "num_buckets t = 2 ^ i" "m = 2 ^ j" "i \<le> j" "clht_size t < 2 ^ 32" and aa: "a \<noteq> a'" and n: "num_buckets t \<le> 2 ^ 31"
    and inv: "copy_inv a a' t m c" and run: "helper_act a a' (h_pc c) (cr_mem c) = Ret (pc, s)"
  shows "copy_inv a a' t m (c\<lparr>cr_mem := s, h_pc := pc\<rparr>)"
proof -
  obtain u t' es lo hi where I: "tables (cr_mem c) a = Some u" "tables (cr_mem c) a' = Some t'" "old_ok t u lo hi" "built t' es" "num_buckets t' = m"
    "lo \<le> hi" "hi \<le> num_buckets t" "r_at (r_pc c) lo hi" "h_at (h_pc c) (num_buckets t) lo hi"
    "part_ok t t' (r_pc c)" "part_ok t t' (h_pc c)"
    "distinct (map fst (left_over es (r_pc c) (h_pc c)))" "set (left_over es (r_pc c) (h_pc c)) = taken t lo hi"
    "is_helper u = 1 \<longleftrightarrow> h_pc c = CIdle" "helper_done u = 1 \<longrightarrow> h_pc c = CDone" "r_pc c = CDone \<longrightarrow> bin_of (h_pc c) = None"
    using inv by (rule copy_invE)
  have quiet: "copy_inv a a' t m (c\<lparr>cr_mem := s, h_pc := pc\<rparr>)"
    if "tables s a = Some u'" "tables s a' = Some t'" "old_ok t u' lo hi" "h_at pc (num_buckets t) lo hi" "pend (h_pc c) = []"
      "bin_of pc = None" "is_helper u' = 1 \<longleftrightarrow> pc = CIdle" "helper_done u' = 1 \<longrightarrow> pc = CDone" for u'
  proof -
    have "pend pc = []" "part_ok t t' pc" using that(6) by (cases pc; simp)+
    then show ?thesis using that I(4-8,10,12,13) by (intro copy_invI[of _ _ u' _ t' _ lo hi es]) (simp_all add: left_over_def)
  qed
  show ?thesis
  proof (cases "bin_of (h_pc c)")
    case (Some b)
    have q: "bin_of (r_pc c) \<noteq> Some b" using bins_apart[OF I(8,9,6) _ Some] by auto
    have run': "copy_part a' CLoop (h_pc c) (cr_mem c) = Ret (pc, s)" using run Some by (cases "h_pc c") auto
    have d: "distinct (map fst (left_over es (h_pc c) (r_pc c)))" using I(12) left_over_swap(1) by blast
    have sub: "set (left_over es (h_pc c) (r_pc c)) \<subseteq> set (ht_live t)"
      using taken_subset[OF t(1)] I(13) left_over_swap(2)[of es "h_pc c" "r_pc c"] by simp
    obtain t2 es2 where S: "tables s = (tables (cr_mem c))(a' \<mapsto> t2)" "built t2 es2" "num_buckets t2 = num_buckets t'"
      "distinct (map fst (left_over es2 pc (r_pc c)))" "set (left_over es2 pc (r_pc c)) = set (left_over es (h_pc c) (r_pc c))"
      "part_ok t t2 pc" "part_ok t t2 (r_pc c)" "bin_of pc = Some b \<or> pc = CLoop b \<and> pend pc = []"
      using copy_part_step[OF t(1,2) I(5)[unfolded t(3)] t(4,5) I(4,2) d sub I(11,10) Some q _ run'] by auto
    have d2: "distinct (map fst (left_over es2 (r_pc c) pc))" using S(4) left_over_swap(1) by blast
    have s2: "set (left_over es2 (r_pc c) pc) = taken t lo hi" using S(5) I(13) left_over_swap(2) by metis
    have hi: "hi = b" using I(9) Some by (cases "h_pc c") auto
    then have "h_at pc (num_buckets t) lo hi" "pc \<noteq> CIdle" using S(8) by (cases pc; auto)+
    moreover have "h_pc c \<noteq> CIdle" "h_pc c \<noteq> CDone" using Some by auto
    moreover have "r_pc c \<noteq> CDone" using I(16) Some by auto
    ultimately show ?thesis
      using I(1-3,5-8,13-15) S(1-3,6,7) d2 s2 aa by (intro copy_invI[of _ _ u _ t2 _ lo hi es2]) simp_all
  next
    case None
    then consider "h_pc c = CIdle" | k where "h_pc c = CLoop k" | "h_pc c = CEnd" | "h_pc c = CDone" using I(9) by (cases "h_pc c") auto
    then show ?thesis
    proof cases
      case 1
      have "is_helper u = 1" using I(14) 1 by simp
      moreover have "hash u = hash t" using I(3) by (simp add: old_ok_def)
      ultimately have "pc = CLoop (num_buckets t)" "s = put_ht a (u\<lparr>is_helper := 0\<rparr>) (cr_mem c)"
        using run 1 I(1) hash_int[OF t(1) n] by auto
      then show ?thesis using quiet[of "u\<lparr>is_helper := 0\<rparr>"] I(2,3,9,15) 1 aa by (simp add: old_ok_def)
    next
      case (2 k)
      then have hi: "hi = k" using I(9) by simp
      show ?thesis
      proof (cases "lo < hi")
        case True
        then obtain l where l: "hi = Suc l" "lo \<le> l" "l < num_buckets t" using I(7) by (cases hi) auto
        let ?u = "set_chain l (set_chain_lock LOCK_RESIZE (table u ! l)) u"
        have r: "pc = CCopy l (chain_slots (table t ! l))" "s = put_ht a ?u (cr_mem c)"
          using run lock_bin_cases[OF I(1,3), of l] 2 hi l by auto
        have L: "distinct (map fst (es @ pend (r_pc c)))" "set (es @ pend (r_pc c)) = taken t lo hi"
          using I(12,13) 2 by (simp_all add: left_over_def)
        have "l < hi" using l(1) by simp
        note P = left_over_lock[OF t(1) l(3,2) \<open>l < hi\<close> L]
        have pe: "pend pc = chain_live (table t ! l)" using r(1) by (simp add: chain_live_def)
        have "old_ok t ?u lo l" by (rule old_ok_lock[OF I(3) l(3) _ True]) (simp add: l(1))
        moreover have "taken t lo l = taken t lo hi \<union> set (chain_live (table t ! l))"
          by (rule taken_more[OF l(3)]) (simp add: l(1))
        moreover have "distinct (map fst (left_over es (r_pc c) pc))"
          "set (left_over es (r_pc c) pc) = taken t lo hi \<union> set (chain_live (table t ! l))"
          using P(2,4) unfolding left_over_def pe by simp_all
        moreover have "r_at (r_pc c) lo l" "r_pc c \<noteq> CDone" using I(8) True by (cases "r_pc c"; simp)+
        moreover have "part_ok t t' pc" using r(1) l(3) by (simp add: chain_live_def)
        moreover have "helper_done u \<noteq> 1" "is_helper u \<noteq> 1" using I(14,15) 2 by auto
        ultimately show ?thesis
          using I(2,4,5,7,10) r aa l
          by (intro copy_invI[of _ _ ?u _ t' _ lo l es]) (simp_all add: set_chain_def)
      next
        case False
        then have eq: "lo = hi" using I(6) by simp
        have "pc = CEnd" "s = cr_mem c"
          using run lock_bin_cases[OF I(1,3), of "k - 1"] 2 hi eq I(7) by (auto split: if_splits)
        then show ?thesis using quiet[of u] eq 2 I(1-3,14,15) by simp
      qed
    next
      case 3
      then have "pc = CDone" "s = put_ht a (u\<lparr>helper_done := 1\<rparr>) (cr_mem c)" using run I(1) by auto
      then show ?thesis using quiet[of "u\<lparr>helper_done := 1\<rparr>"] I(2,3,9,14) 3 aa by (simp add: old_ok_def)
    next
      case 4
      then have "pc = CDone" "s = cr_mem c" using run by auto
      then show ?thesis using quiet[of u] 4 I(1-3,9,14,15) by simp
    qed
  qed
qed

lemma copy_inv_start:
  assumes "tables s a = Some t" "tables s a' = Some t'" "ht_ok t" "ht_unlocked t" "built t' []" "num_buckets t' = m"
    "is_helper t = 1" "helper_done t \<noteq> 1"
  shows "copy_inv a a' t m (copy_start s)"
proof -
  have "old_ok t t 0 (num_buckets t)"
    using ht_okD(3,5)[OF assms(3)] assms(4) by (auto simp: old_ok_def ht_unlocked_def chain_ok_def)
  moreover have "taken t 0 (num_buckets t) = {}" by (auto simp: taken_def)
  ultimately show ?thesis
    using assms by (intro copy_invI[of _ _ t _ t' _ 0 "num_buckets t" "[]"]) (simp_all add: copy_start_def left_over_def)
qed

lemma copy_inv_reach:
  assumes "copy_reach a a' (num_buckets t) c d" "ht_ok t" "num_buckets t = 2 ^ i" "m = 2 ^ j" "i \<le> j" "clht_size t < 2 ^ 32" "a \<noteq> a'"
    "num_buckets t \<le> 2 ^ 31" "copy_inv a a' t m c"
  shows "copy_inv a a' t m d"
  using assms(1,9)
proof (induction)
  case (step d e)
  from step(2) step(3)[OF step(4)] show ?case
  proof (cases rule: copy_step.cases)
    case (resizer pc s)
    then show ?thesis using copy_inv_resizer[OF assms(2-7)] step(3)[OF step(4)] by simp
  next
    case (helper pc s)
    then show ?thesis using copy_inv_helper[OF assms(2-8)] step(3)[OF step(4)] by simp
  qed
qed

lemma map_of_same_set:
  assumes "distinct (map fst xs)" "distinct (map fst ys)" "set xs = set ys"
  shows "map_of xs = map_of ys"
proof
  fix k
  have "map_of xs k = Some v \<longleftrightarrow> map_of ys k = Some v" for v using assms by simp
  then show "map_of xs k = map_of ys k" by (metis option.exhaust)
qed

lemma taken_all:
  assumes "ht_ok t" "hi \<le> lo"
  shows "taken t lo hi = set (ht_live t)"
proof -
  have "{l. l < num_buckets t \<and> (l < lo \<or> hi \<le> l)} = set [0..<num_buckets t]" using assms(2) by auto
  then show ?thesis unfolding taken_def ht_live_concat[OF assms(1), symmetric] set_concat set_map by simp
qed

lemma copy_inv_end:
  assumes "copy_inv a a' t m c" "r_pc c = CDone" "ht_ok t"
  shows "\<exists>u t'. tables (cr_mem c) a = Some u \<and> tables (cr_mem c) a' = Some t'
    \<and> (\<forall>l < num_buckets t. chain_lock (table u ! l) = LOCK_RESIZE) \<and> ht_ok t' \<and> num_buckets t' = m \<and> ht_map t' = ht_map t
    \<and> bin_of (h_pc c) = None"
  using assms(1)
proof (rule copy_invE)
  fix u t' es lo hi
  assume I: "tables (cr_mem c) a = Some u" "tables (cr_mem c) a' = Some t'" "old_ok t u lo hi" "built t' es" "num_buckets t' = m"
    "r_at (r_pc c) lo hi" "set (left_over es (r_pc c) (h_pc c)) = taken t lo hi" "r_pc c = CDone \<longrightarrow> bin_of (h_pc c) = None"
  have lo: "lo = hi" and b: "bin_of (h_pc c) = None" using I(6,8) assms(2) by auto
  have "pend (h_pc c) = []" using b by (cases "h_pc c") auto
  then have "set es = set (ht_live t)" using I(7) assms(2) taken_all[OF assms(3), of hi lo] lo by (simp add: left_over_def)
  moreover have t': "ht_ok t'" "ht_map t' = map_of es" "distinct (map fst es)" using I(4) by (auto simp: built_def)
  ultimately have "ht_map t' = map_of (ht_live t)" using map_of_same_set distinct_ht_live[OF assms(3)] by metis
  then have "ht_map t' = ht_map t" using ht_map_ht_live[OF assms(3)] by simp
  moreover have "\<forall>l < num_buckets t. chain_lock (table u ! l) = LOCK_RESIZE" using I(3) lo unfolding old_ok_def by auto
  ultimately show ?thesis using I(1,2,5) t'(1) b by blast
qed

section \<open>Properties\<close>

text \<open>A schedule, \<open>True\<close> for a step of the resizer, and the example it runs on: one bin with one entry, copied to two bins.\<close>

fun copy_exec :: "nat \<Rightarrow> nat \<Rightarrow> nat \<Rightarrow> bool list \<Rightarrow> copy_run \<Rightarrow> copy_run run" where
  "copy_exec a a' n [] c = Ret c"
| "copy_exec a a' n (True # ws) c = bind_run (resizer_act a a' n (r_pc c) (cr_mem c)) (\<lambda>(pc, s). copy_exec a a' n ws (c\<lparr>cr_mem := s, r_pc := pc\<rparr>))"
| "copy_exec a a' n (False # ws) c = bind_run (helper_act a a' (h_pc c) (cr_mem c)) (\<lambda>(pc, s). copy_exec a a' n ws (c\<lparr>cr_mem := s, h_pc := pc\<rparr>))"

definition help_example :: clht_mem where
  "help_example = clht_mem0\<lparr>tables := [1 \<mapsto> (gc_table 1 0 None)\<lparr>table := [[locked_bucket LOCK_FREE 3 30]]\<rparr>, 3 \<mapsto> gc_table 2 1 None], nalloc := 5\<rparr>"

definition help_schedule :: "bool list" where
  "help_schedule = [False, False, True, True] @ replicate 7 False @ [True]"

lemma copy_exec_reach: "copy_exec a a' n ws c = Ret d \<Longrightarrow> copy_reach a a' n b c \<Longrightarrow> copy_reach a a' n b d"
proof (induction ws arbitrary: c)
  case (Cons w ws)
  obtain c' where c': "copy_step a a' n c c'" "copy_exec a a' n ws c' = Ret d"
  proof (cases w)
    case True
    then obtain pc s where r: "resizer_act a a' n (r_pc c) (cr_mem c) = Ret (pc, s)" using Cons.prems(1)
      by (cases "resizer_act a a' n (r_pc c) (cr_mem c)") auto
    show thesis using that[OF copy_step.resizer[OF r]] r Cons.prems(1) True by simp
  next
    case False
    then obtain pc s where r: "helper_act a a' (h_pc c) (cr_mem c) = Ret (pc, s)" using Cons.prems(1)
      by (cases "helper_act a a' (h_pc c) (cr_mem c)") auto
    show thesis using that[OF copy_step.helper[OF r]] r Cons.prems(1) False by simp
  qed
  show ?case by (rule Cons.IH[OF c'(2) copy_reach.step[OF Cons.prems(2) c'(1)]])
qed simp

text \<open>
  C28: A growing resize with one helper, in every interleaving of their small steps (lock a bucket, read the chain of
  the new table, write the entry): when the resizer is past its wait, every bucket of the old table is locked for resizing, the
  new table is well formed and holds exactly the map of the old one, and the helper is not in the middle of a bucket. Both sizes are
  powers of two, at most \<open>2 ^ 31\<close> buckets in the old table (the helper counts with \<^verbatim>\<open>int32_t\<close>), fewer than \<open>2 ^ 32\<close> entries,
  no bucket locked at the start. A run in which an allocation fails does not get that far.
\<close>

theorem clht_help_exact:
  assumes "tables s a = Some t" "tables s a' = Some t'" "a \<noteq> a'" "ht_ok t" "ht_unlocked t" "built t' []"
    and "is_helper t = 1" "helper_done t \<noteq> 1"
    and "num_buckets t = 2 ^ i" "num_buckets t' = 2 ^ j" "i \<le> j" "num_buckets t \<le> 2 ^ 31" "clht_size t < 2 ^ 32"
    and "copy_reach a a' (num_buckets t) (copy_start s) c" and "r_pc c = CDone"
  shows "\<exists>u t2. tables (cr_mem c) a = Some u \<and> tables (cr_mem c) a' = Some t2
    \<and> (\<forall>l < num_buckets t. chain_lock (table u ! l) = LOCK_RESIZE) \<and> ht_ok t2 \<and> num_buckets t2 = num_buckets t' \<and> ht_map t2 = ht_map t
    \<and> bin_of (h_pc c) = None"
  using copy_inv_end[OF copy_inv_reach[OF assms(14,4,9,10,11,13,3,12) copy_inv_start[OF assms(1,2,4-6) refl assms(7,8)]] assms(15,4)] .

lemma run_caseD: "(case r of Ret c \<Rightarrow> P c | _ \<Rightarrow> False) \<Longrightarrow> \<exists>c. r = Ret c \<and> P c"
  by (cases r) auto

lemma help_example_run:
  "case copy_exec 1 3 1 help_schedule (copy_start help_example) of Ret c \<Rightarrow> r_pc c = CDone \<and> h_pc c = CDone | _ \<Rightarrow> False"
proof -
  have "[False, False, True, True] @ replicate 7 False @ [True] = [False, False, True, True, False, False, False, False, False, False, False, True]"
    by (simp add: eval_nat_numeral)
  moreover have "slots (locked_bucket l 3 30) = [(3, 30), (0, 0), (0, 0)]" for l
    by (simp add: locked_bucket_def ENTRIES_3 upt_rec numeral_2_eq_2)
  moreover have "slots empty_bucket = [(0, 0), (0, 0), (0, 0)]"
    by (simp add: empty_bucket_def ENTRIES_3 upt_rec numeral_2_eq_2)
  moreover have "seq_slot [empty_bucket] 0 = Some (0, 0)"
    by (simp add: find_entry_def empty_bucket_def ENTRIES_3 upt_rec)
  moreover have "replicate 2 [empty_bucket] = [[empty_bucket], [empty_bucket]]" by (simp add: numeral_2_eq_2)
  ultimately show ?thesis
    by (simp add: seq_store_def write_slot_def help_schedule_def help_example_def copy_start_def lock_bin_def gc_table_def chain_lock_def lock_acq_resize_def
        set_chain_lock_def locked_bucket_def chain_slots_Cons seq_load_def Let_def clht_hash_def
          LOCK_FREE_def LOCK_UPDATE_def LOCK_RESIZE_def set_chain_def)
qed

theorem clht_help_exact_witness:
  "\<exists>c t2. copy_reach 1 3 1 (copy_start help_example) c \<and> r_pc c = CDone \<and> tables (cr_mem c) 3 = Some t2 \<and> ht_map t2 3 = Some 30 \<and> num_buckets t2 = 2"
proof -
  let ?t = "(gc_table 1 0 None)\<lparr>table := [[locked_bucket LOCK_FREE 3 30]]\<rparr>" and ?t' = "gc_table 2 1 None"
  obtain c where c: "copy_exec 1 3 1 help_schedule (copy_start help_example) = Ret c" "r_pc c = CDone"
    using run_caseD[OF help_example_run] by blast
  have r: "copy_reach 1 3 1 (copy_start help_example) c" by (rule copy_exec_reach[OF c(1) copy_reach.start])
  have "slots (locked_bucket LOCK_FREE 3 30) = [(3, 30), (0, 0), (0, 0)]"
    by (simp add: locked_bucket_def ENTRIES_3 upt_rec numeral_2_eq_2)
  then have live: "chain_live [locked_bucket LOCK_FREE 3 30] = [(3, 30)]"
    by (simp add: chain_live_def chain_slots_Cons live_Cons)
  have "chain_ok [locked_bucket LOCK_FREE 3 30]" "chain_lock [locked_bucket LOCK_FREE 3 30] = LOCK_FREE"
    by (auto simp: chain_ok_def bucket_ok_def locked_bucket_def ENTRIES_3 chain_lock_def)
  then have t: "ht_ok ?t" "ht_unlocked ?t" "num_buckets ?t = 1" "is_helper ?t = 1" "helper_done ?t \<noteq> 1"
    by (simp_all add: gc_table_def ht_ok_def ht_unlocked_def SIZEOF_BUCKET_def live hashes_to_def clht_hash_def)
  have m: "ht_map ?t 3 = Some 30" by (simp add: gc_table_def ht_map_def chain_of_def clht_hash_def live)
  have "ht_live ?t = [(3, 30)]" by (simp add: ht_live_def gc_table_def live)
  then have sz: "clht_size ?t < 2 ^ 32" unfolding clht_size_live[OF t(1)] by simp
  have t': "ht_ok ?t'" "ht_unlocked ?t'"
    using slots_empty_bucket
    by (auto simp: gc_table_def ht_ok_def SIZEOF_BUCKET_def chain_ok_def bucket_ok_def empty_bucket_def hashes_to_def
        ht_unlocked_def chain_lock_def)
  have "ht_map ?t' q = None" for q
    using hash_less[OF t'(1), of q] slots_empty_bucket by (simp add: ht_map_def chain_of_def gc_table_def)
  then have b: "built ?t' []"
    using t' slots_empty_bucket by (auto simp: built_def packed_def expansions_def gc_table_def)
  have tabs: "tables help_example 1 = Some ?t" "tables help_example 3 = Some ?t'" "num_buckets ?t' = 2"
    by (simp_all add: help_example_def gc_table_def)
  have "\<exists>u t2. tables (cr_mem c) 1 = Some u \<and> tables (cr_mem c) 3 = Some t2
    \<and> (\<forall>l < num_buckets ?t. chain_lock (table u ! l) = LOCK_RESIZE) \<and> ht_ok t2 \<and> num_buckets t2 = num_buckets ?t' \<and> ht_map t2 = ht_map ?t
    \<and> bin_of (h_pc c) = None"
  proof (rule clht_help_exact[OF tabs(1,2) _ t(1,2) b t(4,5), of 0 1, OF _ _ _ _ _ sz])
    show "copy_reach 1 3 (num_buckets ?t) (copy_start help_example) c" using r by (simp only: t(3))
    show "num_buckets ?t = 2 ^ 0" "num_buckets ?t \<le> 2 ^ 31" by (simp_all only: t(3)) simp_all
    show "num_buckets ?t' = 2 ^ 1" by (simp only: tabs(3)) simp
  qed (use c(2) in simp_all)
  then show ?thesis using r c(2) m tabs(3) by metis
qed

end
