(* ===== verification/Ssmem.thy ===== *)
theory Ssmem
  imports Prelude
begin

text \<open>
  The object allocator with epoch-based reclamation that P-CLHT links,
  \<^verbatim>\<open>src/RECIPE/P-CLHT/external/ssmem/\<close> (\<^verbatim>\<open>include/ssmem.h\<close>, \<^verbatim>\<open>src/ssmem.c\<close>).

  An allocator (\<open>ssmem_allocator\<close>) carves objects out of chunks and keeps freed objects in free sets.
  A full free set is stamped with the versions of all threads; it is reused once every version has
  moved on. Linked lists that only their allocator follows are lists of HOL, with the address of each
  node kept, so that every \<^verbatim>\<open>free\<close> of the code is a \<open>libc_free\<close> of the model. The time stamps and the
  released objects, which the code reads through pointers that may dangle, are in stores.

  The C library is the list \<open>mallocs\<close> of the addresses it will propose: \<open>memalign\<close> hands out the next
  one if it is a block of the requested alignment and size that overlaps no live block, and fails
  with \<^verbatim>\<open>NULL\<close> otherwise. Every behaviour of a correct C library is one such list.
  Thread-local variables are functions of the thread.
\<close>

section \<open>Data\<close>

definition SSMEM_GC_FREE_SET_SIZE :: u64 where "SSMEM_GC_FREE_SET_SIZE = 507"

definition SSMEM_GC_RLSE_SET_SIZE :: u64 where "SSMEM_GC_RLSE_SET_SIZE = 3"

definition SSMEM_MEM_SIZE_MAX :: u64 where "SSMEM_MEM_SIZE_MAX = 4 * 1024 * 1024 * 1024"

definition SSMEM_LINE :: nat where "SSMEM_LINE = 64"

record ssmem_ts =
  version :: u64
  ts_ident :: u64

text \<open>A vector of versions with the address of its block; \<open>None\<close> entries are not initialised.\<close>

type_synonym ts_vector = "u64 \<times> u64 option list"

record ssmem_free_set =
  fs_addr :: u64
  ts_set :: "ts_vector option"
  fs_slots :: u64
  fs_curr :: int
  fs_set :: "u64 option list"

record ssmem_released =
  rel_ts_set :: "u64 option list"
  rel_obj :: u64
  rel_next :: u64

record ssmem_allocator =
  mem :: u64
  mem_curr :: u64
  mem_size :: u64
  tot_size :: u64
  fs_size :: u64
  mem_chunks :: "(u64 \<times> u64) list"
  ts :: u64
  free_set_list :: "ssmem_free_set list"
  free_set_num :: u64
  collected_set_list :: "ssmem_free_set list"
  collected_set_num :: u64
  available_set_list :: "ssmem_free_set list"
  released_num :: u64
  released_mem_list :: u64

record ssmem =
  mallocs :: "u64 list"
  blocks :: "(u64 \<times> u64) list"
  ts_mem :: "u64 \<Rightarrow> ssmem_ts option"
  rel_mem :: "u64 \<Rightarrow> ssmem_released option"
  ssmem_ts_list :: "u64 list"
  ssmem_ts_list_len :: u32
  ssmem_ts_local :: "nat \<Rightarrow> u64"
  ssmem_num_allocators :: "nat \<Rightarrow> u64"
  ssmem_allocator_list :: "nat \<Rightarrow> (u64 \<times> u64) list"
  allocator_mem :: "u64 \<Rightarrow> ssmem_allocator option"

section \<open>The C library\<close>

definition blk_disj :: "u64 \<times> u64 \<Rightarrow> u64 \<times> u64 \<Rightarrow> bool" where
  "blk_disj b c \<longleftrightarrow> unat (fst b) + unat (snd b) \<le> unat (fst c) \<or> unat (fst c) + unat (snd c) \<le> unat (fst b)"

definition blk_fits :: "nat \<Rightarrow> u64 \<times> u64 \<Rightarrow> (u64 \<times> u64) list \<Rightarrow> bool" where
  "blk_fits al b bs \<longleftrightarrow>
     fst b \<noteq> 0 \<and> unat (fst b) mod al = 0 \<and> unat (fst b) + unat (snd b) \<le> 2 ^ 64 \<and> list_all (blk_disj b) bs"

definition memalign :: "nat \<Rightarrow> u64 \<Rightarrow> ssmem \<Rightarrow> u64 \<times> ssmem" where
  "memalign al n s =
     (case mallocs s of
        [] \<Rightarrow> (0, s)
      | p # ms \<Rightarrow>
          let b = (p, max 1 n); s = s\<lparr>mallocs := ms\<rparr> in
          if blk_fits al b (blocks s) then (p, s\<lparr>blocks := b # blocks s\<rparr>) else (0, s))"

definition malloc :: "u64 \<Rightarrow> ssmem \<Rightarrow> u64 \<times> ssmem" where
  "malloc = memalign 16"

definition libc_free :: "u64 \<Rightarrow> ssmem \<Rightarrow> ssmem run" where
  "libc_free p s =
     (if p = 0 then Ret s
      else if p \<in> fst ` set (blocks s) then Ret (s\<lparr>blocks := filter (\<lambda>b. fst b \<noteq> p) (blocks s)\<rparr>)
      else Abort ''free(): invalid pointer'')"

section \<open>Nodes\<close>

definition get_allocator :: "u64 \<Rightarrow> ssmem \<Rightarrow> ssmem_allocator run" where
  "get_allocator a s = (case allocator_mem s a of None \<Rightarrow> Abort ''bad allocator'' | Some x \<Rightarrow> Ret x)"

definition put_allocator :: "u64 \<Rightarrow> ssmem_allocator \<Rightarrow> ssmem \<Rightarrow> ssmem" where
  "put_allocator a x s = s\<lparr>allocator_mem := (allocator_mem s)(a := Some x)\<rparr>"

definition ssmem_list_node_new :: "u64 \<Rightarrow> (u64 \<times> u64) list \<Rightarrow> ssmem \<Rightarrow> ((u64 \<times> u64) list \<times> ssmem) run" where
  "ssmem_list_node_new m next s =
     (let (mc, s) = malloc 16 s in
      bind_run (assert_run (mc \<noteq> 0) ''mc != NULL'') (\<lambda>_. Ret ((mc, m) # next, s)))"

definition ssmem_free_set_new :: "u64 \<Rightarrow> ssmem \<Rightarrow> (ssmem_free_set \<times> ssmem) run" where
  "ssmem_free_set_new n s =
     (let (fs, s) = memalign SSMEM_LINE (64 + n * 8) s in
      bind_run (assert_run (fs \<noteq> 0) ''fs != NULL'') (\<lambda>_.
        Ret (\<lparr>fs_addr = fs, ts_set = None, fs_slots = n, fs_curr = 0, fs_set = replicate (unat n) None\<rparr>, s)))"

definition ssmem_free_set_get_avail :: "u64 \<Rightarrow> u64 \<Rightarrow> ssmem \<Rightarrow> (ssmem_free_set \<times> ssmem) run" where
  "ssmem_free_set_get_avail a n s =
     bind_run (get_allocator a s) (\<lambda>x.
       case available_set_list x of
         fs # rest \<Rightarrow> Ret (fs\<lparr>fs_curr := 0\<rparr>, put_allocator a (x\<lparr>available_set_list := rest\<rparr>) s)
       | [] \<Rightarrow> ssmem_free_set_new n s)"

definition ssmem_free_set_free :: "ssmem_free_set \<Rightarrow> ssmem \<Rightarrow> ssmem run" where
  "ssmem_free_set_free fs s =
     bind_run (libc_free (case ts_set fs of None \<Rightarrow> 0 | Some v \<Rightarrow> fst v) s) (libc_free (fs_addr fs))"

definition ssmem_free_set_make_avail :: "ssmem_allocator \<Rightarrow> ssmem_free_set \<Rightarrow> ssmem_allocator" where
  "ssmem_free_set_make_avail x fs = x\<lparr>available_set_list := fs\<lparr>fs_curr := 0\<rparr> # available_set_list x\<rparr>"

section \<open>Time stamps\<close>

definition ssmem_ts_next :: "nat \<Rightarrow> ssmem \<Rightarrow> ssmem run" where
  "ssmem_ts_next t s =
     (case ts_mem s (ssmem_ts_local s t) of
        None \<Rightarrow> Abort ''ssmem_ts_local''
      | Some x \<Rightarrow> Ret (s\<lparr>ts_mem := (ts_mem s)(ssmem_ts_local s t := Some (x\<lparr>version := version x + 1\<rparr>))\<rparr>))"

text \<open>The vector of a free set that has none yet, the read of one version, and the whole walk.\<close>

definition ts_set_start :: "ts_vector option \<Rightarrow> ssmem \<Rightarrow> (ts_vector \<times> ssmem) run" where
  "ts_set_start v s =
     (case v of
        Some v \<Rightarrow> Ret (v, s)
      | None \<Rightarrow>
          let (p, s) = malloc (ucast (ssmem_ts_list_len s) * 8) s in
          bind_run (assert_run (p \<noteq> 0) ''ts_set != NULL'') (\<lambda>_.
            Ret ((p, replicate (unat (ssmem_ts_list_len s)) None), s)))"

definition ts_set_read :: "u64 \<Rightarrow> u64 option list \<Rightarrow> ssmem \<Rightarrow> (u64 option list) run" where
  "ts_set_read cur es s =
     (case ts_mem s cur of
        None \<Rightarrow> Abort ''use after free''
      | Some x \<Rightarrow>
          if unat (ts_ident x) < length es then Ret (es[unat (ts_ident x) := Some (version x)])
          else Abort ''out of bounds'')"

primrec ts_set_walk :: "u64 list \<Rightarrow> u64 option list \<Rightarrow> ssmem \<Rightarrow> (u64 option list) run" where
  "ts_set_walk [] es s = Ret es"
| "ts_set_walk (cur # next) es s = bind_run (ts_set_read cur es s) (\<lambda>es. ts_set_walk next es s)"

definition ssmem_ts_set_collect :: "ts_vector option \<Rightarrow> ssmem \<Rightarrow> (ts_vector \<times> ssmem) run" where
  "ssmem_ts_set_collect v s =
     bind_run (ts_set_start v s) (\<lambda>((p, es), s).
     bind_run (ts_set_walk (ssmem_ts_list s) es s) (\<lambda>es. Ret ((p, es), s)))"

definition ts_get :: "u64 option list \<Rightarrow> nat \<Rightarrow> u64 run" where
  "ts_get es i =
     (if i < length es then case es ! i of None \<Rightarrow> Abort ''uninitialised'' | Some v \<Rightarrow> Ret v
      else Abort ''out of bounds'')"

text \<open>The loop over the entries \<open>i, \<dots>, i + n - 1\<close>.\<close>

fun ts_compare_loop :: "nat \<Rightarrow> nat \<Rightarrow> u64 option list \<Rightarrow> u64 option list \<Rightarrow> bool run" where
  "ts_compare_loop 0 i s_new s_old = Ret True"
| "ts_compare_loop (Suc n) i s_new s_old =
     bind_run (ts_get s_new i) (\<lambda>v. bind_run (ts_get s_old i) (\<lambda>w.
       if v \<le> w then Ret False else ts_compare_loop n (Suc i) s_new s_old))"

definition ssmem_ts_compare :: "u64 option list \<Rightarrow> u64 option list \<Rightarrow> ssmem \<Rightarrow> bool run" where
  "ssmem_ts_compare s_new s_old s = ts_compare_loop (unat (ssmem_ts_list_len s)) 0 s_new s_old"

fun ts_compare_3_loop ::
  "nat \<Rightarrow> nat \<Rightarrow> u64 option list \<Rightarrow> u64 option list \<Rightarrow> u64 option list \<Rightarrow> bool run" where
  "ts_compare_3_loop 0 i s1 s2 s3 = Ret True"
| "ts_compare_3_loop (Suc n) i s1 s2 s3 =
     bind_run (ts_get s1 i) (\<lambda>u. bind_run (ts_get s2 i) (\<lambda>v.
       if u \<le> v then Ret False
       else bind_run (ts_get s3 i) (\<lambda>w. if v \<le> w then Ret False else ts_compare_3_loop n (Suc i) s1 s2 s3)))"

definition ssmem_ts_compare_3 ::
  "u64 option list \<Rightarrow> u64 option list \<Rightarrow> u64 option list \<Rightarrow> ssmem \<Rightarrow> bool run" where
  "ssmem_ts_compare_3 s1 s2 s3 s = ts_compare_3_loop (unat (ssmem_ts_list_len s)) 0 s1 s2 s3"

section \<open>Initialisation\<close>

definition ssmem_gc_thread_init :: "nat \<Rightarrow> u64 \<Rightarrow> int \<Rightarrow> ssmem \<Rightarrow> ssmem run" where
  "ssmem_gc_thread_init t a i s =
     bind_run (get_allocator a s) (\<lambda>x.
     let x = x\<lparr>ts := ssmem_ts_local s t\<rparr> in
     if ts x \<noteq> 0 then Ret (put_allocator a x s)
     else
       let (p, s) = memalign SSMEM_LINE 128 s in
       bind_run (assert_run (p \<noteq> 0) ''a->ts != NULL'') (\<lambda>_.
         Ret (put_allocator a (x\<lparr>ts := p\<rparr>) (s\<lparr>
           ssmem_ts_local := (ssmem_ts_local s)(t := p),
           ts_mem := (ts_mem s)(p := Some \<lparr>version = 0, ts_ident = word_of_int i\<rparr>),
           ssmem_ts_list := p # ssmem_ts_list s,
           ssmem_ts_list_len := ssmem_ts_list_len s + 1\<rparr>))))"

text \<open>The fields that \<^verbatim>\<open>ssmem_alloc_init_fs_size\<close> sets before it registers the thread.\<close>

definition fresh_allocator :: "u64 \<Rightarrow> u64 \<Rightarrow> u64 \<Rightarrow> (u64 \<times> u64) list \<Rightarrow> ssmem_allocator" where
  "fresh_allocator m n fss chunks =
     \<lparr>mem = m, mem_curr = 0, mem_size = n, tot_size = n, fs_size = fss, mem_chunks = chunks, ts = 0,
      free_set_list = [], free_set_num = 1, collected_set_list = [], collected_set_num = 0,
      available_set_list = [], released_num = 0, released_mem_list = 0\<rparr>"

definition ssmem_alloc_init_fs_size :: "nat \<Rightarrow> u64 \<Rightarrow> u64 \<Rightarrow> u64 \<Rightarrow> int \<Rightarrow> ssmem \<Rightarrow> ssmem run" where
  "ssmem_alloc_init_fs_size t a n fss i s =
     (let s = s\<lparr>ssmem_num_allocators := (ssmem_num_allocators s)(t := ssmem_num_allocators s t + 1)\<rparr> in
      bind_run (ssmem_list_node_new a (ssmem_allocator_list s t) s) (\<lambda>(l, s).
      let s = s\<lparr>ssmem_allocator_list := (ssmem_allocator_list s)(t := l)\<rparr>;
          (m, s) = memalign SSMEM_LINE n s in
      bind_run (assert_run (m \<noteq> 0) ''a->mem != NULL'') (\<lambda>_.
      bind_run (ssmem_list_node_new m [] s) (\<lambda>(chunks, s).
      bind_run (ssmem_gc_thread_init t a i (put_allocator a (fresh_allocator m n fss chunks) s)) (\<lambda>s.
      bind_run (ssmem_free_set_new fss s) (\<lambda>(fs, s).
      bind_run (get_allocator a s) (\<lambda>x.
        Ret (put_allocator a (x\<lparr>free_set_list := [fs]\<rparr>) s))))))))"

definition ssmem_alloc_init :: "nat \<Rightarrow> u64 \<Rightarrow> u64 \<Rightarrow> int \<Rightarrow> ssmem \<Rightarrow> ssmem run" where
  "ssmem_alloc_init t a n i s = ssmem_alloc_init_fs_size t a n SSMEM_GC_FREE_SET_SIZE i s"

section \<open>Allocation\<close>

fun mem_size_loop :: "nat \<Rightarrow> u64 \<Rightarrow> u64 \<Rightarrow> u64 run" where
  "mem_size_loop 0 ms n = OutOfFuel"
| "mem_size_loop (Suc fuel) ms n =
     (if ms < n then
        bind_run (assert_run (ms \<le> SSMEM_MEM_SIZE_MAX) ''a->mem_size <= SSMEM_MEM_SIZE_MAX'') (\<lambda>_.
          mem_size_loop fuel (push_bit 1 ms) n)
      else Ret ms)"

definition next_mem_size :: "u64 \<Rightarrow> u64 \<Rightarrow> u64 run" where
  "next_mem_size ms n =
     (let ms = push_bit 1 ms;
          ms = (if ms > SSMEM_MEM_SIZE_MAX then SSMEM_MEM_SIZE_MAX else ms) in
      if n > ms then mem_size_loop 64 ms n else Ret ms)"

definition ssmem_new_chunk :: "u64 \<Rightarrow> u64 \<Rightarrow> ssmem \<Rightarrow> ssmem run" where
  "ssmem_new_chunk a n s =
     bind_run (get_allocator a s) (\<lambda>x.
     bind_run (next_mem_size (mem_size x) n) (\<lambda>ms.
     let (m, s) = memalign SSMEM_LINE ms s in
     bind_run (assert_run (m \<noteq> 0) ''a->mem != NULL'') (\<lambda>_.
     bind_run (ssmem_list_node_new m (mem_chunks x) s) (\<lambda>(chunks, s).
       Ret (put_allocator a (x\<lparr>mem := m, mem_curr := 0, mem_size := ms, tot_size := tot_size x + ms,
              mem_chunks := chunks\<rparr>) s)))))"

definition ssmem_alloc :: "u64 \<Rightarrow> u64 \<Rightarrow> ssmem \<Rightarrow> (u64 \<times> ssmem) run" where
  "ssmem_alloc a n s =
     bind_run (get_allocator a s) (\<lambda>x.
     case collected_set_list x of
       cs # rest \<Rightarrow>
         let c = fs_curr cs - 1; cs = cs\<lparr>fs_curr := c\<rparr> in
         bind_run (assert_run (0 \<le> c) ''out of bounds'') (\<lambda>_.
         bind_run (ts_get (fs_set cs) (nat c)) (\<lambda>m.
           if c \<le> 0 then
             Ret (m, put_allocator a (ssmem_free_set_make_avail
                    (x\<lparr>collected_set_list := rest, collected_set_num := collected_set_num x - 1\<rparr>) cs) s)
           else Ret (m, put_allocator a (x\<lparr>collected_set_list := cs # rest\<rparr>) s)))
     | [] \<Rightarrow>
         bind_run (if mem_curr x + n \<ge> mem_size x then ssmem_new_chunk a n s else Ret s) (\<lambda>s.
         bind_run (get_allocator a s) (\<lambda>x.
           Ret (mem x + mem_curr x, put_allocator a (x\<lparr>mem_curr := mem_curr x + n\<rparr>) s))))"

section \<open>Reclamation\<close>

definition get_rel :: "u64 \<Rightarrow> ssmem \<Rightarrow> ssmem_released run" where
  "get_rel p s = (case rel_mem s p of None \<Rightarrow> Abort ''use after free'' | Some r \<Rightarrow> Ret r)"

definition free_rel :: "u64 \<Rightarrow> ssmem \<Rightarrow> ssmem run" where
  "free_rel p s = bind_run (libc_free p s) (\<lambda>s. Ret (s\<lparr>rel_mem := (rel_mem s)(p := None)\<rparr>))"

text \<open>The \<^verbatim>\<open>do\<close> loop: the node is freed before its \<^verbatim>\<open>next\<close> is read.\<close>

fun free_released_loop :: "nat \<Rightarrow> u64 \<Rightarrow> ssmem \<Rightarrow> ssmem run" where
  "free_released_loop 0 rel_nxt s = OutOfFuel"
| "free_released_loop (Suc fuel) rel_nxt s =
     (let rel_cur = rel_nxt in
      bind_run (get_rel rel_cur s) (\<lambda>r.
      bind_run (libc_free (rel_obj r) s) (\<lambda>s.
      bind_run (free_rel rel_cur s) (\<lambda>s.
      bind_run (get_rel rel_nxt s) (\<lambda>r.
        if rel_next r = 0 then Ret s else free_released_loop fuel (rel_next r) s)))))"

definition reclaim_released :: "u64 \<Rightarrow> ssmem \<Rightarrow> ssmem run" where
  "reclaim_released a s =
     bind_run (get_allocator a s) (\<lambda>x.
     bind_run (get_rel (released_mem_list x) s) (\<lambda>rel_cur.
     if rel_next rel_cur = 0 then Ret s
     else
       bind_run (get_rel (rel_next rel_cur) s) (\<lambda>rel_nxt.
       bind_run (ssmem_ts_compare (rel_ts_set rel_cur) (rel_ts_set rel_nxt) s) (\<lambda>newer.
       if newer then
         free_released_loop (Suc (length (blocks s))) (rel_next rel_cur)
           (put_allocator a (x\<lparr>released_num := 1\<rparr>)
             (s\<lparr>rel_mem := (rel_mem s)(released_mem_list x := Some (rel_cur\<lparr>rel_next := 0\<rparr>))\<rparr>))
       else Ret s))))"

definition reclaim_sets :: "u64 \<Rightarrow> ssmem \<Rightarrow> (u64 \<times> ssmem) run" where
  "reclaim_sets a s =
     bind_run (get_allocator a s) (\<lambda>x.
     case free_set_list x of
       [] \<Rightarrow> Abort ''NULL free set''
     | fs_cur # rest \<Rightarrow>
         (case (ts_set fs_cur, rest) of
            (Some v, fs_nxt # older) \<Rightarrow>
              (case ts_set fs_nxt of
                 None \<Rightarrow> Ret (0, s)
               | Some w \<Rightarrow>
                   bind_run (ssmem_ts_compare (snd v) (snd w) s) (\<lambda>newer.
                   if newer then
                     let gced_num = free_set_num x - 1 in
                     Ret (gced_num, put_allocator a (x\<lparr>
                       free_set_list := [fs_cur], free_set_num := 1,
                       collected_set_list := collected_set_list x @ rest,
                       collected_set_num := collected_set_num x + gced_num\<rparr>) s)
                   else Ret (0, s)))
          | _ \<Rightarrow> Ret (0, s)))"

definition ssmem_mem_reclaim :: "u64 \<Rightarrow> ssmem \<Rightarrow> (u64 \<times> ssmem) run" where
  "ssmem_mem_reclaim a s =
     bind_run (get_allocator a s) (\<lambda>x.
     bind_run (if released_num x > 0 then reclaim_released a s else Ret s) (reclaim_sets a))"

section \<open>Freeing\<close>

text \<open>
  \<^verbatim>\<open>ssmem_free\<close> in three parts, so that other threads can run between the reads of the versions: the
  stamping of the full set (above), what follows it, and the store of the object.
\<close>

definition free_set_full :: "u64 \<Rightarrow> ssmem \<Rightarrow> bool run" where
  "free_set_full a s =
     bind_run (get_allocator a s) (\<lambda>x.
     case free_set_list x of
       [] \<Rightarrow> Abort ''NULL free set''
     | fs # _ \<Rightarrow> Ret (fs_curr fs = uint (fs_slots fs)))"

definition free_set_stamp :: "u64 \<Rightarrow> ts_vector \<Rightarrow> ssmem \<Rightarrow> ssmem run" where
  "free_set_stamp a v s =
     bind_run (get_allocator a s) (\<lambda>x.
     case free_set_list x of
       [] \<Rightarrow> Abort ''NULL free set''
     | fs # rest \<Rightarrow> Ret (put_allocator a (x\<lparr>free_set_list := fs\<lparr>ts_set := Some v\<rparr> # rest\<rparr>) s))"

definition free_set_renew :: "u64 \<Rightarrow> ssmem \<Rightarrow> ssmem run" where
  "free_set_renew a s =
     bind_run (ssmem_mem_reclaim a s) (\<lambda>(_, s).
     bind_run (get_allocator a s) (\<lambda>x.
     bind_run (ssmem_free_set_get_avail a (fs_size x) s) (\<lambda>(fs_new, s).
     bind_run (get_allocator a s) (\<lambda>x.
       Ret (put_allocator a (x\<lparr>free_set_list := fs_new # free_set_list x, free_set_num := free_set_num x + 1\<rparr>) s)))))"

definition free_set_store :: "nat \<Rightarrow> u64 \<Rightarrow> u64 \<Rightarrow> ssmem \<Rightarrow> ssmem run" where
  "free_set_store t a obj s =
     bind_run (get_allocator a s) (\<lambda>x.
     case free_set_list x of
       [] \<Rightarrow> Abort ''NULL free set''
     | fs # rest \<Rightarrow>
         bind_run (assert_run (0 \<le> fs_curr fs \<and> nat (fs_curr fs) < length (fs_set fs)) ''out of bounds'') (\<lambda>_.
           ssmem_ts_next t (put_allocator a (x\<lparr>free_set_list :=
             fs\<lparr>fs_set := (fs_set fs)[nat (fs_curr fs) := Some obj], fs_curr := fs_curr fs + 1\<rparr> # rest\<rparr>) s)))"

definition free_set_head_ts :: "u64 \<Rightarrow> ssmem \<Rightarrow> ts_vector option run" where
  "free_set_head_ts a s =
     bind_run (get_allocator a s) (\<lambda>x.
     case free_set_list x of [] \<Rightarrow> Abort ''NULL free set'' | fs # _ \<Rightarrow> Ret (ts_set fs))"

definition ssmem_free :: "nat \<Rightarrow> u64 \<Rightarrow> u64 \<Rightarrow> ssmem \<Rightarrow> ssmem run" where
  "ssmem_free t a obj s =
     bind_run (free_set_full a s) (\<lambda>full.
     if full then
       bind_run (free_set_head_ts a s) (\<lambda>v.
       bind_run (ssmem_ts_set_collect v s) (\<lambda>(v, s).
       bind_run (free_set_stamp a v s) (\<lambda>s.
       bind_run (free_set_renew a s) (free_set_store t a obj))))
     else free_set_store t a obj s)"

definition ssmem_released_node_new :: "u64 \<Rightarrow> u64 \<Rightarrow> ssmem \<Rightarrow> (u64 \<times> ssmem) run" where
  "ssmem_released_node_new m next s =
     (let (p, s) = malloc (24 + ucast (ssmem_ts_list_len s) * 8) s in
      bind_run (assert_run (p \<noteq> 0) ''rel != NULL'') (\<lambda>_.
        Ret (p, s\<lparr>rel_mem := (rel_mem s)(p := Some
          \<lparr>rel_ts_set = replicate (unat (ssmem_ts_list_len s)) None, rel_obj = m, rel_next = next\<rparr>)\<rparr>)))"

definition ssmem_release :: "u64 \<Rightarrow> u64 \<Rightarrow> ssmem \<Rightarrow> ssmem run" where
  "ssmem_release a obj s =
     bind_run (get_allocator a s) (\<lambda>x.
     bind_run (ssmem_released_node_new obj (released_mem_list x) s) (\<lambda>(p, s).
     bind_run (get_rel p s) (\<lambda>r.
     bind_run (ts_set_walk (ssmem_ts_list s) (rel_ts_set r) s) (\<lambda>es.
     let s = put_allocator a (x\<lparr>released_num := released_num x + 1, released_mem_list := p\<rparr>)
               (s\<lparr>rel_mem := (rel_mem s)(p := Some (r\<lparr>rel_ts_set := es\<rparr>))\<rparr>) in
     if released_num x + 1 \<ge> SSMEM_GC_RLSE_SET_SIZE
     then bind_run (ssmem_mem_reclaim a s) (\<lambda>(_, s). Ret s)
     else Ret s))))"

section \<open>Termination\<close>

primrec free_chunks :: "(u64 \<times> u64) list \<Rightarrow> ssmem \<Rightarrow> ssmem run" where
  "free_chunks [] s = Ret s"
| "free_chunks (c # cs) s = bind_run (libc_free (snd c) s) (\<lambda>s. bind_run (libc_free (fst c) s) (free_chunks cs))"

primrec free_sets :: "ssmem_free_set list \<Rightarrow> ssmem \<Rightarrow> ssmem run" where
  "free_sets [] s = Ret s"
| "free_sets (fs # rest) s = bind_run (ssmem_free_set_free fs s) (free_sets rest)"

fun free_released :: "nat \<Rightarrow> u64 \<Rightarrow> ssmem \<Rightarrow> ssmem run" where
  "free_released 0 rel s = OutOfFuel"
| "free_released (Suc fuel) rel s =
     (if rel = 0 then Ret s
      else
        bind_run (get_rel rel s) (\<lambda>r.
        bind_run (libc_free (rel_obj r) s) (\<lambda>s.
        bind_run (free_rel rel s) (free_released fuel (rel_next r)))))"

text \<open>The unlinking of the allocator from the list of the thread; a missing entry is only reported.\<close>

fun unlink :: "u64 \<Rightarrow> (u64 \<times> u64) list \<Rightarrow> (u64 \<times> u64) list" where
  "unlink a [] = []"
| "unlink a (c # cs) = (if snd c = a then cs else c # unlink a cs)"

definition free_ts :: "u64 \<Rightarrow> ssmem \<Rightarrow> ssmem run" where
  "free_ts p s = bind_run (libc_free p s) (\<lambda>s. Ret (s\<lparr>ts_mem := (ts_mem s)(p := None)\<rparr>))"

definition ssmem_alloc_term :: "nat \<Rightarrow> u64 \<Rightarrow> ssmem \<Rightarrow> ssmem run" where
  "ssmem_alloc_term t a s =
     bind_run (get_allocator a s) (\<lambda>x.
     bind_run (assert_run (mem_chunks x \<noteq> []) ''NULL chunk'') (\<lambda>_.
     bind_run (free_chunks (mem_chunks x) s) (\<lambda>s.
     let n = ssmem_num_allocators s t - 1;
         s = s\<lparr>ssmem_allocator_list := (ssmem_allocator_list s)(t := unlink a (ssmem_allocator_list s t)),
               ssmem_num_allocators := (ssmem_num_allocators s)(t := n)\<rparr> in
     bind_run (if n = 0 then free_ts (ts x) s else Ret s) (\<lambda>s.
     bind_run (free_sets (free_set_list x) s) (\<lambda>s.
     bind_run (free_sets (collected_set_list x) s) (\<lambda>s.
     bind_run (free_sets (available_set_list x) s) (\<lambda>s.
       free_released (Suc (length (blocks s))) (released_mem_list x) s)))))))"

fun term_loop :: "nat \<Rightarrow> nat \<Rightarrow> ssmem \<Rightarrow> ssmem run" where
  "term_loop 0 t s = OutOfFuel"
| "term_loop (Suc fuel) t s =
     (case ssmem_allocator_list s t of
        [] \<Rightarrow> Ret s
      | c # _ \<Rightarrow> bind_run (ssmem_alloc_term t (snd c) s) (term_loop fuel t))"

definition ssmem_term :: "nat \<Rightarrow> ssmem \<Rightarrow> ssmem run" where
  "ssmem_term t s = term_loop (Suc (length (ssmem_allocator_list s t))) t s"

end
