(* ===== verification/SsmemOps.thy ===== *)
theory SsmemOps
  imports Ssmem
begin

text \<open>
  What each operation of \<^verbatim>\<open>ssmem.c\<close> does to the allocator it is called with. \<open>safe_run\<close> says that an
  operation returns and what it returns, or stops at the check of a failed \<^verbatim>\<open>malloc\<close>; an access out of
  bounds, through a dangling pointer or of an uninitialised entry is excluded. \<open>sets_ok\<close> is the
  well-formedness of the free sets of an allocator.
\<close>

section \<open>Runs that stop only for lack of memory\<close>

definition oom :: "string set" where
  "oom = {''mc != NULL'', ''fs != NULL'', ''ts_set != NULL'', ''a->mem != NULL''}"

definition safe_run :: "('a \<Rightarrow> bool) \<Rightarrow> 'a run \<Rightarrow> bool" where
  "safe_run P r \<longleftrightarrow> (case r of Ret x \<Rightarrow> P x | Abort m \<Rightarrow> m \<in> oom | OutOfFuel \<Rightarrow> False)"

lemma safe_run_simps [simp]:
  "safe_run P (Ret x) = P x" "safe_run P (Abort m) = (m \<in> oom)" "\<not> safe_run P OutOfFuel"
  by (simp_all add: safe_run_def)

lemma safe_bind:
  "safe_run P r \<Longrightarrow> (\<And>x. P x \<Longrightarrow> safe_run Q (f x)) \<Longrightarrow> safe_run Q (bind_run r f)"
  by (cases r) auto

lemma safe_mono: "safe_run P r \<Longrightarrow> (\<And>x. P x \<Longrightarrow> Q x) \<Longrightarrow> safe_run Q r"
  by (cases r) auto

lemma safe_Ret: "safe_run P r \<Longrightarrow> r = Ret x \<Longrightarrow> P x"
  by simp

section \<open>The C library\<close>

text \<open>\<open>more_blocks s s'\<close>: only the C library was called, and it gave memory.\<close>

definition more_blocks :: "ssmem \<Rightarrow> ssmem \<Rightarrow> bool" where
  "more_blocks s s' \<longleftrightarrow>
     (\<exists>ms bs. s' = s\<lparr>mallocs := ms, blocks := bs\<rparr> \<and> set (blocks s) \<subseteq> set bs)"

lemma more_blocks_refl [simp]: "more_blocks s s"
  unfolding more_blocks_def by (rule exI[of _ "mallocs s"], rule exI[of _ "blocks s"]) simp

lemma more_blocks_trans [trans]: "more_blocks s s' \<Longrightarrow> more_blocks s' s'' \<Longrightarrow> more_blocks s s''"
  unfolding more_blocks_def by force

lemma more_blocksD:
  assumes "more_blocks s s'"
  shows "allocator_mem s' = allocator_mem s" "ts_mem s' = ts_mem s" "rel_mem s' = rel_mem s"
    "ssmem_ts_list s' = ssmem_ts_list s" "ssmem_ts_list_len s' = ssmem_ts_list_len s"
    "ssmem_ts_local s' = ssmem_ts_local s" "set (blocks s) \<subseteq> set (blocks s')"
    "ssmem_num_allocators s' = ssmem_num_allocators s" "ssmem_allocator_list s' = ssmem_allocator_list s"
  using assms unfolding more_blocks_def by auto

lemma memalign_cases:
  obtains (none) s' where "memalign al n s = (0, s')" "more_blocks s s'"
  | (some) p s' where "memalign al n s = (p, s')" "p \<noteq> 0" "more_blocks s s'"
      "blocks s' = (p, max 1 n) # blocks s" "blk_fits al (p, max 1 n) (blocks s)"
proof (cases "mallocs s")
  case Nil
  then show thesis using none[of s] by (simp add: memalign_def)
next
  case (Cons p ms)
  show thesis
  proof (cases "blk_fits al (p, max 1 n) (blocks s)")
    case True
    have "memalign al n s = (p, s\<lparr>mallocs := ms, blocks := (p, max 1 n) # blocks s\<rparr>)"
      using Cons True by (simp add: memalign_def)
    moreover have "p \<noteq> 0" using True by (simp add: blk_fits_def)
    moreover have "more_blocks s (s\<lparr>mallocs := ms, blocks := (p, max 1 n) # blocks s\<rparr>)"
      unfolding more_blocks_def by (rule exI, rule exI, rule conjI, rule refl) auto
    ultimately show thesis using some True by simp
  next
    case False
    have "memalign al n s = (0, s\<lparr>mallocs := ms\<rparr>)" using Cons False by (simp add: memalign_def)
    moreover have "more_blocks s (s\<lparr>mallocs := ms\<rparr>)"
      unfolding more_blocks_def by (rule exI[of _ ms], rule exI[of _ "blocks s"]) simp
    ultimately show thesis using none by blast
  qed
qed

lemma get_put [simp]: "get_allocator a (put_allocator a x s) = Ret x"
  by (simp add: get_allocator_def put_allocator_def)

lemma get_allocator_Some: "allocator_mem s a = Some x \<Longrightarrow> get_allocator a s = Ret x"
  by (simp add: get_allocator_def)

lemma put_fields [simp]:
  "ts_mem (put_allocator a x s) = ts_mem s" "blocks (put_allocator a x s) = blocks s"
  "ssmem_ts_list (put_allocator a x s) = ssmem_ts_list s"
  "ssmem_ts_list_len (put_allocator a x s) = ssmem_ts_list_len s"
  "ssmem_ts_local (put_allocator a x s) = ssmem_ts_local s"
  "allocator_mem (put_allocator a x s) = (allocator_mem s)(a := Some x)"
  by (simp_all add: put_allocator_def)

lemma put_put [simp]: "put_allocator a y (put_allocator a x s) = put_allocator a y s"
  by (simp add: put_allocator_def)

lemma list_node_new_safe:
  "safe_run (\<lambda>r. \<exists>p s'. r = ((p, m) # l, s') \<and> more_blocks s s') (ssmem_list_node_new m l s)"
  by (rule memalign_cases[of 16 16 s]) (auto simp: ssmem_list_node_new_def malloc_def assert_run_def oom_def)

section \<open>Free sets\<close>

definition fs_ok :: "nat \<Rightarrow> u64 \<Rightarrow> ssmem_free_set \<Rightarrow> bool" where
  "fs_ok n m fs \<longleftrightarrow>
     fs_slots fs = m \<and> length (fs_set fs) = unat m \<and> 0 \<le> fs_curr fs \<and> fs_curr fs \<le> uint m \<and>
     (\<forall>j < nat (fs_curr fs). fs_set fs ! j \<noteq> None) \<and> (\<forall>v. ts_set fs = Some v \<longrightarrow> length (snd v) = n)"

definition fs_full :: "ssmem_free_set \<Rightarrow> bool" where
  "fs_full fs \<longleftrightarrow> fs_curr fs = uint (fs_slots fs)"

definition sets_ok :: "nat \<Rightarrow> ssmem_allocator \<Rightarrow> bool" where
  "sets_ok n x \<longleftrightarrow>
     0 < fs_size x \<and> free_set_list x \<noteq> [] \<and>
     (\<forall>fs \<in> set (free_set_list x @ collected_set_list x @ available_set_list x). fs_ok n (fs_size x) fs) \<and>
     (\<forall>fs \<in> set (tl (free_set_list x)). fs_full fs \<and> ts_set fs \<noteq> None) \<and>
     (\<forall>fs \<in> set (collected_set_list x). 0 < fs_curr fs) \<and> released_num x = 0"

definition fs_objs :: "ssmem_free_set \<Rightarrow> u64 list" where
  "fs_objs fs = map the (take (nat (fs_curr fs)) (fs_set fs))"

definition objs :: "ssmem_allocator \<Rightarrow> u64 list" where
  "objs x = concat (map fs_objs (free_set_list x)) @ concat (map fs_objs (collected_set_list x))"

lemma fs_objs_ts [simp]: "fs_objs (fs\<lparr>ts_set := v\<rparr>) = fs_objs fs"
  by (simp add: fs_objs_def)

lemma fs_objs_empty [simp]: "fs_curr fs = 0 \<Longrightarrow> fs_objs fs = []"
  by (simp add: fs_objs_def)

lemma fs_room:
  assumes "fs_ok n m fs" and "fs_curr fs < uint m"
  shows "nat (fs_curr fs) < length (fs_set fs)" "nat (fs_curr fs + 1) = Suc (nat (fs_curr fs))"
proof -
  have c: "0 \<le> fs_curr fs" "length (fs_set fs) = unat m" using assms(1) by (simp_all add: fs_ok_def)
  have "nat (fs_curr fs) < nat (uint m)" using c(1) assms(2) by linarith
  then show "nat (fs_curr fs) < length (fs_set fs)" using c(2) by (simp add: nat_uint_eq)
  show "nat (fs_curr fs + 1) = Suc (nat (fs_curr fs))" using c(1) by linarith
qed

lemma fs_objs_store:
  assumes "fs_ok n m fs" and "fs_curr fs < uint m"
  shows "fs_objs (fs\<lparr>fs_set := (fs_set fs)[nat (fs_curr fs) := Some p], fs_curr := fs_curr fs + 1\<rparr>) = fs_objs fs @ [p]"
  using fs_room[OF assms] by (simp add: fs_objs_def take_Suc_conv_app_nth)

lemma fs_ok_store:
  assumes "fs_ok n m fs" and "fs_curr fs < uint m"
  shows "fs_ok n m (fs\<lparr>fs_set := (fs_set fs)[nat (fs_curr fs) := Some p], fs_curr := fs_curr fs + 1\<rparr>)"
proof -
  have init: "\<forall>j < nat (fs_curr fs). fs_set fs ! j \<noteq> None" using assms(1) by (simp add: fs_ok_def)
  have "(fs_set fs)[nat (fs_curr fs) := Some p] ! j \<noteq> None" if "j < nat (fs_curr fs + 1)" for j
    using that init fs_room[OF assms] by (cases "j = nat (fs_curr fs)") simp_all
  moreover have "fs_curr fs + 1 \<le> uint m" using assms(2) by linarith
  ultimately show ?thesis using assms(1) unfolding fs_ok_def by simp
qed

text \<open>Taking the last object of a set.\<close>

lemma fs_take:
  assumes "fs_ok n m fs" and "0 < fs_curr fs"
  obtains p where "ts_get (fs_set fs) (nat (fs_curr fs - 1)) = Ret p"
    "fs_objs fs = fs_objs (fs\<lparr>fs_curr := fs_curr fs - 1\<rparr>) @ [p]"
    "fs_ok n m (fs\<lparr>fs_curr := fs_curr fs - 1\<rparr>)"
proof -
  let ?fs = "fs\<lparr>fs_curr := fs_curr fs - 1\<rparr>"
  have ok: "fs_ok n m ?fs" using assms unfolding fs_ok_def by simp
  have "fs_curr ?fs < uint m" using assms by (simp add: fs_ok_def)
  note room = fs_room[OF ok this]
  define k where "k = nat (fs_curr fs - 1)"
  have k: "nat (fs_curr fs) = Suc k" "k < length (fs_set fs)" using room by (simp_all add: k_def)
  have "fs_set fs ! k \<noteq> None" using assms(1) k(1) by (simp add: fs_ok_def)
  then obtain p where p: "fs_set fs ! k = Some p" by blast
  show thesis
  proof (rule that[of p, OF _ _ ok])
    show "ts_get (fs_set fs) (nat (fs_curr fs - 1)) = Ret p" using k p by (simp add: ts_get_def flip: k_def)
    show "fs_objs fs = fs_objs ?fs @ [p]"
      using k p by (simp add: fs_objs_def take_Suc_conv_app_nth flip: k_def)
  qed
qed

lemma free_set_new_safe:
  "safe_run (\<lambda>(fs, s'). more_blocks s s' \<and> fs_ok k m fs \<and> fs_curr fs = 0) (ssmem_free_set_new m s)"
  by (rule memalign_cases[of SSMEM_LINE "64 + m * 8" s])
     (auto simp: ssmem_free_set_new_def assert_run_def oom_def fs_ok_def)

section \<open>Comparing time stamps\<close>

definition stamps_full :: "nat \<Rightarrow> u64 option list \<Rightarrow> bool" where
  "stamps_full n es \<longleftrightarrow> length es = n \<and> None \<notin> set es"

lemma ts_get_full: "stamps_full n es \<Longrightarrow> i < n \<Longrightarrow> ts_get es i = Ret (the (es ! i))"
  unfolding stamps_full_def ts_get_def by (metis (no_types, lifting) nth_mem option.case_eq_if)

lemma ts_compare_loop_eq:
  assumes "stamps_full n v" "stamps_full n w" "i + k \<le> n"
  shows "ts_compare_loop k i v w = Ret (\<forall>j. i \<le> j \<and> j < i + k \<longrightarrow> the (w ! j) < the (v ! j))"
  using assms(3)
proof (induction k arbitrary: i)
  case 0
  show ?case by (auto)
next
  case (Suc k)
  have "i \<le> j \<and> j < i + Suc k \<longleftrightarrow> j = i \<or> Suc i \<le> j \<and> j < Suc i + k" for j by auto
  then have "(\<forall>j. i \<le> j \<and> j < i + Suc k \<longrightarrow> the (w ! j) < the (v ! j)) \<longleftrightarrow>
      the (w ! i) < the (v ! i) \<and> (\<forall>j. Suc i \<le> j \<and> j < Suc i + k \<longrightarrow> the (w ! j) < the (v ! j))"
    by metis
  moreover have "ts_compare_loop (Suc k) i v w =
      (if the (v ! i) \<le> the (w ! i) then Ret False else ts_compare_loop k (Suc i) v w)"
    using Suc.prems ts_get_full[OF assms(1), of i] ts_get_full[OF assms(2), of i] by simp
  moreover have "ts_compare_loop k (Suc i) v w =
      Ret (\<forall>j. Suc i \<le> j \<and> j < Suc i + k \<longrightarrow> the (w ! j) < the (v ! j))"
    using Suc.prems by (intro Suc.IH) simp
  ultimately show ?case by (simp only: not_less[symmetric] if_True if_False split: if_split) simp
qed

lemma ssmem_ts_compare_eq:
  assumes "stamps_full n v" "stamps_full n w" "unat (ssmem_ts_list_len s) = n"
  shows "ssmem_ts_compare v w s = Ret (\<forall>j<n. the (w ! j) < the (v ! j))"
  using ts_compare_loop_eq[OF assms(1,2), of 0 n] assms(3) by (simp add: ssmem_ts_compare_def)

section \<open>Chunks\<close>

lemma unat_double: "unat (ms::u64) < 2 ^ 63 \<Longrightarrow> unat (push_bit 1 ms) = 2 * unat ms"
proof -
  assume "unat ms < 2 ^ 63"
  then have "unat (ms * 2) = 2 * unat ms" by (simp add: unat_word_ariths)
  then show ?thesis by simp
qed

text \<open>The size of a new chunk: large enough for the object, and the loop ends.\<close>

lemma mem_size_loop_ok:
  assumes "0 < ms" "unat ms * 2 ^ fuel \<ge> 2 ^ 33" "unat ms \<le> 2 ^ 33" "unat n \<le> 2 ^ 32"
  shows "\<exists>r. mem_size_loop (Suc fuel) ms n = Ret r \<and> n \<le> r \<and> 0 < r \<and> unat r \<le> 2 ^ 33"
  using assms(1-3)
proof (induction fuel arbitrary: ms)
  case 0
  then have "\<not> ms < n" using assms(4) by (simp add: word_less_nat_alt)
  then show ?case using 0 by (auto simp: not_less)
next
  case (Suc fuel)
  show ?case
  proof (cases "ms < n")
    case True
    then have lt: "unat ms < 2 ^ 32" using assms(4) by (simp add: word_less_nat_alt)
    have dbl: "unat (push_bit 1 ms) = 2 * unat ms" using lt by (intro unat_double) simp
    have "0 < push_bit 1 ms" using Suc.prems(1) dbl by (simp add: word_less_nat_alt word_greater_zero_iff unat_gt_0)
    moreover have "ms \<le> SSMEM_MEM_SIZE_MAX" using lt by (simp add: SSMEM_MEM_SIZE_MAX_def word_le_nat_alt)
    ultimately show ?thesis using Suc.IH[of "push_bit 1 ms"] Suc.prems dbl lt True by simp
  next
    case False
    then show ?thesis using Suc.prems by (auto simp: not_less)
  qed
qed

lemma next_mem_size_ok:
  assumes "0 < ms" "unat ms \<le> 2 ^ 33" "unat n \<le> 2 ^ 32"
  shows "\<exists>r. next_mem_size ms n = Ret r \<and> n \<le> r \<and> 0 < r \<and> unat r \<le> 2 ^ 33"
proof -
  define q where "q = (if push_bit 1 ms > SSMEM_MEM_SIZE_MAX then SSMEM_MEM_SIZE_MAX else push_bit 1 ms)"
  have dbl: "unat (push_bit 1 ms) = 2 * unat ms" using assms(2) by (intro unat_double) simp
  have "0 < unat ms" using assms(1) by (simp add: unat_gt_0 word_greater_zero_iff)
  then have q: "0 < q" "unat q \<le> 2 ^ 32" "0 < unat q"
    using dbl by (auto simp: q_def SSMEM_MEM_SIZE_MAX_def word_less_nat_alt not_less word_le_nat_alt)
  have "(2::nat) ^ 33 \<le> 2 ^ 63" by simp
  also have "\<dots> \<le> unat q * 2 ^ 63" using q(3) by simp
  finally have big: "2 ^ 33 \<le> unat q * 2 ^ 63" .
  have "unat q \<le> 2 ^ 33" using q(2) by simp
  then have loop: "\<exists>r. mem_size_loop (Suc 63) q n = Ret r \<and> n \<le> r \<and> 0 < r \<and> unat r \<le> 2 ^ 33"
    by (rule mem_size_loop_ok[OF q(1) big _ assms(3)])
  have "(64::nat) = Suc 63" by simp
  then have "\<exists>r. mem_size_loop 64 q n = Ret r \<and> n \<le> r \<and> 0 < r \<and> unat r \<le> 2 ^ 33"
    using loop by (simp only:)
  moreover have "next_mem_size ms n = (if n > q then mem_size_loop 64 q n else Ret q)"
    by (simp add: next_mem_size_def Let_def q_def)
  moreover have "unat q \<le> 2 ^ 33" using q(2) by simp
  ultimately show ?thesis using q(1) by (cases "n > q") (simp_all only: if_True if_False not_less, blast)
qed

text \<open>Without a chunk to start from the loop does not end.\<close>

lemma mem_size_loop_zero: "0 < n \<Longrightarrow> mem_size_loop fuel 0 n = OutOfFuel"
  by (induction fuel) (simp_all add: assert_run_def)

end
