(* ===== verification/SsmemSets.thy ===== *)
theory SsmemSets
  imports SsmemOps "HOL-Library.Multiset"
begin

text \<open>
  The calls of \<^verbatim>\<open>ssmem_alloc\<close> and the parts of \<^verbatim>\<open>ssmem_free\<close> on a well-formed allocator: which objects
  enter and leave its free sets, and where a new object comes from.
\<close>

definition same_chunk :: "ssmem_allocator \<Rightarrow> ssmem_allocator \<Rightarrow> bool" where
  "same_chunk x y \<longleftrightarrow> mem y = mem x \<and> mem_curr y = mem_curr x \<and> mem_size y = mem_size x \<and> fs_size y = fs_size x"

lemma sets_okD:
  assumes "sets_ok n x"
  shows "free_set_list x \<noteq> []" "0 < fs_size x" "released_num x = 0"
    "fs \<in> set (free_set_list x) \<Longrightarrow> fs_ok n (fs_size x) fs"
    "fs \<in> set (collected_set_list x) \<Longrightarrow> fs_ok n (fs_size x) fs \<and> 0 < fs_curr fs"
    "fs \<in> set (available_set_list x) \<Longrightarrow> fs_ok n (fs_size x) fs"
    "fs \<in> set (tl (free_set_list x)) \<Longrightarrow> fs_full fs \<and> ts_set fs \<noteq> None"
  using assms unfolding sets_ok_def by auto

lemma fs_ok_reset: "fs_ok n m fs \<Longrightarrow> fs_ok n m (fs\<lparr>fs_curr := 0\<rparr>)"
  by (simp add: fs_ok_def)

section \<open>Allocation from collected sets\<close>

lemma alloc_reuse:
  assumes x: "allocator_mem s a = Some x" and ok: "sets_ok n x" and c: "collected_set_list x \<noteq> []"
  obtains p y where "ssmem_alloc a z s = Ret (p, put_allocator a y s)" "sets_ok n y"
    "free_set_list y = free_set_list x" "same_chunk x y"
    "mset (concat (map fs_objs (collected_set_list x))) = add_mset p (mset (concat (map fs_objs (collected_set_list y))))"
proof -
  obtain cs rest where cs: "collected_set_list x = cs # rest" using c by (cases "collected_set_list x") auto
  have okc: "fs_ok n (fs_size x) cs" "0 < fs_curr cs" using sets_okD(5)[OF ok, of cs] cs by auto
  obtain p where p: "ts_get (fs_set cs) (nat (fs_curr cs - 1)) = Ret p"
    "fs_objs cs = fs_objs (cs\<lparr>fs_curr := fs_curr cs - 1\<rparr>) @ [p]"
    "fs_ok n (fs_size x) (cs\<lparr>fs_curr := fs_curr cs - 1\<rparr>)"
    using fs_take[OF okc] by blast
  show thesis
  proof (cases "fs_curr cs = 1")
    case True
    define y where "y = ssmem_free_set_make_avail
      (x\<lparr>collected_set_list := rest, collected_set_num := collected_set_num x - 1\<rparr>) (cs\<lparr>fs_curr := 0\<rparr>)"
    have "ssmem_alloc a z s = Ret (p, put_allocator a y s)"
      using p(1) True by (simp add: ssmem_alloc_def get_allocator_Some[OF x] cs Let_def y_def)
    moreover have "sets_ok n y"
      using ok okc unfolding sets_ok_def y_def ssmem_free_set_make_avail_def by (auto simp: cs fs_ok_reset)
    moreover have "fs_objs (cs\<lparr>fs_curr := fs_curr cs - 1\<rparr>) = []" using True by simp
    ultimately show thesis
      using that[of p y] p(2) by (simp add: cs y_def ssmem_free_set_make_avail_def same_chunk_def)
  next
    case False
    define y where "y = x\<lparr>collected_set_list := cs\<lparr>fs_curr := fs_curr cs - 1\<rparr> # rest\<rparr>"
    have "1 < fs_curr cs" using False okc by linarith
    then have "ssmem_alloc a z s = Ret (p, put_allocator a y s)"
      using p(1) by (simp add: ssmem_alloc_def get_allocator_Some[OF x] cs Let_def y_def)
    moreover have "sets_ok n y"
      using ok p(3) \<open>1 < fs_curr cs\<close> unfolding sets_ok_def y_def by (auto simp: cs)
    ultimately show thesis using that[of p y] p(2) by (simp add: cs y_def same_chunk_def)
  qed
qed

section \<open>Allocation from a chunk\<close>

text \<open>
  \<open>new_chunk x y s s'\<close>: \<open>y\<close> is the allocator after a chunk was added, a block that overlaps none of
  the blocks of \<open>s\<close>.
\<close>

definition new_chunk :: "ssmem_allocator \<Rightarrow> ssmem_allocator \<Rightarrow> ssmem \<Rightarrow> ssmem \<Rightarrow> bool" where
  "new_chunk x y s s' \<longleftrightarrow>
     more_blocks s s' \<and> mem_curr y = 0 \<and> (mem y, mem_size y) \<in> set (blocks s') \<and>
     0 < mem_size y \<and> unat (mem_size y) \<le> 2 ^ 33 \<and> unat (mem y) + unat (mem_size y) \<le> 2 ^ 64 \<and>
     (\<forall>b \<in> set (blocks s). blk_disj (mem y, mem_size y) b)"

text \<open>\<open>same_sets x y\<close>: the free sets are untouched.\<close>

definition same_sets :: "ssmem_allocator \<Rightarrow> ssmem_allocator \<Rightarrow> bool" where
  "same_sets x y \<longleftrightarrow> free_set_list y = free_set_list x \<and> collected_set_list y = collected_set_list x \<and>
     available_set_list y = available_set_list x \<and> fs_size y = fs_size x \<and> released_num y = released_num x"

lemma same_sets_ok: "same_sets x y \<Longrightarrow> sets_ok n x \<Longrightarrow> sets_ok n y"
  by (simp add: same_sets_def sets_ok_def)

lemma ssmem_new_chunk_safe:
  assumes x: "allocator_mem s a = Some x" and ms: "0 < mem_size x" "unat (mem_size x) \<le> 2 ^ 33"
    and z: "unat z \<le> 2 ^ 32"
  shows "safe_run (\<lambda>s'. \<exists>s1 y. s' = put_allocator a y s1 \<and> new_chunk x y s s1 \<and> z \<le> mem_size y \<and> same_sets x y)
    (ssmem_new_chunk a z s)"
proof -
  obtain m where m: "next_mem_size (mem_size x) z = Ret m" "z \<le> m" "0 < m" "unat m \<le> 2 ^ 33"
    using next_mem_size_ok[OF ms z] by blast
  have max: "max 1 m = m" using m(3) by (simp add: max_def word_le_nat_alt word_less_nat_alt)
  show ?thesis
  proof (rule memalign_cases[of SSMEM_LINE m s])
    fix s' assume "memalign SSMEM_LINE m s = (0, s')"
    then show ?thesis
      by (simp add: ssmem_new_chunk_def get_allocator_Some[OF x] m(1) assert_run_def oom_def)
  next
    fix p s1 assume p: "memalign SSMEM_LINE m s = (p, s1)" "p \<noteq> 0" "more_blocks s s1"
      "blocks s1 = (p, max 1 m) # blocks s" "blk_fits SSMEM_LINE (p, max 1 m) (blocks s)"
    have fits: "unat p + unat m \<le> 2 ^ 64" "\<forall>b \<in> set (blocks s). blk_disj (p, m) b"
      using p(5) unfolding max by (simp_all add: blk_fits_def list_all_iff)
    let ?f = "\<lambda>(chunks, s). Ret (put_allocator a (x\<lparr>mem := p, mem_curr := 0, mem_size := m,
              tot_size := tot_size x + m, mem_chunks := chunks\<rparr>) s)"
    have "ssmem_new_chunk a z s = bind_run (ssmem_list_node_new p (mem_chunks x) s1) ?f"
      by (simp add: ssmem_new_chunk_def get_allocator_Some[OF x] m(1) p(1,2))
    moreover have "safe_run (\<lambda>s'. \<exists>s1 y. s' = put_allocator a y s1 \<and> new_chunk x y s s1 \<and> z \<le> mem_size y \<and> same_sets x y)
      (bind_run (ssmem_list_node_new p (mem_chunks x) s1) ?f)"
    proof (rule safe_bind[OF list_node_new_safe], elim exE conjE)
      fix r q s2 assume r: "r = ((q, p) # mem_chunks x, s2)" and s2: "more_blocks s1 s2"
      let ?y = "x\<lparr>mem := p, mem_curr := 0, mem_size := m, tot_size := tot_size x + m, mem_chunks := (q, p) # mem_chunks x\<rparr>"
      have "more_blocks s s2" using p(3) s2 by (rule more_blocks_trans)
      moreover have "(p, m) \<in> set (blocks s2)" using more_blocksD(7)[OF s2] p(4) by (auto simp: max)
      ultimately have "new_chunk x ?y s s2" using m fits by (simp add: new_chunk_def)
      moreover have "same_sets x ?y" by (simp add: same_sets_def)
      ultimately have "\<exists>s1 y. put_allocator a ?y s2 = put_allocator a y s1 \<and> new_chunk x y s s1 \<and> z \<le> mem_size y \<and> same_sets x y"
        using m(2) by (intro exI[of _ s2] exI[of _ ?y]) simp
      then show "safe_run (\<lambda>s'. \<exists>s1 y. s' = put_allocator a y s1 \<and> new_chunk x y s s1 \<and> z \<le> mem_size y \<and> same_sets x y) (?f r)"
        by (simp add: r)
    qed
    ultimately show ?thesis by simp
  qed
qed

lemma alloc_carve:
  assumes x: "allocator_mem s a = Some x" and ok: "collected_set_list x = []"
    and ms: "0 < mem_size x" "unat (mem_size x) \<le> 2 ^ 33" "unat (mem_curr x) \<le> unat (mem_size x)"
    and z: "unat z \<le> 2 ^ 32"
  shows "safe_run (\<lambda>(p, s'). \<exists>s1 y. p = mem y + mem_curr y \<and> s' = put_allocator a (y\<lparr>mem_curr := mem_curr y + z\<rparr>) s1 \<and>
      same_sets x y \<and> unat (mem_curr y) + unat z \<le> unat (mem_size y) \<and>
      (new_chunk x y s s1 \<or> y = x \<and> s1 = s)) (ssmem_alloc a z s)"
proof (cases "mem_curr x + z \<ge> mem_size x")
  case True
  then have eq: "ssmem_alloc a z s = bind_run (ssmem_new_chunk a z s) (\<lambda>s.
      bind_run (get_allocator a s) (\<lambda>x. Ret (mem x + mem_curr x, put_allocator a (x\<lparr>mem_curr := mem_curr x + z\<rparr>) s)))"
    by (simp add: ssmem_alloc_def get_allocator_Some[OF x] ok)
  show ?thesis unfolding eq
  proof (rule safe_bind[OF ssmem_new_chunk_safe[OF x ms(1,2) z]], elim exE conjE)
    fix s' s1 y assume y: "s' = put_allocator a y s1" "new_chunk x y s s1" "z \<le> mem_size y" "same_sets x y"
    have "unat (mem_curr y) + unat z \<le> unat (mem_size y)"
      using y(2,3) by (simp add: new_chunk_def word_le_nat_alt)
    then have "\<exists>s2 y'. mem y + mem_curr y = mem y' + mem_curr y' \<and>
        put_allocator a (y\<lparr>mem_curr := mem_curr y + z\<rparr>) s1 = put_allocator a (y'\<lparr>mem_curr := mem_curr y' + z\<rparr>) s2 \<and>
        same_sets x y' \<and> unat (mem_curr y') + unat z \<le> unat (mem_size y') \<and> (new_chunk x y' s s2 \<or> y' = x \<and> s2 = s)"
      using y(2,4) by (intro exI[of _ s1] exI[of _ y]) simp
    then show "safe_run (\<lambda>(p, s'). \<exists>s1 y. p = mem y + mem_curr y \<and> s' = put_allocator a (y\<lparr>mem_curr := mem_curr y + z\<rparr>) s1 \<and>
      same_sets x y \<and> unat (mem_curr y) + unat z \<le> unat (mem_size y) \<and>
      (new_chunk x y s s1 \<or> y = x \<and> s1 = s)) (bind_run (get_allocator a s')
        (\<lambda>x. Ret (mem x + mem_curr x, put_allocator a (x\<lparr>mem_curr := mem_curr x + z\<rparr>) s')))"
      unfolding y(1) by simp
  qed
next
  case False
  have "unat (mem_curr x) + unat z < 2 ^ 64" using ms(2,3) z by simp
  then have "unat (mem_curr x + z) = unat (mem_curr x) + unat z" by (simp add: unat_word_ariths)
  then have "unat (mem_curr x) + unat z \<le> unat (mem_size x)" using False by (simp add: word_le_nat_alt)
  then have "\<exists>s1 y. mem x + mem_curr x = mem y + mem_curr y \<and>
      put_allocator a (x\<lparr>mem_curr := mem_curr x + z\<rparr>) s = put_allocator a (y\<lparr>mem_curr := mem_curr y + z\<rparr>) s1 \<and>
      same_sets x y \<and> unat (mem_curr y) + unat z \<le> unat (mem_size y) \<and> (new_chunk x y s s1 \<or> y = x \<and> s1 = s)"
    by (intro exI[of _ s] exI[of _ x]) (simp add: same_sets_def)
  then show ?thesis using False by (simp add: ssmem_alloc_def get_allocator_Some[OF x] ok)
qed

section \<open>The parts of \<^verbatim>\<open>ssmem_free\<close>\<close>

lemma free_set_full_eq:
  assumes "allocator_mem s a = Some x" "free_set_list x = fs # rest"
  shows "free_set_full a s = Ret (fs_full fs)" "free_set_head_ts a s = Ret (ts_set fs)"
    "free_set_stamp a v s = Ret (put_allocator a (x\<lparr>free_set_list := fs\<lparr>ts_set := Some v\<rparr> # rest\<rparr>) s)"
  using assms by (simp_all add: free_set_full_def free_set_head_ts_def free_set_stamp_def get_allocator_Some fs_full_def)

lemma free_set_store_eq:
  assumes x: "allocator_mem s a = Some x" and fs: "free_set_list x = fs # rest" and ok: "sets_ok n x"
    and room: "\<not> fs_full fs"
  obtains fs' where "free_set_store t a p s = ssmem_ts_next t (put_allocator a (x\<lparr>free_set_list := fs' # rest\<rparr>) s)"
    "sets_ok n (x\<lparr>free_set_list := fs' # rest\<rparr>)" "fs_objs fs' = fs_objs fs @ [p]" "ts_set fs' = ts_set fs"
proof -
  have okf: "fs_ok n (fs_size x) fs" using sets_okD(4)[OF ok] fs by simp
  then have lt: "fs_curr fs < uint (fs_size x)" using room by (auto simp: fs_full_def fs_ok_def)
  define fs' where "fs' = fs\<lparr>fs_set := (fs_set fs)[nat (fs_curr fs) := Some p], fs_curr := fs_curr fs + 1\<rparr>"
  have "0 \<le> fs_curr fs \<and> nat (fs_curr fs) < length (fs_set fs)"
    using okf fs_room(1)[OF okf lt] by (simp add: fs_ok_def)
  then have "free_set_store t a p s = ssmem_ts_next t (put_allocator a (x\<lparr>free_set_list := fs' # rest\<rparr>) s)"
    by (simp add: free_set_store_def get_allocator_Some[OF x] fs fs'_def)
  moreover have "fs_ok n (fs_size x) fs'" unfolding fs'_def by (rule fs_ok_store[OF okf lt])
  then have "sets_ok n (x\<lparr>free_set_list := fs' # rest\<rparr>)" using ok fs by (auto simp: sets_ok_def)
  moreover have "fs_objs fs' = fs_objs fs @ [p]" unfolding fs'_def by (rule fs_objs_store[OF okf lt])
  ultimately show thesis using that[of fs'] by (simp add: fs'_def)
qed

definition newer :: "nat \<Rightarrow> ts_vector \<Rightarrow> ssmem_free_set list \<Rightarrow> bool" where
  "newer n v fss \<longleftrightarrow>
     (case fss of [] \<Rightarrow> False
      | fs # _ \<Rightarrow> \<forall>j<n. the (snd (the (ts_set fs)) ! j) < the (snd v ! j))"

text \<open>The reclamation: the older sets move to the collected ones exactly when every version has grown.\<close>

lemma reclaim_sets_eq:
  assumes x: "allocator_mem s a = Some x" and ok: "sets_ok n x" and fs: "free_set_list x = fs # rest"
    and v: "ts_set fs = Some v" "stamps_full n (snd v)"
    and rest: "\<And>g. g \<in> set rest \<Longrightarrow> stamps_full n (snd (the (ts_set g)))"
    and len: "unat (ssmem_ts_list_len s) = n"
  shows "\<exists>k y. ssmem_mem_reclaim a s = Ret (k, put_allocator a y s) \<and> same_chunk x y \<and>
     available_set_list y = available_set_list x \<and> released_num y = 0 \<and>
     free_set_list y = (if newer n v rest then [fs] else fs # rest) \<and>
     collected_set_list y = (if newer n v rest then collected_set_list x @ rest else collected_set_list x)"
proof -
  have rel: "released_num x = 0" by (rule sets_okD(3)[OF ok])
  then have eq: "ssmem_mem_reclaim a s = reclaim_sets a s"
    by (simp add: ssmem_mem_reclaim_def get_allocator_Some[OF x])
  have put: "put_allocator a x s = s"
    using x by (simp add: put_allocator_def fun_upd_idem)
  show ?thesis
  proof (cases rest)
    case Nil
    have "reclaim_sets a s = Ret (0, s)" by (simp add: reclaim_sets_def get_allocator_Some[OF x] fs v Nil)
    then show ?thesis unfolding eq
      by (intro exI[of _ 0] exI[of _ x]) (simp add: put same_chunk_def rel newer_def Nil fs)
  next
    case (Cons g older)
    obtain w where w: "ts_set g = Some w"
      using sets_okD(7)[OF ok, of g] fs Cons by auto
    have cmp: "ssmem_ts_compare (snd v) (snd w) s = Ret (newer n v rest)"
      using ssmem_ts_compare_eq[OF v(2) _ len, of "snd w"] rest[of g] w Cons by (simp add: newer_def)
    show ?thesis
    proof (cases "newer n v rest")
      case True
      define k where "k = free_set_num x - 1"
      define y where "y = x\<lparr>free_set_list := [fs], free_set_num := 1,
        collected_set_list := collected_set_list x @ rest, collected_set_num := collected_set_num x + k\<rparr>"
      have "reclaim_sets a s = Ret (k, put_allocator a y s)"
        using cmp True by (simp add: reclaim_sets_def get_allocator_Some[OF x] fs v Cons w k_def y_def Let_def)
      then show ?thesis unfolding eq
        by (intro exI[of _ k] exI[of _ y]) (simp add: same_chunk_def rel True y_def)
    next
      case False
      have "reclaim_sets a s = Ret (0, s)"
        using cmp False by (simp add: reclaim_sets_def get_allocator_Some[OF x] fs v Cons w)
      then show ?thesis unfolding eq
        by (intro exI[of _ 0] exI[of _ x]) (simp add: put same_chunk_def rel False fs)
    qed
  qed
qed

lemma get_avail_safe:
  assumes x: "allocator_mem s a = Some x" and ok: "\<forall>g \<in> set (available_set_list x). fs_ok n (fs_size x) g"
  shows "safe_run (\<lambda>(fs, s'). \<exists>s1 av. s' = put_allocator a (x\<lparr>available_set_list := av\<rparr>) s1 \<and> more_blocks s s1 \<and>
      set av \<subseteq> set (available_set_list x) \<and> fs_ok n (fs_size x) fs \<and> fs_curr fs = 0)
    (ssmem_free_set_get_avail a (fs_size x) s)"
proof (cases "available_set_list x")
  case Nil
  have eq: "ssmem_free_set_get_avail a (fs_size x) s = ssmem_free_set_new (fs_size x) s"
    by (simp add: ssmem_free_set_get_avail_def get_allocator_Some[OF x] Nil)
  have x': "x\<lparr>available_set_list := []\<rparr> = x" using Nil by simp
  show ?thesis unfolding eq
  proof (rule safe_mono[OF free_set_new_safe[where k = n]], clarify)
    fix fs s1 assume s1: "more_blocks s s1" and fs: "fs_ok n (fs_size x) fs" "fs_curr fs = 0"
    have "put_allocator a x s1 = s1"
      using x more_blocksD(1)[OF s1] by (simp add: put_allocator_def fun_upd_idem)
    then show "\<exists>s1' av. s1 = put_allocator a (x\<lparr>available_set_list := av\<rparr>) s1' \<and> more_blocks s s1' \<and>
      set av \<subseteq> set (available_set_list x) \<and> fs_ok n (fs_size x) fs \<and> fs_curr fs = 0"
      using s1 fs x' by (intro exI[of _ s1] exI[of _ "[]"]) simp
  qed
next
  case (Cons g rest)
  have "fs_ok n (fs_size x) (g\<lparr>fs_curr := 0\<rparr>)" using ok Cons by (simp add: fs_ok_reset)
  then have "\<exists>s1 av. put_allocator a (x\<lparr>available_set_list := rest\<rparr>) s = put_allocator a (x\<lparr>available_set_list := av\<rparr>) s1 \<and>
      more_blocks s s1 \<and> set av \<subseteq> set (available_set_list x) \<and> fs_ok n (fs_size x) (g\<lparr>fs_curr := 0\<rparr>) \<and> fs_curr (g\<lparr>fs_curr := 0\<rparr>) = 0"
    using Cons by (intro exI[of _ s] exI[of _ rest]) auto
  then show ?thesis by (simp add: ssmem_free_set_get_avail_def get_allocator_Some[OF x] Cons)
qed

lemma free_set_renew_safe:
  assumes x: "allocator_mem s a = Some x" and ok: "sets_ok n x" and fs: "free_set_list x = fs # rest"
    and v: "ts_set fs = Some v" "stamps_full n (snd v)" and full: "fs_full fs"
    and rest: "\<And>g. g \<in> set rest \<Longrightarrow> stamps_full n (snd (the (ts_set g)))"
    and len: "unat (ssmem_ts_list_len s) = n"
  shows "safe_run (\<lambda>s'. \<exists>s1 y fs'. s' = put_allocator a y s1 \<and> more_blocks s s1 \<and> same_chunk x y \<and> sets_ok n y \<and>
      fs_curr fs' = 0 \<and> free_set_list y = fs' # (if newer n v rest then [fs] else fs # rest) \<and>
      collected_set_list y = (if newer n v rest then collected_set_list x @ rest else collected_set_list x))
    (free_set_renew a s)"
proof -
  obtain k y where k: "ssmem_mem_reclaim a s = Ret (k, put_allocator a y s)"
    and y: "same_chunk x y" "available_set_list y = available_set_list x" "released_num y = 0"
      "free_set_list y = (if newer n v rest then [fs] else fs # rest)"
      "collected_set_list y = (if newer n v rest then collected_set_list x @ rest else collected_set_list x)"
    using reclaim_sets_eq[OF x ok fs v rest len] by blast
  have fsz: "fs_size y = fs_size x" using y(1) by (simp add: same_chunk_def)
  have av: "\<forall>g \<in> set (available_set_list y). fs_ok n (fs_size y) g"
    using sets_okD(6)[OF ok] y(2) fsz by simp
  have rest_ok: "fs_ok n (fs_size x) g" "fs_full g" "ts_set g \<noteq> None" "0 < fs_curr g" if "g \<in> set rest" for g
  proof -
    show okg: "fs_ok n (fs_size x) g" and fg: "fs_full g" and "ts_set g \<noteq> None"
      using sets_okD(4,7)[OF ok, of g] that fs by simp_all
    show "0 < fs_curr g" using okg fg sets_okD(2)[OF ok]
      by (simp add: fs_full_def fs_ok_def word_less_def)
  qed
  have "0 < fs_curr fs" using full sets_okD(2,4)[OF ok] fs by (auto simp: fs_full_def fs_ok_def word_less_def)
  have new: "sets_ok n (y\<lparr>available_set_list := av', free_set_list := fs' # free_set_list y, free_set_num := m\<rparr>)"
    if "set av' \<subseteq> set (available_set_list y)" "fs_ok n (fs_size y) fs'" for av' fs' m
    unfolding sets_ok_def
    using that av rest_ok sets_okD(2,4,5)[OF ok] fs full v y(3,4,5) fsz by (auto split: if_splits)
  let ?g = "\<lambda>(fs_new, s). bind_run (get_allocator a s) (\<lambda>x. Ret (put_allocator a
     (x\<lparr>free_set_list := fs_new # free_set_list x, free_set_num := free_set_num x + 1\<rparr>) s))"
  have eq: "free_set_renew a s = bind_run (ssmem_free_set_get_avail a (fs_size y) (put_allocator a y s)) ?g"
    by (simp add: free_set_renew_def k case_prod_beta')
  show ?thesis unfolding eq
  proof (rule safe_bind[OF get_avail_safe[OF _ av]], simp, clarify)
    fix fs' s1 av' assume s1: "more_blocks (put_allocator a y s) s1"
      and av': "set av' \<subseteq> set (available_set_list y)" and fs': "fs_ok n (fs_size y) fs'" "fs_curr fs' = 0"
    let ?y = "y\<lparr>available_set_list := av', free_set_list := fs' # free_set_list y, free_set_num := free_set_num y + 1\<rparr>"
    obtain ms bs where bs: "s1 = (put_allocator a y s)\<lparr>mallocs := ms, blocks := bs\<rparr>" "set (blocks s) \<subseteq> set bs"
      using s1 unfolding more_blocks_def by auto
    have put: "put_allocator a ?y s1 = put_allocator a ?y (s\<lparr>mallocs := ms, blocks := bs\<rparr>)"
      by (simp add: bs(1) put_allocator_def)
    have "more_blocks s (s\<lparr>mallocs := ms, blocks := bs\<rparr>)" unfolding more_blocks_def using bs(2) by blast
    moreover have "same_chunk x ?y" using y(1) by (simp add: same_chunk_def)
    ultimately have "\<exists>s2 y' fs''. put_allocator a ?y s1 = put_allocator a y' s2 \<and> more_blocks s s2 \<and> same_chunk x y' \<and> sets_ok n y' \<and>
        fs_curr fs'' = 0 \<and> free_set_list y' = fs'' # (if newer n v rest then [fs] else fs # rest) \<and>
        collected_set_list y' = (if newer n v rest then collected_set_list x @ rest else collected_set_list x)"
      using new[OF av' fs'(1)] fs'(2) y(4,5) put
      by (intro exI[of _ "s\<lparr>mallocs := ms, blocks := bs\<rparr>"] exI[of _ ?y] exI[of _ fs']) simp
    then show "safe_run (\<lambda>s'. \<exists>s1 y fs'. s' = put_allocator a y s1 \<and> more_blocks s s1 \<and> same_chunk x y \<and> sets_ok n y \<and>
        fs_curr fs' = 0 \<and> free_set_list y = fs' # (if newer n v rest then [fs] else fs # rest) \<and>
        collected_set_list y = (if newer n v rest then collected_set_list x @ rest else collected_set_list x))
      (bind_run (get_allocator a (put_allocator a (y\<lparr>available_set_list := av'\<rparr>) s1)) (\<lambda>x. Ret (put_allocator a
        (x\<lparr>free_set_list := fs' # free_set_list x, free_set_num := free_set_num x + 1\<rparr>)
        (put_allocator a (y\<lparr>available_set_list := av'\<rparr>) s1))))"
      by simp
  qed
qed

end
