(* ===== verification/SsmemEpoch.thy ===== *)
theory SsmemEpoch
  imports SsmemSets
begin

text \<open>
  \<^verbatim>\<open>ssmem\<close> used by several threads, each with its own allocator. The threads interleave between calls,
  and, while a thread stamps a full free set, between the reads of the versions of the other threads
  (\<open>DoFree\<close>, \<open>DoRead\<close>, \<open>DoFinish\<close> are the parts of one \<^verbatim>\<open>ssmem_free\<close>). A client frees only objects that
  are live, with any allocator; \<open>DoTick\<close> is \<^verbatim>\<open>SSMEM_SAFE_TO_RECLAIM\<close>. The list of live objects (an object handed out twice would be in it
  twice) and the trace record what happened and are not read by the code.

  The invariant \<open>sys_inv\<close> says where every object is, that objects do not overlap, and what the time
  stamps of the free sets mean in terms of the trace.
\<close>

section \<open>The system\<close>

datatype ss_event = EvAlloc nat u64 bool | EvFree nat u64 | EvTick nat

datatype ss_pc = Idle | Collecting u64 ts_vector "u64 list"

record ss_config =
  sys :: ssmem
  pc :: "nat \<Rightarrow> ss_pc"
  live :: "u64 list"
  trace :: "ss_event list"

datatype ss_act = DoAlloc nat | DoFree nat u64 | DoRead nat | DoFinish nat | DoTick nat

fun ss_enabled :: "nat \<Rightarrow> ss_act \<Rightarrow> ss_config \<Rightarrow> bool" where
  "ss_enabled n (DoAlloc t) c = (t < n \<and> pc c t = Idle)"
| "ss_enabled n (DoFree t p) c = (t < n \<and> pc c t = Idle \<and> p \<in> set (live c))"
| "ss_enabled n (DoRead t) c = (t < n \<and> (case pc c t of Collecting _ _ (_ # _) \<Rightarrow> True | _ \<Rightarrow> False))"
| "ss_enabled n (DoFinish t) c = (t < n \<and> (case pc c t of Collecting _ _ [] \<Rightarrow> True | _ \<Rightarrow> False))"
| "ss_enabled n (DoTick t) c = (t < n \<and> pc c t = Idle)"

fun ss_step :: "(nat \<Rightarrow> u64) \<Rightarrow> u64 \<Rightarrow> ss_act \<Rightarrow> ss_config \<Rightarrow> ss_config run" where
  "ss_step ap z (DoAlloc t) c =
     bind_run (get_allocator (ap t) (sys c)) (\<lambda>x.
     bind_run (ssmem_alloc (ap t) z (sys c)) (\<lambda>(p, s).
       Ret (c\<lparr>sys := s, live := p # live c, trace := trace c @ [EvAlloc t p (collected_set_list x \<noteq> [])]\<rparr>)))"
| "ss_step ap z (DoFree t p) c =
     bind_run (free_set_full (ap t) (sys c)) (\<lambda>full.
     if full then
       bind_run (free_set_head_ts (ap t) (sys c)) (\<lambda>v.
       bind_run (ts_set_start v (sys c)) (\<lambda>(v, s).
         Ret (c\<lparr>sys := s, live := remove1 p (live c), pc := (pc c)(t := Collecting p v (ssmem_ts_list s))\<rparr>)))
     else
       bind_run (free_set_store t (ap t) p (sys c)) (\<lambda>s.
         Ret (c\<lparr>sys := s, live := remove1 p (live c), trace := trace c @ [EvFree t p, EvTick t]\<rparr>)))"
| "ss_step ap z (DoRead t) c =
     (case pc c t of
        Collecting p v (cur # next) \<Rightarrow>
          bind_run (ts_set_read cur (snd v) (sys c)) (\<lambda>es.
            Ret (c\<lparr>pc := (pc c)(t := Collecting p (fst v, es) next)\<rparr>))
      | _ \<Rightarrow> Abort ''not collecting'')"
| "ss_step ap z (DoFinish t) c =
     (case pc c t of
        Collecting p v [] \<Rightarrow>
          bind_run (free_set_stamp (ap t) v (sys c)) (\<lambda>s.
          bind_run (free_set_renew (ap t) s) (\<lambda>s.
          bind_run (free_set_store t (ap t) p s) (\<lambda>s.
            Ret (c\<lparr>sys := s, pc := (pc c)(t := Idle), trace := trace c @ [EvFree t p, EvTick t]\<rparr>))))
      | _ \<Rightarrow> Abort ''not collecting'')"
| "ss_step ap z (DoTick t) c =
     bind_run (ssmem_ts_next t (sys c)) (\<lambda>s. Ret (c\<lparr>sys := s, trace := trace c @ [EvTick t]\<rparr>))"

inductive ss_reach :: "nat \<Rightarrow> (nat \<Rightarrow> u64) \<Rightarrow> u64 \<Rightarrow> ss_config \<Rightarrow> ss_config \<Rightarrow> bool"
  for n ap z c\<^sub>0 where
  start: "ss_reach n ap z c\<^sub>0 c\<^sub>0"
| step: "ss_reach n ap z c\<^sub>0 c \<Longrightarrow> ss_enabled n act c \<Longrightarrow> ss_step ap z act c = Ret c' \<Longrightarrow> ss_reach n ap z c\<^sub>0 c'"

text \<open>
  The threads register one after the other, thread \<open>t\<close> with the id \<open>t\<close>, and start when all have registered, as in
  \<^verbatim>\<open>ssmem_test.c\<close>, where a barrier separates the two. The drivers of the hash table let threads register while others
  already run; then the stamps of a free set may be too short (lemma \<open>late_registration\<close> of \<open>SsmemThms\<close>).
\<close>

definition ssmem_boot :: "u64 list \<Rightarrow> ssmem" where
  "ssmem_boot ms =
     \<lparr>mallocs = ms, blocks = [], ts_mem = \<lambda>_. None, rel_mem = \<lambda>_. None, ssmem_ts_list = [],
      ssmem_ts_list_len = 0, ssmem_ts_local = \<lambda>_. 0, ssmem_num_allocators = \<lambda>_. 0,
      ssmem_allocator_list = \<lambda>_. [], allocator_mem = \<lambda>_. None\<rparr>"

primrec init_threads :: "(nat \<Rightarrow> u64) \<Rightarrow> u64 \<Rightarrow> u64 \<Rightarrow> u64 list \<Rightarrow> nat \<Rightarrow> ssmem run" where
  "init_threads ap sz fss ms 0 = Ret (ssmem_boot ms)"
| "init_threads ap sz fss ms (Suc t) =
     bind_run (init_threads ap sz fss ms t) (ssmem_alloc_init_fs_size t (ap t) sz fss (int t))"

definition ss_start :: "ssmem \<Rightarrow> ss_config" where
  "ss_start s = \<lparr>sys = s, pc = \<lambda>_. Idle, live = [], trace = []\<rparr>"

section \<open>Time stamps and the trace\<close>

definition ticks :: "nat \<Rightarrow> ss_event list \<Rightarrow> nat" where
  "ticks i tr = length (filter (\<lambda>e. e = EvTick i) tr)"

fun about :: "u64 \<Rightarrow> ss_event \<Rightarrow> bool" where
  "about p (EvAlloc _ q _) = (q = p)"
| "about p (EvFree _ q) = (q = p)"
| "about p (EvTick _) = False"

definition freed_at :: "ss_event list \<Rightarrow> nat \<Rightarrow> nat \<Rightarrow> u64 \<Rightarrow> bool" where
  "freed_at tr k t p \<longleftrightarrow> k < length tr \<and> tr ! k = EvFree t p \<and> (\<forall>e \<in> set (drop (Suc k) tr). \<not> about p e)"

definition quiesced :: "nat \<Rightarrow> ss_event list \<Rightarrow> nat \<Rightarrow> u64 \<Rightarrow> bool" where
  "quiesced n tr t p \<longleftrightarrow> (\<exists>k. freed_at tr k t p \<and> (\<forall>i<n. EvTick i \<in> set (drop (Suc k) tr)))"

definition stamped :: "nat \<Rightarrow> ss_event list \<Rightarrow> nat \<Rightarrow> nat \<Rightarrow> u64 option list \<Rightarrow> bool" where
  "stamped n tr lo hi es \<longleftrightarrow>
     length es = n \<and> (\<forall>i<n. \<exists>k. lo \<le> k \<and> k \<le> hi \<and> es ! i = Some (word_of_nat (ticks i (take k tr))))"

primrec chain :: "nat \<Rightarrow> nat \<Rightarrow> ss_event list \<Rightarrow> nat \<Rightarrow> ssmem_free_set list \<Rightarrow> bool" where
  "chain n t tr b [] \<longleftrightarrow> True"
| "chain n t tr b (fs # rest) \<longleftrightarrow>
     (\<exists>lo hi. lo \<le> hi \<and> hi \<le> b \<and> (\<forall>p \<in> set (fs_objs fs). \<exists>k<lo. freed_at tr k t p) \<and>
        stamped n tr lo hi (snd (the (ts_set fs))) \<and> chain n t tr lo rest)"

lemma ticks_simps [simp]:
  "ticks i [] = 0" "ticks i (e # tr) = (if e = EvTick i then Suc (ticks i tr) else ticks i tr)"
  "ticks i (tr @ tr') = ticks i tr + ticks i tr'"
  by (simp_all add: ticks_def)

lemma freed_at_ext: "freed_at tr k t p \<Longrightarrow> (\<forall>e \<in> set es. \<not> about p e) \<Longrightarrow> freed_at (tr @ es) k t p"
  by (auto simp: freed_at_def nth_append)

lemma freed_at_new: "\<not> about p e \<Longrightarrow> freed_at (tr @ [EvFree t p, e]) (length tr) t p"
  by (simp add: freed_at_def nth_append)

lemma quiesced_ext: "quiesced n tr t p \<Longrightarrow> (\<forall>e \<in> set es. \<not> about p e) \<Longrightarrow> quiesced n (tr @ es) t p"
proof -
  assume "quiesced n tr t p" and es: "\<forall>e \<in> set es. \<not> about p e"
  then obtain k where k: "freed_at tr k t p" "\<forall>i<n. EvTick i \<in> set (drop (Suc k) tr)"
    unfolding quiesced_def by blast
  have "Suc k \<le> length tr" using k(1) by (simp add: freed_at_def)
  then have "\<forall>i<n. EvTick i \<in> set (drop (Suc k) (tr @ es))" using k(2) by simp
  then show "quiesced n (tr @ es) t p" using freed_at_ext[OF k(1) es] unfolding quiesced_def by blast
qed

lemma stamped_ext: "stamped n tr lo hi es \<Longrightarrow> hi \<le> length tr \<Longrightarrow> stamped n (tr @ ev) lo hi es"
  unfolding stamped_def by (metis (no_types, lifting) append_Nil2 diff_is_0_eq' le_trans take_0 take_append)

lemma stamped_full: "stamped n tr lo hi es \<Longrightarrow> stamps_full n es"
  unfolding stamped_def stamps_full_def by (metis in_set_conv_nth option.distinct(1))

lemma chain_le: "chain n t tr b l \<Longrightarrow> b \<le> b' \<Longrightarrow> chain n t tr b' l"
  by (cases l) (auto intro: le_trans)

lemma chain_ext:
  "chain n t tr b l \<Longrightarrow> b \<le> length tr \<Longrightarrow> (\<And>p e. p \<in> set (concat (map fs_objs l)) \<Longrightarrow> e \<in> set ev \<Longrightarrow> \<not> about p e) \<Longrightarrow>
   chain n t (tr @ ev) b l"
proof (induction l arbitrary: b)
  case (Cons fs rest)
  obtain lo hi where h: "lo \<le> hi" "hi \<le> b" "\<forall>p \<in> set (fs_objs fs). \<exists>k<lo. freed_at tr k t p"
    "stamped n tr lo hi (snd (the (ts_set fs)))" "chain n t tr lo rest"
    using Cons.prems(1) by auto
  have "\<forall>p \<in> set (fs_objs fs). \<exists>k<lo. freed_at (tr @ ev) k t p"
    using h(3) Cons.prems(3) by (fastforce intro: freed_at_ext)
  moreover have "stamped n (tr @ ev) lo hi (snd (the (ts_set fs)))"
    using h(2,4) Cons.prems(2) by (intro stamped_ext) simp_all
  moreover have "chain n t (tr @ ev) lo rest"
    using h(1,2,5) Cons.prems(2,3) by (intro Cons.IH) auto
  ultimately show ?case using h(1,2) by auto
qed simp

lemma chain_full: "chain n t tr b l \<Longrightarrow> g \<in> set l \<Longrightarrow> stamps_full n (snd (the (ts_set g)))"
  by (induction l arbitrary: b) (auto dest: stamped_full)

lemma chain_freed: "chain n t tr b l \<Longrightarrow> p \<in> set (concat (map fs_objs l)) \<Longrightarrow> \<exists>k<b. freed_at tr k t p"
proof (induction l arbitrary: b)
  case (Cons fs rest)
  obtain lo hi where h: "lo \<le> hi" "hi \<le> b" "\<forall>p \<in> set (fs_objs fs). \<exists>k<lo. freed_at tr k t p"
    "chain n t tr lo rest"
    using Cons.prems(1) by auto
  have "\<exists>k<lo. freed_at tr k t p" using Cons.IH[OF h(4)] Cons.prems(2) h(3) by auto
  then show ?case using h(1,2) by (meson less_le_trans)
qed simp

lemma tick_between:
  assumes "ticks i (take k tr) \<noteq> ticks i (take k' tr)" "k \<le> k'"
  shows "EvTick i \<in> set (drop k tr)"
proof -
  have "take k' tr = take k tr @ take (k' - k) (drop k tr)"
    by (metis assms(2) le_add_diff_inverse take_add)
  then have "ticks i (take (k' - k) (drop k tr)) \<noteq> 0" using assms(1) by simp
  then have "EvTick i \<in> set (take (k' - k) (drop k tr))" by (auto simp: ticks_def filter_empty_conv)
  then show ?thesis by (rule in_set_takeD)
qed

text \<open>
  The comparison of the stamps: if every version in the newer stamp exceeds the one in the older
  stamp, every thread has ticked after the older set was full. The versions may have wrapped around.
\<close>

lemma chain_collect:
  assumes v: "stamped n tr lo hi (snd v)" and ch: "chain n t tr lo rest" and new: "newer n v rest"
    and p: "p \<in> set (concat (map fs_objs rest))"
  shows "quiesced n tr t p"
proof -
  obtain g older where g: "rest = g # older" using p by (cases rest) auto
  obtain l h where h: "l \<le> h" "h \<le> lo" "\<forall>p \<in> set (fs_objs g). \<exists>k<l. freed_at tr k t p"
    "stamped n tr l h (snd (the (ts_set g)))" "chain n t tr l older"
    using ch g by auto
  obtain k where k: "k < l" "freed_at tr k t p"
    using chain_freed[OF h(5), of p] h(3) p g by auto
  have "EvTick i \<in> set (drop (Suc k) tr)" if i: "i < n" for i
  proof -
    obtain a where a: "l \<le> a" "a \<le> h" "snd (the (ts_set g)) ! i = Some (word_of_nat (ticks i (take a tr)))"
      using h(4) i unfolding stamped_def by blast
    obtain b where b: "lo \<le> b" "snd v ! i = Some (word_of_nat (ticks i (take b tr)))"
      using v i unfolding stamped_def by blast
    have "the (snd (the (ts_set g)) ! i) < the (snd v ! i)" using new i g by (simp add: newer_def)
    then have "ticks i (take a tr) \<noteq> ticks i (take b tr)" using a(3) b(2) by auto
    moreover have "a \<le> b" using a(2) h(2) b(1) by linarith
    ultimately have "EvTick i \<in> set (drop a tr)" by (rule tick_between)
    moreover have "Suc k \<le> a" using k(1) a(1) by linarith
    ultimately show ?thesis using set_drop_subset_set_drop[of "Suc k" a tr] by blast
  qed
  then show ?thesis using k(2) unfolding quiesced_def by blast
qed

end
