(* ===== verification/SsmemInv.thy ===== *)
theory SsmemInv
  imports SsmemEpoch
begin

text \<open>
  The invariant of the threads that share objects through \<^verbatim>\<open>ssmem\<close>, and what preserves its parts.
  \<open>geo\<close> is the geometry of chunks and objects, \<open>thr_ok\<close> the meaning of the free sets of one
  thread, \<open>loc\<close> the ghost that says where each object is.
\<close>

datatype loc = Absent | LiveObj | Flight nat | InSets nat

abbreviation al :: "ssmem \<Rightarrow> u64 \<Rightarrow> ssmem_allocator" where
  "al s a \<equiv> the (allocator_mem s a)"

section \<open>Versions\<close>

definition ts_ok :: "nat \<Rightarrow> ss_event list \<Rightarrow> ssmem \<Rightarrow> bool" where
  "ts_ok n tr s \<longleftrightarrow>
     unat (ssmem_ts_list_len s) = n \<and> set (ssmem_ts_list s) = ssmem_ts_local s ` {..<n} \<and>
     (\<forall>i<n. ts_mem s (ssmem_ts_local s i) = Some \<lparr>version = word_of_nat (ticks i tr), ts_ident = word_of_nat i\<rparr>)"

lemma ts_ok_small:
  assumes "ts_ok n tr s"
  shows "n < 2 ^ 32"
proof -
  have "unat (ssmem_ts_list_len s) < 2 ^ LENGTH(32)" by (rule unsigned_less)
  then show ?thesis using assms by (simp add: ts_ok_def)
qed

lemma ts_ok_unat: "ts_ok n tr s \<Longrightarrow> i < n \<Longrightarrow> unat (word_of_nat i :: u64) = i"
  using ts_ok_small[of n tr s] by (intro unat_word_of_nat) simp

lemma ts_ok_inj:
  assumes "ts_ok n tr s" "i < n" "j < n" "ssmem_ts_local s i = ssmem_ts_local s j"
  shows "i = j"
proof -
  have "ts_mem s (ssmem_ts_local s k) = Some \<lparr>version = word_of_nat (ticks k tr), ts_ident = word_of_nat k\<rparr>" if "k < n" for k
    using assms(1) that unfolding ts_ok_def by blast
  from this[OF assms(2)] this[OF assms(3)] have "(word_of_nat i :: u64) = word_of_nat j" using assms(4) by simp
  then show ?thesis using ts_ok_unat[OF assms(1)] assms(2,3) by metis
qed

lemma ts_next_ok:
  assumes ok: "ts_ok n tr s" and t: "t < n" and tk: "\<And>i. ticks i tr' = ticks i tr + (if i = t then 1 else 0)"
  obtains tm where "ssmem_ts_next t s = Ret (s\<lparr>ts_mem := tm\<rparr>)" "ts_ok n tr' (s\<lparr>ts_mem := tm\<rparr>)"
proof -
  define x where "x = \<lparr>version = word_of_nat (ticks t tr), ts_ident = word_of_nat t\<rparr>"
  define tm where "tm = (ts_mem s)(ssmem_ts_local s t := Some (x\<lparr>version := version x + 1\<rparr>))"
  have "ts_mem s (ssmem_ts_local s t) = Some x" using ok t by (simp add: ts_ok_def x_def)
  then have "ssmem_ts_next t s = Ret (s\<lparr>ts_mem := tm\<rparr>)" by (simp add: ssmem_ts_next_def tm_def)
  moreover have "tm (ssmem_ts_local s i) = Some \<lparr>version = word_of_nat (ticks i tr'), ts_ident = word_of_nat i\<rparr>" if "i < n" for i
    using ok that ts_ok_inj[OF ok that t] by (cases "i = t") (auto simp: tm_def x_def ts_ok_def tk add.commute)
  then have "ts_ok n tr' (s\<lparr>ts_mem := tm\<rparr>)" using ok by (simp add: ts_ok_def)
  ultimately show thesis by (rule that)
qed

lemma ts_ok_same:
  assumes "ts_ok n tr s" "\<And>i. ticks i tr' = ticks i tr" "ts_mem s' = ts_mem s" "ssmem_ts_list s' = ssmem_ts_list s"
    "ssmem_ts_list_len s' = ssmem_ts_list_len s" "ssmem_ts_local s' = ssmem_ts_local s"
  shows "ts_ok n tr' s'"
  using assms by (simp add: ts_ok_def)

section \<open>Chunks and objects\<close>

definition chunk_ok :: "ssmem \<Rightarrow> ssmem_allocator \<Rightarrow> bool" where
  "chunk_ok s x \<longleftrightarrow>
     (mem x, mem_size x) \<in> set (blocks s) \<and> 0 < mem_size x \<and> unat (mem_size x) \<le> 2 ^ 33 \<and>
     unat (mem x) + unat (mem_size x) \<le> 2 ^ 64 \<and> unat (mem_curr x) \<le> unat (mem_size x)"

definition inside :: "u64 \<Rightarrow> u64 \<Rightarrow> u64 \<times> u64 \<Rightarrow> bool" where
  "inside z p b \<longleftrightarrow> unat (fst b) \<le> unat p \<and> unat p + unat z \<le> unat (fst b) + unat (snd b)"

text \<open>The object is not in the part of the chunk that is still to be carved.\<close>

definition carved :: "u64 \<Rightarrow> u64 \<Rightarrow> ssmem_allocator \<Rightarrow> bool" where
  "carved z p x \<longleftrightarrow>
     unat p + unat z \<le> unat (mem x) + unat (mem_curr x) \<or> unat (mem x) + unat (mem_size x) \<le> unat p"

definition geo :: "nat \<Rightarrow> (nat \<Rightarrow> u64) \<Rightarrow> u64 \<Rightarrow> u64 set \<Rightarrow> ssmem \<Rightarrow> bool" where
  "geo n ap z K s \<longleftrightarrow>
     (\<forall>t<n. chunk_ok s (al s (ap t))) \<and>
     (\<forall>t<n. \<forall>u<n. t \<noteq> u \<longrightarrow> blk_disj (mem (al s (ap t)), mem_size (al s (ap t))) (mem (al s (ap u)), mem_size (al s (ap u)))) \<and>
     (\<forall>p\<in>K. \<exists>b\<in>set (blocks s). inside z p b) \<and>
     (\<forall>p\<in>K. \<forall>q\<in>K. p \<noteq> q \<longrightarrow> blk_disj (p, z) (q, z)) \<and>
     (\<forall>p\<in>K. \<forall>t<n. carved z p (al s (ap t)))"

lemma blk_disj_sym: "blk_disj b c \<longleftrightarrow> blk_disj c b"
  by (auto simp: blk_disj_def)

lemma geoD:
  assumes "geo n ap z K s"
  shows "t < n \<Longrightarrow> chunk_ok s (al s (ap t))"
    "t < n \<Longrightarrow> u < n \<Longrightarrow> t \<noteq> u \<Longrightarrow>
      blk_disj (mem (al s (ap t)), mem_size (al s (ap t))) (mem (al s (ap u)), mem_size (al s (ap u)))"
    "p \<in> K \<Longrightarrow> \<exists>b\<in>set (blocks s). inside z p b"
    "p \<in> K \<Longrightarrow> q \<in> K \<Longrightarrow> p \<noteq> q \<Longrightarrow> blk_disj (p, z) (q, z)"
    "p \<in> K \<Longrightarrow> t < n \<Longrightarrow> carved z p (al s (ap t))"
  using assms unfolding geo_def by blast+

lemma geo_frame:
  assumes "geo n ap z K s" "set (blocks s) \<subseteq> set (blocks s')"
    "\<And>t. t < n \<Longrightarrow> same_chunk (al s (ap t)) (al s' (ap t))"
  shows "geo n ap z K s'"
proof -
  have eq: "mem (al s' (ap t)) = mem (al s (ap t))" "mem_size (al s' (ap t)) = mem_size (al s (ap t))"
    "mem_curr (al s' (ap t)) = mem_curr (al s (ap t))" if "t < n" for t
    using assms(3)[OF that] by (simp_all add: same_chunk_def)
  have "chunk_ok s' (al s' (ap t))" if "t < n" for t
    using geoD(1)[OF assms(1) that] assms(2) eq[OF that] by (auto simp: chunk_ok_def)
  moreover have "\<exists>b\<in>set (blocks s'). inside z p b" if "p \<in> K" for p
    using geoD(3)[OF assms(1) that] assms(2) by blast
  moreover have "carved z p (al s' (ap t))" if "p \<in> K" "t < n" for p t
    using geoD(5)[OF assms(1) that] eq[OF that(2)] by (simp add: carved_def)
  ultimately show ?thesis
    using geoD(2,4)[OF assms(1)] eq unfolding geo_def by simp
qed

lemma same_chunk_refl [simp]: "same_chunk x x"
  by (simp add: same_chunk_def)

lemma al_put: "inj_on ap {..<n} \<Longrightarrow> t < n \<Longrightarrow> u < n \<Longrightarrow> al (put_allocator (ap t) y s) (ap u) = (if u = t then y else al s (ap u))"
  by (auto simp: inj_on_def)

text \<open>A new chunk overlaps no other chunk and no object.\<close>

lemma geo_new_chunk:
  assumes g: "geo n ap z K s" and inj: "inj_on ap {..<n}" and t: "t < n" and y: "new_chunk x y s s1"
  shows "geo n ap z K (put_allocator (ap t) y s1)"
proof -
  let ?s = "put_allocator (ap t) y s1"
  have mb: "more_blocks s s1" and nc: "mem_curr y = 0" "(mem y, mem_size y) \<in> set (blocks s1)" "0 < mem_size y"
    "unat (mem_size y) \<le> 2 ^ 33" "unat (mem y) + unat (mem_size y) \<le> 2 ^ 64"
    "\<forall>b\<in>set (blocks s). blk_disj (mem y, mem_size y) b"
    using y by (auto simp: new_chunk_def)
  have al: "al ?s (ap u) = (if u = t then y else al s (ap u))" if "u < n" for u
    using al_put[OF inj t that, of y s1] more_blocksD(1)[OF mb] by simp
  have chunk: "chunk_ok ?s (al ?s (ap u))" if "u < n" for u
    using geoD(1)[OF g that] more_blocksD(7)[OF mb] nc al[OF that] by (auto simp: chunk_ok_def)
  have disj: "blk_disj (mem y, mem_size y) (mem (al s (ap u)), mem_size (al s (ap u)))" if "u < n" for u
    using geoD(1)[OF g that] nc(6) by (auto simp: chunk_ok_def)
  have disj2: "blk_disj (mem (al ?s (ap u)), mem_size (al ?s (ap u))) (mem (al ?s (ap v)), mem_size (al ?s (ap v)))"
    if "u < n" "v < n" "u \<noteq> v" for u v
    using geoD(2)[OF g that] al[OF that(1)] al[OF that(2)] disj[OF that(1)] disj[OF that(2)] that(3) blk_disj_sym
    by (cases "u = t"; cases "v = t") auto
  have ins: "\<exists>b\<in>set (blocks ?s). inside z p b" if "p \<in> K" for p
    using geoD(3)[OF g that] more_blocksD(7)[OF mb] by auto
  have new: "carved z p y" if p: "p \<in> K" for p
  proof -
    obtain b where b: "b \<in> set (blocks s)" "inside z p b" using geoD(3)[OF g p] by blast
    then have "blk_disj (mem y, mem_size y) b" using nc(6) by blast
    then show ?thesis using b(2) nc(1) by (auto simp: carved_def inside_def blk_disj_def)
  qed
  have "carved z p (al ?s (ap u))" if "p \<in> K" "u < n" for p u
    using geoD(5)[OF g that] al[OF that(2)] new[OF that(1)] by simp
  then show ?thesis using chunk disj2 ins geoD(4)[OF g] unfolding geo_def by blast
qed

text \<open>Carving the next object.\<close>

lemma geo_carve:
  assumes g: "geo n ap z K s" and inj: "inj_on ap {..<n}" and t: "t < n" and x: "x = al s (ap t)"
    and room: "unat (mem_curr x) + unat z \<le> unat (mem_size x)" and z: "0 < z"
  shows "mem x + mem_curr x \<notin> K"
    "geo n ap z (insert (mem x + mem_curr x) K) (put_allocator (ap t) (x\<lparr>mem_curr := mem_curr x + z\<rparr>) s)"
proof -
  let ?p = "mem x + mem_curr x" let ?y = "x\<lparr>mem_curr := mem_curr x + z\<rparr>" let ?s = "put_allocator (ap t) ?y s"
  have ok: "chunk_ok s x" using geoD(1)[OF g t] x by simp
  have z0: "0 < unat z" using z by (simp add: unat_gt_0 word_greater_zero_iff)
  have "unat (mem x) + unat (mem_curr x) < 2 ^ 64" using ok room z0 by (simp add: chunk_ok_def)
  then have p: "unat ?p = unat (mem x) + unat (mem_curr x)" by (simp add: unat_word_ariths)
  have "unat (mem_curr x) + unat z < 2 ^ 64" using ok room by (simp add: chunk_ok_def)
  then have c: "unat (mem_curr x + z) = unat (mem_curr x) + unat z" by (simp add: unat_word_ariths)
  have cK: "carved z q x" if "q \<in> K" for q using geoD(5)[OF g that t] x by simp
  show "?p \<notin> K" using cK[of ?p] p z0 room by (auto simp: carved_def)
  have al: "al ?s (ap u) = (if u = t then ?y else al s (ap u))" if "u < n" for u
    by (rule al_put[OF inj t that])
  have chunk: "chunk_ok ?s (al ?s (ap u))" if "u < n" for u
    using geoD(1)[OF g that] al[OF that] room x c by (auto simp: chunk_ok_def)
  have disj: "blk_disj (mem (al ?s (ap u)), mem_size (al ?s (ap u))) (mem (al ?s (ap v)), mem_size (al ?s (ap v)))"
    if "u < n" "v < n" "u \<noteq> v" for u v
    using geoD(2)[OF g that] al[OF that(1)] al[OF that(2)] x by auto
  have insp: "inside z ?p (mem x, mem_size x)" using p room by (simp add: inside_def)
  have ins: "\<exists>b\<in>set (blocks ?s). inside z q b" if "q \<in> insert ?p K" for q
    using that geoD(3)[OF g, of q] insp ok by (auto simp: chunk_ok_def)
  have pq: "blk_disj (?p, z) (q, z)" if "q \<in> K" for q
    using cK[OF that] p room by (auto simp: carved_def blk_disj_def)
  have objs: "blk_disj (q, z) (r, z)" if "q \<in> insert ?p K" "r \<in> insert ?p K" "q \<noteq> r" for q r
    using that geoD(4)[OF g, of q r] pq[of q] pq[of r] blk_disj_sym by blast
  have carve_p: "carved z ?p (al ?s (ap u))" if "u < n" for u
  proof (cases "u = t")
    case True
    then show ?thesis using al[OF that] p c by (simp add: carved_def)
  next
    case False
    then have "blk_disj (mem x, mem_size x) (mem (al s (ap u)), mem_size (al s (ap u)))"
      using geoD(2)[OF g t that] x by auto
    then show ?thesis using False al[OF that] p room geoD(1)[OF g that]
      by (auto simp: carved_def blk_disj_def chunk_ok_def)
  qed
  have carve_q: "carved z q (al ?s (ap u))" if "q \<in> K" "u < n" for q u
    using geoD(5)[OF g that] al[OF that(2)] cK[OF that(1)] c x by (auto simp: carved_def)
  have carve_all: "carved z q (al ?s (ap u))" if "q \<in> insert ?p K" "u < n" for q u
    using that carve_p carve_q by blast
  show "geo n ap z (insert ?p K) ?s"
    unfolding geo_def by (intro conjI allI ballI impI chunk disj ins objs carve_all)
qed

section \<open>The free sets of one thread\<close>

definition reading :: "nat \<Rightarrow> ss_event list \<Rightarrow> nat \<Rightarrow> ssmem \<Rightarrow> ts_vector \<Rightarrow> u64 list \<Rightarrow> bool" where
  "reading n tr lo s v ps \<longleftrightarrow>
     length (snd v) = n \<and> set ps \<subseteq> set (ssmem_ts_list s) \<and>
     (\<forall>i<n. ssmem_ts_local s i \<in> set ps \<or>
        (\<exists>k. lo \<le> k \<and> k \<le> length tr \<and> snd v ! i = Some (word_of_nat (ticks i (take k tr)))))"

definition thr_ok :: "nat \<Rightarrow> ss_event list \<Rightarrow> nat \<Rightarrow> ssmem \<Rightarrow> ssmem_allocator \<Rightarrow> ss_pc \<Rightarrow> bool" where
  "thr_ok n tr t s x pcv \<longleftrightarrow>
     (\<forall>p \<in> set (concat (map fs_objs (collected_set_list x))). quiesced n tr t p) \<and>
     (case pcv of
        Idle \<Rightarrow> (\<forall>p \<in> set (fs_objs (hd (free_set_list x))). \<exists>k<length tr. freed_at tr k t p) \<and>
                chain n t tr (length tr) (tl (free_set_list x))
      | Collecting q v ps \<Rightarrow>
          fs_full (hd (free_set_list x)) \<and>
          (\<exists>lo \<le> length tr. (\<forall>p \<in> set (fs_objs (hd (free_set_list x))). \<exists>k<lo. freed_at tr k t p) \<and>
             chain n t tr lo (tl (free_set_list x)) \<and> reading n tr lo s v ps))"

lemma reading_ext:
  assumes "reading n tr lo s v ps" "ssmem_ts_list s' = ssmem_ts_list s" "ssmem_ts_local s' = ssmem_ts_local s"
  shows "reading n (tr @ ev) lo s' v ps"
proof -
  have "\<exists>k. lo \<le> k \<and> k \<le> length (tr @ ev) \<and> snd v ! i = Some (word_of_nat (ticks i (take k (tr @ ev))))"
    if "lo \<le> k \<and> k \<le> length tr \<and> snd v ! i = Some (word_of_nat (ticks i (take k tr)))" for i k
    using that by (intro exI[of _ k]) simp
  then show ?thesis using assms unfolding reading_def by metis
qed

lemma objs_parts:
  "free_set_list x \<noteq> [] \<Longrightarrow> set (objs x) = set (fs_objs (hd (free_set_list x))) \<union>
     set (concat (map fs_objs (tl (free_set_list x)))) \<union> set (concat (map fs_objs (collected_set_list x)))"
  by (cases "free_set_list x") (simp_all add: objs_def Un_assoc)

lemma thr_ok_ext:
  assumes ok: "thr_ok n tr t s x pcv" and ne: "free_set_list x \<noteq> []"
    and ev: "\<And>p e. p \<in> set (objs x) \<Longrightarrow> e \<in> set ev \<Longrightarrow> \<not> about p e"
    and s': "ssmem_ts_list s' = ssmem_ts_list s" "ssmem_ts_local s' = ssmem_ts_local s"
  shows "thr_ok n (tr @ ev) t s' x pcv"
proof -
  have q: "\<forall>p \<in> set (concat (map fs_objs (collected_set_list x))). quiesced n (tr @ ev) t p"
  proof
    fix p assume "p \<in> set (concat (map fs_objs (collected_set_list x)))"
    then show "quiesced n (tr @ ev) t p"
      using ok ev[of p] objs_parts[OF ne] unfolding thr_ok_def by (intro quiesced_ext) auto
  qed
  have hd_ext: "\<forall>p \<in> set (fs_objs (hd (free_set_list x))). \<exists>k<b'. freed_at (tr @ ev) k t p"
    if fr: "\<forall>p \<in> set (fs_objs (hd (free_set_list x))). \<exists>k<b. freed_at tr k t p" and bb: "b \<le> b'" for b b'
  proof
    fix p assume p: "p \<in> set (fs_objs (hd (free_set_list x)))"
    then obtain k where "k < b" "freed_at tr k t p" using fr by blast
    moreover have "\<forall>e \<in> set ev. \<not> about p e" using ev[of p] p objs_parts[OF ne] by blast
    ultimately show "\<exists>k<b'. freed_at (tr @ ev) k t p" using bb by (meson freed_at_ext less_le_trans)
  qed
  have ch_ext: "chain n t (tr @ ev) b' (tl (free_set_list x))"
    if "chain n t tr b (tl (free_set_list x))" "b \<le> length tr" "b \<le> b'" for b b'
  proof (rule chain_le[OF chain_ext[OF that(1,2)] that(3)])
    fix p e assume "p \<in> set (concat (map fs_objs (tl (free_set_list x))))" "e \<in> set ev"
    then show "\<not> about p e" using ev[of p e] objs_parts[OF ne] by blast
  qed
  show ?thesis
  proof (cases pcv)
    case Idle
    then show ?thesis using ok q hd_ext[of "length tr" "length (tr @ ev)"]
        ch_ext[of "length tr" "length (tr @ ev)"]
      by (simp add: thr_ok_def)
  next
    case (Collecting q v ps)
    obtain lo where lo: "lo \<le> length tr" "\<forall>p \<in> set (fs_objs (hd (free_set_list x))). \<exists>k<lo. freed_at tr k t p"
      "chain n t tr lo (tl (free_set_list x))" "reading n tr lo s v ps" "fs_full (hd (free_set_list x))"
      using ok Collecting unfolding thr_ok_def by auto
    have "lo \<le> length (tr @ ev)" using lo(1) by simp
    then show ?thesis
      using q hd_ext[OF lo(2) order_refl] ch_ext[OF lo(3,1) order_refl]
        reading_ext[OF lo(4) s'] lo(5)
      unfolding thr_ok_def Collecting by auto
  qed
qed

section \<open>The invariant\<close>

text \<open>Every object handed out again had been freed, and every thread has ticked since.\<close>

definition events_ok :: "nat \<Rightarrow> ss_event list \<Rightarrow> bool" where
  "events_ok n tr \<longleftrightarrow> (\<forall>xs t p ys. tr = xs @ EvAlloc t p True # ys \<longrightarrow> quiesced n xs t p)"

definition sys_inv :: "nat \<Rightarrow> (nat \<Rightarrow> u64) \<Rightarrow> u64 \<Rightarrow> (u64 \<Rightarrow> loc) \<Rightarrow> ss_config \<Rightarrow> bool" where
  "sys_inv n ap z loc c \<longleftrightarrow>
     inj_on ap {..<n} \<and> ts_ok n (trace c) (sys c) \<and> geo n ap z {p. loc p \<noteq> Absent} (sys c) \<and>
     (\<forall>p. p \<in> set (live c) \<longleftrightarrow> loc p = LiveObj) \<and> distinct (live c) \<and>
     (\<forall>t p. loc p = Flight t \<longleftrightarrow> t < n \<and> (\<exists>v ps. pc c t = Collecting p v ps)) \<and>
     (\<forall>t p. loc p = InSets t \<longrightarrow> t < n) \<and>
     (\<forall>t<n. allocator_mem (sys c) (ap t) \<noteq> None \<and> sets_ok n (al (sys c) (ap t)) \<and>
        distinct (objs (al (sys c) (ap t))) \<and> (\<forall>p. p \<in> set (objs (al (sys c) (ap t))) \<longleftrightarrow> loc p = InSets t) \<and>
        thr_ok n (trace c) t (sys c) (al (sys c) (ap t)) (pc c t)) \<and>
     events_ok n (trace c)"

lemma sys_invD:
  assumes "sys_inv n ap z loc c"
  shows "inj_on ap {..<n}" "ts_ok n (trace c) (sys c)" "geo n ap z {p. loc p \<noteq> Absent} (sys c)"
    "p \<in> set (live c) \<longleftrightarrow> loc p = LiveObj"
    "loc p = Flight t \<longleftrightarrow> t < n \<and> (\<exists>v ps. pc c t = Collecting p v ps)"
    "loc p = InSets t \<Longrightarrow> t < n"
    "t < n \<Longrightarrow> allocator_mem (sys c) (ap t) = Some (al (sys c) (ap t))"
    "t < n \<Longrightarrow> sets_ok n (al (sys c) (ap t))"
    "t < n \<Longrightarrow> distinct (objs (al (sys c) (ap t)))"
    "t < n \<Longrightarrow> p \<in> set (objs (al (sys c) (ap t))) \<longleftrightarrow> loc p = InSets t"
    "t < n \<Longrightarrow> thr_ok n (trace c) t (sys c) (al (sys c) (ap t)) (pc c t)"
    "events_ok n (trace c)" "distinct (live c)"
  using assms unfolding sys_inv_def by auto

lemma events_ok_snoc:
  assumes "events_ok n tr" "\<And>t p. e = EvAlloc t p True \<Longrightarrow> quiesced n tr t p"
  shows "events_ok n (tr @ [e])"
  unfolding events_ok_def
proof (intro allI impI)
  fix xs t p ys assume eq: "tr @ [e] = xs @ EvAlloc t p True # ys"
  show "quiesced n xs t p"
  proof (cases ys rule: rev_cases)
    case Nil
    then show ?thesis using eq assms(2) by simp
  next
    case (snoc zs e')
    then have "tr = xs @ EvAlloc t p True # zs" using eq by simp
    then show ?thesis using assms(1) unfolding events_ok_def by blast
  qed
qed

text \<open>
  A step of thread \<open>t\<close> keeps the invariant if it keeps what concerns \<open>t\<close> and does not touch the
  objects of the other threads.
\<close>

lemma sys_inv_update:
  assumes inv: "sys_inv n ap z loc c" and t: "t < n"
    and s': "allocator_mem s' = (allocator_mem (sys c))(ap t := Some y)"
      "ssmem_ts_list s' = ssmem_ts_list (sys c)" "ssmem_ts_local s' = ssmem_ts_local (sys c)"
    and others: "\<And>q u. u \<noteq> t \<Longrightarrow> loc' q = InSets u \<longleftrightarrow> loc q = InSets u"
      "\<And>q u. u \<noteq> t \<Longrightarrow> loc' q = Flight u \<longleftrightarrow> loc q = Flight u"
    and ev: "\<And>q u e. u \<noteq> t \<Longrightarrow> loc q = InSets u \<Longrightarrow> e \<in> set ev \<Longrightarrow> \<not> about q e"
    and ts: "ts_ok n (trace c @ ev) s'"
    and g: "geo n ap z {q. loc' q \<noteq> Absent} s'"
    and live: "\<And>q. q \<in> set live' \<longleftrightarrow> loc' q = LiveObj" "distinct live'"
    and fl: "\<And>q. loc' q = Flight t \<longleftrightarrow> (\<exists>v ps. pc' = Collecting q v ps)"
    and y: "sets_ok n y" "distinct (objs y)" "\<And>q. q \<in> set (objs y) \<longleftrightarrow> loc' q = InSets t"
    and thr: "thr_ok n (trace c @ ev) t s' y pc'"
    and evs: "events_ok n (trace c @ ev)"
  shows "sys_inv n ap z loc' \<lparr>sys = s', pc = (pc c)(t := pc'), live = live', trace = trace c @ ev\<rparr>"
proof -
  note inj = sys_invD(1)[OF inv]
  have al: "al s' (ap u) = (if u = t then y else al (sys c) (ap u))" if "u < n" for u
    using inj t that s'(1) by (auto simp: inj_on_def)
  have u_ok: "allocator_mem s' (ap u) \<noteq> None \<and> sets_ok n (al s' (ap u)) \<and> distinct (objs (al s' (ap u))) \<and>
      (\<forall>q. q \<in> set (objs (al s' (ap u))) \<longleftrightarrow> loc' q = InSets u) \<and>
      thr_ok n (trace c @ ev) u s' (al s' (ap u)) (((pc c)(t := pc')) u)" if u: "u < n" for u
  proof (cases "u = t")
    case True
    then show ?thesis using y thr al[OF t] s'(1) by simp
  next
    case False
    note x = sys_invD(7-11)[OF inv u]
    have "\<not> about q e" if "q \<in> set (objs (al (sys c) (ap u)))" "e \<in> set ev" for q e
      using ev[OF False, of q e] x(4)[of q] that by blast
    then have "thr_ok n (trace c @ ev) u s' (al (sys c) (ap u)) (pc c u)"
      by (rule thr_ok_ext[OF x(5) sets_okD(1)[OF x(2)] _ s'(2,3)])
    moreover have "q \<in> set (objs (al (sys c) (ap u))) \<longleftrightarrow> loc' q = InSets u" for q
      using x(4)[of q] others(1)[OF False, of q] by blast
    moreover have "allocator_mem s' (ap u) \<noteq> None" using x(1) s'(1) by (metis fun_upd_apply option.distinct(1))
    ultimately show ?thesis using x(2,3) al[OF u] False by simp
  qed
  have "loc' q = Flight u \<longleftrightarrow> u < n \<and> (\<exists>v ps. ((pc c)(t := pc')) u = Collecting q v ps)" for u q
  proof (cases "u = t")
    case True
    then show ?thesis using fl[of q] t by simp
  next
    case False
    then show ?thesis using sys_invD(5)[OF inv, of q u] others(2)[OF False, of q] by simp
  qed
  moreover have "u < n" if "loc' q = InSets u" for u q
    using that sys_invD(6)[OF inv, of q u] others(1)[of u q] t by blast
  ultimately show ?thesis using inj ts g live u_ok evs unfolding sys_inv_def by simp
qed

text \<open>The object \<open>p\<close> moves.\<close>

lemma sys_inv_move:
  assumes inv: "sys_inv n ap z loc c" and t: "t < n"
    and s': "allocator_mem s' = (allocator_mem (sys c))(ap t := Some y)"
      "ssmem_ts_list s' = ssmem_ts_list (sys c)" "ssmem_ts_local s' = ssmem_ts_local (sys c)"
    and src: "loc p \<in> {Absent, LiveObj, Flight t, InSets t}" and dst: "l \<in> {LiveObj, Flight t, InSets t}"
    and ev: "\<And>q e. q \<noteq> p \<Longrightarrow> e \<in> set ev \<Longrightarrow> \<not> about q e"
    and ts: "ts_ok n (trace c @ ev) s'"
    and g: "geo n ap z {q. (loc(p := l)) q \<noteq> Absent} s'"
    and live: "\<And>q. q \<in> set live' \<longleftrightarrow> (loc(p := l)) q = LiveObj" "distinct live'"
    and fl: "\<And>q. (loc(p := l)) q = Flight t \<longleftrightarrow> (\<exists>v ps. pc' = Collecting q v ps)"
    and y: "sets_ok n y" "distinct (objs y)" "\<And>q. q \<in> set (objs y) \<longleftrightarrow> (loc(p := l)) q = InSets t"
    and thr: "thr_ok n (trace c @ ev) t s' y pc'"
    and evs: "events_ok n (trace c @ ev)"
  shows "sys_inv n ap z (loc(p := l)) \<lparr>sys = s', pc = (pc c)(t := pc'), live = live', trace = trace c @ ev\<rparr>"
proof (rule sys_inv_update[OF inv t s' _ _ _ ts g live fl y thr evs])
  show "(loc(p := l)) q = InSets u \<longleftrightarrow> loc q = InSets u" if "u \<noteq> t" for q u using that src dst by auto
  show "(loc(p := l)) q = Flight u \<longleftrightarrow> loc q = Flight u" if "u \<noteq> t" for q u using that src dst by auto
  show "\<not> about q e" if "u \<noteq> t" "loc q = InSets u" "e \<in> set ev" for q u e
    using ev[of q e] that src by (cases "q = p") auto
qed

end
