(* ===== verification/SsmemSteps.thy ===== *)
theory SsmemSteps
  imports SsmemInv
begin

text \<open>
  Every action of the threads keeps the invariant and stops only when the C library is out of memory;
  the initialisation establishes it.
\<close>

definition some_inv :: "nat \<Rightarrow> (nat \<Rightarrow> u64) \<Rightarrow> u64 \<Rightarrow> ss_config \<Rightarrow> bool" where
  "some_inv n ap z c \<longleftrightarrow> (\<exists>loc. sys_inv n ap z loc c)"

lemma config_eq: "c\<lparr>sys := s, pc := f, live := L, trace := tr\<rparr> = \<lparr>sys = s, pc = f, live = L, trace = tr\<rparr>"
  by (cases c) simp

lemma config_same: "c\<lparr>pc := pc c\<rparr> = c" "c\<lparr>live := live c\<rparr> = c" "c\<lparr>trace := trace c\<rparr> = c" "c\<lparr>sys := sys c\<rparr> = c"
  by (cases c, simp)+

lemma put_same: "allocator_mem s a = Some x \<Longrightarrow> put_allocator a x s = s"
  by (simp add: put_allocator_def fun_upd_idem)

lemma mset_remove:
  assumes "mset xs = add_mset p (mset ys)" "distinct xs"
  shows "distinct ys" "p \<notin> set ys" "set xs = insert p (set ys)"
proof -
  have "mset xs = mset (p # ys)" using assms(1) by simp
  then have "distinct (p # ys)" "set xs = set (p # ys)"
    using assms(2) mset_eq_imp_distinct_iff mset_eq_setD by blast+
  then show "distinct ys" "p \<notin> set ys" "set xs = insert p (set ys)" by simp_all
qed

section \<open>Ticking\<close>

lemma tick_one: "(\<And>j. EvTick j \<notin> set e) \<Longrightarrow> ticks i (tr @ e @ [EvTick t]) = ticks i tr + (if i = t then 1 else 0)"
  by (auto simp: ticks_def filter_empty_conv)

lemma step_tick:
  assumes inv: "sys_inv n ap z loc c" and en: "ss_enabled n (DoTick t) c"
  shows "safe_run (some_inv n ap z) (ss_step ap z (DoTick t) c)"
proof -
  have t: "t < n" "pc c t = Idle" using en by simp_all
  have tk: "ticks i (trace c @ [EvTick t]) = ticks i (trace c) + (if i = t then 1 else 0)" for i
    using tick_one[of "[]" i "trace c" t] by simp
  obtain tm where tm: "ssmem_ts_next t (sys c) = Ret ((sys c)\<lparr>ts_mem := tm\<rparr>)"
    "ts_ok n (trace c @ [EvTick t]) ((sys c)\<lparr>ts_mem := tm\<rparr>)"
    using ts_next_ok[OF sys_invD(2)[OF inv] t(1) tk] by blast
  note x = sys_invD(7-11)[OF inv t(1)]
  have "sys_inv n ap z loc \<lparr>sys = (sys c)\<lparr>ts_mem := tm\<rparr>, pc = (pc c)(t := pc c t), live = live c, trace = trace c @ [EvTick t]\<rparr>"
  proof (rule sys_inv_update[OF inv t(1) _ _ _ _ _ _ tm(2), where y = "al (sys c) (ap t)"])
    show "allocator_mem ((sys c)\<lparr>ts_mem := tm\<rparr>) = (allocator_mem (sys c))(ap t := Some (al (sys c) (ap t)))"
      using x(1) by (simp add: fun_upd_idem)
    show "geo n ap z {q. loc q \<noteq> Absent} ((sys c)\<lparr>ts_mem := tm\<rparr>)"
      by (rule geo_frame[OF sys_invD(3)[OF inv]]) simp_all
    show "thr_ok n (trace c @ [EvTick t]) t ((sys c)\<lparr>ts_mem := tm\<rparr>) (al (sys c) (ap t)) (pc c t)"
      by (rule thr_ok_ext[OF x(5) sets_okD(1)[OF x(2)]]) auto
    show "events_ok n (trace c @ [EvTick t])" by (rule events_ok_snoc[OF sys_invD(12)[OF inv]]) simp
  qed (use x sys_invD(13,4,5)[OF inv] t(1) in auto)
  then have "some_inv n ap z (c\<lparr>sys := (sys c)\<lparr>ts_mem := tm\<rparr>, trace := trace c @ [EvTick t]\<rparr>)"
    unfolding some_inv_def by (cases c) auto
  then show ?thesis using tm(1) by simp
qed

section \<open>Allocation\<close>

lemma step_alloc_reuse:
  assumes inv: "sys_inv n ap z loc c" and t: "t < n" "pc c t = Idle"
    and col: "collected_set_list (al (sys c) (ap t)) \<noteq> []"
  shows "safe_run (some_inv n ap z) (ss_step ap z (DoAlloc t) c)"
proof -
  note x = sys_invD(7-11)[OF inv t(1)]
  let ?x = "al (sys c) (ap t)"
  obtain p y where p: "ssmem_alloc (ap t) z (sys c) = Ret (p, put_allocator (ap t) y (sys c))"
    and y: "sets_ok n y" "free_set_list y = free_set_list ?x" "same_chunk ?x y"
    and ms: "mset (concat (map fs_objs (collected_set_list ?x))) = add_mset p (mset (concat (map fs_objs (collected_set_list y))))"
    using alloc_reuse[OF x(1,2) col] by blast
  have objs: "mset (objs ?x) = add_mset p (mset (objs y))" using ms y(2) by (simp add: objs_def)
  note mo = mset_remove[OF objs x(3)]
  have pin: "loc p = InSets t" using x(4)[of p] mo(3) by simp
  have col_p: "p \<in> set (concat (map fs_objs (collected_set_list ?x)))"
    using arg_cong[OF ms, of set_mset] by simp
  have col_sub: "set (concat (map fs_objs (collected_set_list y))) \<subseteq> set (concat (map fs_objs (collected_set_list ?x)))"
    using arg_cong[OF ms, of set_mset] by (simp only: set_mset_mset set_mset_add_mset_insert) blast
  let ?s = "put_allocator (ap t) y (sys c)" let ?ev = "[EvAlloc t p True]"
  have quiet: "quiesced n (trace c) t p" using x(5) col_p unfolding thr_ok_def by blast
  have thr: "thr_ok n (trace c) t (sys c) y Idle"
    using x(5) y(2) col_sub t(2) unfolding thr_ok_def by auto
  have "sys_inv n ap z (loc(p := LiveObj)) \<lparr>sys = ?s, pc = (pc c)(t := pc c t), live = p # live c, trace = trace c @ ?ev\<rparr>"
  proof (rule sys_inv_move[OF inv t(1), where y = y])
    show "ts_ok n (trace c @ ?ev) ?s" by (rule ts_ok_same[OF sys_invD(2)[OF inv]]) simp_all
    have "{q. (loc(p := LiveObj)) q \<noteq> Absent} = {q. loc q \<noteq> Absent}" using pin by auto
    moreover have "geo n ap z {q. loc q \<noteq> Absent} ?s"
      by (rule geo_frame[OF sys_invD(3)[OF inv]]) (use y(3) al_put[OF sys_invD(1)[OF inv] t(1)] in auto)
    ultimately show "geo n ap z {q. (loc(p := LiveObj)) q \<noteq> Absent} ?s" by simp
    show "thr_ok n (trace c @ ?ev) t ?s y (pc c t)" unfolding t(2)
      by (rule thr_ok_ext[OF thr sets_okD(1)[OF y(1)]]) (use mo(2) in auto)
    show "events_ok n (trace c @ ?ev)" by (rule events_ok_snoc[OF sys_invD(12)[OF inv]]) (use quiet in auto)
    show "q \<in> set (objs y) \<longleftrightarrow> (loc(p := LiveObj)) q = InSets t" for q
      using x(4)[of q] mo(2,3) by auto
    show "(loc(p := LiveObj)) q = Flight t \<longleftrightarrow> (\<exists>v ps. pc c t = Collecting q v ps)" for q
      using sys_invD(5)[OF inv, of q t] t pin by auto
  qed (use y mo pin sys_invD(4,13)[OF inv] in auto)
  then have "some_inv n ap z (c\<lparr>sys := ?s, live := p # live c, trace := trace c @ ?ev\<rparr>)"
    unfolding some_inv_def by (cases c) auto
  then show ?thesis using p col by (simp add: get_allocator_Some[OF x(1)])
qed

lemma step_alloc_carve:
  assumes inv: "sys_inv n ap z loc c" and t: "t < n" "pc c t = Idle" and z: "0 < z" "unat z \<le> 2 ^ 32"
    and col: "collected_set_list (al (sys c) (ap t)) = []"
  shows "safe_run (some_inv n ap z) (ss_step ap z (DoAlloc t) c)"
proof -
  note x = sys_invD(7-11)[OF inv t(1)] and inj = sys_invD(1)[OF inv]
  let ?x = "al (sys c) (ap t)" let ?K = "{q. loc q \<noteq> Absent}"
  have chunk: "chunk_ok (sys c) ?x" by (rule geoD(1)[OF sys_invD(3)[OF inv] t(1)])
  have ms: "0 < mem_size ?x" "unat (mem_size ?x) \<le> 2 ^ 33" "unat (mem_curr ?x) \<le> unat (mem_size ?x)"
    using chunk by (simp_all add: chunk_ok_def)
  have main: "some_inv n ap z (c\<lparr>sys := put_allocator (ap t) (y\<lparr>mem_curr := mem_curr y + z\<rparr>) s1,
      live := (mem y + mem_curr y) # live c, trace := trace c @ [EvAlloc t (mem y + mem_curr y) False]\<rparr>)"
    if ss: "same_sets ?x y" and room: "unat (mem_curr y) + unat z \<le> unat (mem_size y)"
      and alt: "new_chunk ?x y (sys c) s1 \<or> y = ?x \<and> s1 = sys c" for y s1
  proof -
    define p where "p = mem y + mem_curr y"
    let ?y = "y\<lparr>mem_curr := mem_curr y + z\<rparr>" let ?s = "put_allocator (ap t) ?y s1" let ?ev = "[EvAlloc t p False]"
    have mb: "more_blocks (sys c) s1" using alt by (auto simp: new_chunk_def)
    have g1: "geo n ap z ?K (put_allocator (ap t) y s1)"
      using alt
    proof
      assume "new_chunk ?x y (sys c) s1"
      then show ?thesis by (rule geo_new_chunk[OF sys_invD(3)[OF inv] inj t(1)])
    next
      assume "y = ?x \<and> s1 = sys c"
      then show ?thesis using sys_invD(3)[OF inv] put_same[OF x(1)] by simp
    qed
    have aly: "y = al (put_allocator (ap t) y s1) (ap t)" by simp
    have pK: "p \<notin> ?K" and g2: "geo n ap z (insert p ?K) ?s"
      using geo_carve[OF g1 inj t(1) aly room z(1)] by (simp_all add: p_def)
    have absent: "loc p = Absent" using pK by simp
    have oy: "objs ?y = objs ?x" and sets: "sets_ok n ?y"
      using ss x(2) by (simp_all add: same_sets_def objs_def sets_ok_def)
    have thr: "thr_ok n (trace c) t (sys c) ?y Idle"
      using x(5) ss t(2) unfolding thr_ok_def same_sets_def by auto
    note mbD = more_blocksD[OF mb]
    have "sys_inv n ap z (loc(p := LiveObj)) \<lparr>sys = ?s, pc = (pc c)(t := pc c t), live = p # live c, trace = trace c @ ?ev\<rparr>"
    proof (rule sys_inv_move[OF inv t(1), where y = ?y])
      show "ts_ok n (trace c @ ?ev) ?s"
        by (rule ts_ok_same[OF sys_invD(2)[OF inv]]) (simp_all add: mbD)
      have "{q. (loc(p := LiveObj)) q \<noteq> Absent} = insert p ?K" by auto
      then show "geo n ap z {q. (loc(p := LiveObj)) q \<noteq> Absent} ?s" using g2 by simp
      have "p \<notin> set (objs ?y)" using x(4)[of p] oy absent by simp
      then show "thr_ok n (trace c @ ?ev) t ?s ?y (pc c t)" unfolding t(2)
        by (intro thr_ok_ext[OF thr sets_okD(1)[OF sets]]) (auto simp: mbD)
      show "events_ok n (trace c @ ?ev)" by (rule events_ok_snoc[OF sys_invD(12)[OF inv]]) simp
      show "q \<in> set (objs ?y) \<longleftrightarrow> (loc(p := LiveObj)) q = InSets t" for q
        using x(4)[of q] oy absent by auto
      show "(loc(p := LiveObj)) q = Flight t \<longleftrightarrow> (\<exists>v ps. pc c t = Collecting q v ps)" for q
        using sys_invD(5)[OF inv, of q t] t absent by auto
    qed (use sets oy x(3) absent sys_invD(4,13)[OF inv] mbD in auto)
    then show ?thesis unfolding some_inv_def p_def by (cases c) auto
  qed
  have eq: "ss_step ap z (DoAlloc t) c = bind_run (ssmem_alloc (ap t) z (sys c)) (\<lambda>(p, s).
      Ret (c\<lparr>sys := s, live := p # live c, trace := trace c @ [EvAlloc t p False]\<rparr>))"
    by (simp add: get_allocator_Some[OF x(1)] col)
  show ?thesis unfolding eq
    by (rule safe_bind[OF alloc_carve[OF x(1) col ms z(2)]]) (use main in auto)
qed

lemma step_alloc:
  assumes inv: "sys_inv n ap z loc c" and z: "0 < z" "unat z \<le> 2 ^ 32" and en: "ss_enabled n (DoAlloc t) c"
  shows "safe_run (some_inv n ap z) (ss_step ap z (DoAlloc t) c)"
proof (cases "collected_set_list (al (sys c) (ap t)) = []")
  case True
  show ?thesis by (rule step_alloc_carve[OF inv _ _ z True]) (use en in auto)
next
  case False
  show ?thesis by (rule step_alloc_reuse[OF inv _ _ False]) (use en in auto)
qed

section \<open>Freeing\<close>

text \<open>
  The store of a freed object: it is in the first free set, its \<open>EvFree\<close> is in the trace, and the
  thread has ticked. The thread may come from the fast path or from the end of a collection.
\<close>

lemma store_inv:
  assumes inv: "sys_inv n ap z loc c" and t: "t < n" and x: "allocator_mem s (ap t) = Some x"
    and fs: "free_set_list x = fs # rest" and ok: "sets_ok n x" and room: "\<not> fs_full fs"
    and thr: "thr_ok n (trace c) t (sys c) x Idle"
    and mb: "s = put_allocator (ap t) x s1" "more_blocks (sys c) s1"
    and chunk: "same_chunk (al (sys c) (ap t)) x" and objs_x: "mset (objs x) = mset (objs (al (sys c) (ap t)))"
    and src: "loc p = LiveObj \<and> pc c t = Idle \<or> loc p = Flight t"
    and ev: "ev = [EvFree t p, EvTick t]"
  shows "\<exists>s'. free_set_store t (ap t) p s = Ret s' \<and>
    some_inv n ap z \<lparr>sys = s', pc = (pc c)(t := Idle), live = remove1 p (live c), trace = trace c @ ev\<rparr>"
proof -
  note inj = sys_invD(1)[OF inv]
  obtain fs' where st: "free_set_store t (ap t) p s = ssmem_ts_next t (put_allocator (ap t) (x\<lparr>free_set_list := fs' # rest\<rparr>) s)"
    and y: "sets_ok n (x\<lparr>free_set_list := fs' # rest\<rparr>)" and fs': "fs_objs fs' = fs_objs fs @ [p]"
    using free_set_store_eq[OF x fs ok room] by metis
  let ?y = "x\<lparr>free_set_list := fs' # rest\<rparr>" let ?s = "put_allocator (ap t) ?y s1"
  have eqs: "put_allocator (ap t) ?y s = ?s" by (simp add: mb(1))
  note mbD = more_blocksD[OF mb(2)]
  have ts: "ts_ok n (trace c) ?s" by (rule ts_ok_same[OF sys_invD(2)[OF inv]]) (simp_all add: mbD)
  have tk: "ticks i (trace c @ ev) = ticks i (trace c) + (if i = t then 1 else 0)" for i
    using tick_one[of "[EvFree t p]" i "trace c" t] by (simp add: ev)
  obtain tm where tm: "ssmem_ts_next t ?s = Ret (?s\<lparr>ts_mem := tm\<rparr>)" "ts_ok n (trace c @ ev) (?s\<lparr>ts_mem := tm\<rparr>)"
    using ts_next_ok[OF ts t tk] by blast
  have old: "distinct (objs x)" "set (objs x) = set (objs (al (sys c) (ap t)))"
    using objs_x sys_invD(9)[OF inv t] mset_eq_imp_distinct_iff mset_eq_setD by blast+
  have px: "p \<notin> set (objs x)" using sys_invD(10)[OF inv t, of p] src old(2) by auto
  have my: "mset (objs ?y) = add_mset p (mset (objs x))" by (simp add: objs_def fs fs')
  have dy: "distinct (objs ?y)" using my old(1) px by (metis distinct.simps(2) mset.simps(2) mset_eq_imp_distinct_iff)
  have sy: "set (objs ?y) = insert p (set (objs x))" using arg_cong[OF my, of set_mset] by simp
  have thr1: "thr_ok n (trace c @ ev) t (?s\<lparr>ts_mem := tm\<rparr>) x Idle"
    by (rule thr_ok_ext[OF thr]) (use fs px in \<open>auto simp: ev mbD\<close>)
  have fp: "\<exists>k<length (trace c @ ev). freed_at (trace c @ ev) k t p"
    using freed_at_new[of p "EvTick t" "trace c" t] by (intro exI[of _ "length (trace c)"]) (simp add: ev)
  have thr2: "thr_ok n (trace c @ ev) t (?s\<lparr>ts_mem := tm\<rparr>) ?y Idle"
    using thr1 fp unfolding thr_ok_def by (auto simp: fs fs')
  have "sys_inv n ap z (loc(p := InSets t)) \<lparr>sys = ?s\<lparr>ts_mem := tm\<rparr>, pc = (pc c)(t := Idle), live = remove1 p (live c), trace = trace c @ ev\<rparr>"
  proof (rule sys_inv_move[OF inv t, where y = ?y])
    have "{q. (loc(p := InSets t)) q \<noteq> Absent} = {q. loc q \<noteq> Absent}" using src by auto
    moreover have "geo n ap z {q. loc q \<noteq> Absent} (?s\<lparr>ts_mem := tm\<rparr>)"
    proof (rule geo_frame[OF sys_invD(3)[OF inv]])
      show "set (blocks (sys c)) \<subseteq> set (blocks (?s\<lparr>ts_mem := tm\<rparr>))" using mbD(7) by simp
      fix u assume u: "u < n"
      show "same_chunk (al (sys c) (ap u)) (al (?s\<lparr>ts_mem := tm\<rparr>) (ap u))"
        using chunk al_put[OF inj t u, of ?y s1] mbD(1) by (simp add: same_chunk_def)
    qed
    ultimately show "geo n ap z {q. (loc(p := InSets t)) q \<noteq> Absent} (?s\<lparr>ts_mem := tm\<rparr>)" by simp
    have "events_ok n ((trace c @ [EvFree t p]) @ [EvTick t])"
      by (intro events_ok_snoc sys_invD(12)[OF inv]) simp_all
    then show "events_ok n (trace c @ ev)" by (simp add: ev)
    show "q \<in> set (objs ?y) \<longleftrightarrow> (loc(p := InSets t)) q = InSets t" for q
      using sys_invD(10)[OF inv t, of q] old(2) sy by auto
    show "(loc(p := InSets t)) q = Flight t \<longleftrightarrow> (\<exists>v ps. Idle = Collecting q v ps)" for q
      using sys_invD(5)[OF inv, of q t] sys_invD(5)[OF inv, of p t] src t by auto
  qed (use y dy src sys_invD(4,13)[OF inv] mbD tm(2) thr2 ev in \<open>auto\<close>)
  then show ?thesis using st tm(1) eqs unfolding some_inv_def by auto
qed

lemma ts_set_start_safe:
  assumes "\<And>v. w = Some v \<Longrightarrow> length (snd v) = n" "unat (ssmem_ts_list_len s) = n"
  shows "safe_run (\<lambda>(v, s'). more_blocks s s' \<and> length (snd v) = n) (ts_set_start w s)"
proof (cases w)
  case None
  show ?thesis
    by (rule memalign_cases[of 16 "ucast (ssmem_ts_list_len s) * 8" s])
       (use assms(2) in \<open>auto simp: None ts_set_start_def malloc_def assert_run_def oom_def dest: more_blocksD(5)\<close>)
qed (use assms in \<open>simp add: ts_set_start_def\<close>)

lemma step_free:
  assumes inv: "sys_inv n ap z loc c" and en: "ss_enabled n (DoFree t p) c"
  shows "safe_run (some_inv n ap z) (ss_step ap z (DoFree t p) c)"
proof -
  have t: "t < n" "pc c t = Idle" and live: "loc p = LiveObj" using en sys_invD(4)[OF inv] by auto
  note x = sys_invD(7-11)[OF inv t(1)]
  let ?x = "al (sys c) (ap t)"
  obtain fs rest where fs: "free_set_list ?x = fs # rest" using sets_okD(1)[OF x(2)] by (cases "free_set_list ?x") auto
  have thr: "thr_ok n (trace c) t (sys c) ?x Idle" using x(5) t(2) by simp
  note eqs = free_set_full_eq[OF x(1) fs]
  show ?thesis
  proof (cases "fs_full fs")
    case False
    obtain s' where s': "free_set_store t (ap t) p (sys c) = Ret s'"
      "some_inv n ap z \<lparr>sys = s', pc = (pc c)(t := Idle), live = remove1 p (live c), trace = trace c @ [EvFree t p, EvTick t]\<rparr>"
      using store_inv[OF inv t(1) x(1) fs x(2) False thr put_same[OF x(1), symmetric] more_blocks_refl same_chunk_refl refl _ refl, of p]
        live t(2) by blast
    have "(pc c)(t := Idle) = pc c" using t(2) by (simp add: fun_upd_idem)
    then have "some_inv n ap z (c\<lparr>sys := s', live := remove1 p (live c), trace := trace c @ [EvFree t p, EvTick t]\<rparr>)"
      using s'(2) by (cases c) simp
    then show ?thesis using False s'(1) by (simp add: eqs)
  next
    case True
    have okfs: "fs_ok n (fs_size ?x) fs" using sets_okD(4)[OF x(2)] fs by simp
    have len: "unat (ssmem_ts_list_len (sys c)) = n" using sys_invD(2)[OF inv] by (simp add: ts_ok_def)
    have main: "some_inv n ap z (c\<lparr>sys := s', live := remove1 p (live c), pc := (pc c)(t := Collecting p v (ssmem_ts_list s'))\<rparr>)"
      if mb: "more_blocks (sys c) s'" and v: "length (snd v) = n" for v s'
    proof -
      note mbD = more_blocksD[OF mb]
      let ?pc = "Collecting p v (ssmem_ts_list s')"
      have "sys_inv n ap z (loc(p := Flight t)) \<lparr>sys = s', pc = (pc c)(t := ?pc), live = remove1 p (live c), trace = trace c @ []\<rparr>"
      proof (rule sys_inv_move[OF inv t(1), where y = ?x])
        show "allocator_mem s' = (allocator_mem (sys c))(ap t := Some ?x)" using x(1) mbD(1) by (simp add: fun_upd_idem)
        show "ts_ok n (trace c @ []) s'" by (rule ts_ok_same[OF sys_invD(2)[OF inv]]) (simp_all add: mbD)
        have "{q. (loc(p := Flight t)) q \<noteq> Absent} = {q. loc q \<noteq> Absent}" using live by auto
        moreover have "geo n ap z {q. loc q \<noteq> Absent} s'"
          by (rule geo_frame[OF sys_invD(3)[OF inv] mbD(7)]) (simp add: mbD(1))
        ultimately show "geo n ap z {q. (loc(p := Flight t)) q \<noteq> Absent} s'" by simp
        show "events_ok n (trace c @ [])" using sys_invD(12)[OF inv] by simp
        have "set (ssmem_ts_list s') = ssmem_ts_local s' ` {..<n}" using sys_invD(2)[OF inv] mbD by (simp add: ts_ok_def)
        then have "reading n (trace c) (length (trace c)) s' v (ssmem_ts_list s')"
          using v by (auto simp: reading_def)
        then show "thr_ok n (trace c @ []) t s' ?x ?pc" using thr True fs unfolding thr_ok_def by auto
        show "q \<in> set (objs ?x) \<longleftrightarrow> (loc(p := Flight t)) q = InSets t" for q using x(4)[of q] live by auto
        show "(loc(p := Flight t)) q = Flight t \<longleftrightarrow> (\<exists>v' ps. ?pc = Collecting q v' ps)" for q
          using sys_invD(5)[OF inv, of q t] t by auto
      qed (use x live sys_invD(4,13)[OF inv] mbD in auto)
      then show ?thesis unfolding some_inv_def by (cases c) auto
    qed
    have "safe_run (\<lambda>(v, s'). more_blocks (sys c) s' \<and> length (snd v) = n) (ts_set_start (ts_set fs) (sys c))"
      using okfs by (intro ts_set_start_safe len) (auto simp: fs_ok_def)
    then have "safe_run (some_inv n ap z) (bind_run (ts_set_start (ts_set fs) (sys c)) (\<lambda>(v, s).
        Ret (c\<lparr>sys := s, live := remove1 p (live c), pc := (pc c)(t := Collecting p v (ssmem_ts_list s))\<rparr>)))"
      by (rule safe_bind) (use main in auto)
    then show ?thesis using True by (simp add: eqs)
  qed
qed

section \<open>Stamping\<close>

lemma step_read:
  assumes inv: "sys_inv n ap z loc c" and en: "ss_enabled n (DoRead t) c"
  shows "safe_run (some_inv n ap z) (ss_step ap z (DoRead t) c)"
proof -
  obtain p v cur ps where t: "t < n" and pc: "pc c t = Collecting p v (cur # ps)"
    using en by (auto split: ss_pc.splits list.splits)
  note x = sys_invD(7-11)[OF inv t] and ts = sys_invD(2)[OF inv]
  let ?x = "al (sys c) (ap t)"
  obtain lo where lo: "fs_full (hd (free_set_list ?x))" "lo \<le> length (trace c)"
    "\<forall>p \<in> set (fs_objs (hd (free_set_list ?x))). \<exists>k<lo. freed_at (trace c) k t p"
    "chain n t (trace c) lo (tl (free_set_list ?x))" "reading n (trace c) lo (sys c) v (cur # ps)"
    using x(5) pc unfolding thr_ok_def by auto
  have rd: "length (snd v) = n" "set (cur # ps) \<subseteq> set (ssmem_ts_list (sys c))"
    "\<And>i. i < n \<Longrightarrow> ssmem_ts_local (sys c) i \<in> set (cur # ps) \<or>
      (\<exists>k. lo \<le> k \<and> k \<le> length (trace c) \<and> snd v ! i = Some (word_of_nat (ticks i (take k (trace c)))))"
    using lo(5) unfolding reading_def by blast+
  have "cur \<in> ssmem_ts_local (sys c) ` {..<n}" using rd(2) ts by (auto simp: ts_ok_def)
  then obtain i where i: "i < n" "cur = ssmem_ts_local (sys c) i" by auto
  have ui: "unat (word_of_nat i :: u64) = i" by (rule ts_ok_unat[OF ts i(1)])
  have cur: "ts_mem (sys c) cur = Some \<lparr>version = word_of_nat (ticks i (trace c)), ts_ident = word_of_nat i\<rparr>"
    using ts i unfolding ts_ok_def by blast
  define es where "es = (snd v)[i := Some (word_of_nat (ticks i (trace c)))]"
  have es: "ts_set_read cur (snd v) (sys c) = Ret es"
    using cur ui i(1) rd(1) by (simp add: ts_set_read_def es_def)
  have "ssmem_ts_local (sys c) j \<in> set ps \<or>
      (\<exists>k. lo \<le> k \<and> k \<le> length (trace c) \<and> es ! j = Some (word_of_nat (ticks j (take k (trace c)))))" if j: "j < n" for j
  proof (cases "j = i")
    case True
    have "es ! j = Some (word_of_nat (ticks j (take (length (trace c)) (trace c))))"
      using True i(1) rd(1) by (simp add: es_def)
    then show ?thesis using lo(2) by blast
  next
    case False
    then have "ssmem_ts_local (sys c) j \<noteq> cur" using ts_ok_inj[OF ts j i(1)] i(2) by auto
    then show ?thesis using rd(3)[OF j] False by (simp add: es_def)
  qed
  then have "reading n (trace c) lo (sys c) (fst v, es) ps"
    using rd(1,2) unfolding reading_def by (simp add: es_def)
  then have thr: "thr_ok n (trace c @ []) t (sys c) ?x (Collecting p (fst v, es) ps)"
    using x(5) lo(1-4) unfolding thr_ok_def by auto
  have "sys_inv n ap z loc \<lparr>sys = sys c, pc = (pc c)(t := Collecting p (fst v, es) ps), live = live c, trace = trace c @ []\<rparr>"
  proof (rule sys_inv_update[OF inv t, where y = ?x])
    show "allocator_mem (sys c) = (allocator_mem (sys c))(ap t := Some ?x)" using x(1) by (simp add: fun_upd_idem)
    show "loc q = Flight t \<longleftrightarrow> (\<exists>v' ps'. Collecting p (fst v, es) ps = Collecting q v' ps')" for q
      using sys_invD(5)[OF inv, of q t] t pc by auto
  qed (use x thr sys_invD[OF inv] in auto)
  then have "some_inv n ap z (c\<lparr>pc := (pc c)(t := Collecting p (fst v, es) ps)\<rparr>)"
    unfolding some_inv_def by (cases c) auto
  then show ?thesis using es by (simp add: pc)
qed

lemma step_finish:
  assumes inv: "sys_inv n ap z loc c" and en: "ss_enabled n (DoFinish t) c"
  shows "safe_run (some_inv n ap z) (ss_step ap z (DoFinish t) c)"
proof -
  obtain p v where t: "t < n" and pc: "pc c t = Collecting p v []"
    using en by (auto split: ss_pc.splits list.splits)
  note x = sys_invD(7-11)[OF inv t] and ts = sys_invD(2)[OF inv]
  let ?x = "al (sys c) (ap t)" let ?tr = "trace c"
  obtain fs rest where fs: "free_set_list ?x = fs # rest" using sets_okD(1)[OF x(2)] by (cases "free_set_list ?x") auto
  obtain lo where lo: "fs_full fs" "lo \<le> length ?tr"
    "\<forall>p \<in> set (fs_objs fs). \<exists>k<lo. freed_at ?tr k t p" "chain n t ?tr lo rest" "reading n ?tr lo (sys c) v []"
    using x(5) pc fs unfolding thr_ok_def by auto
  have st: "stamped n ?tr lo (length ?tr) (snd v)" using lo(5) by (simp add: reading_def stamped_def)
  define fs1 where "fs1 = fs\<lparr>ts_set := Some v\<rparr>"
  define x1 where "x1 = ?x\<lparr>free_set_list := fs1 # rest\<rparr>"
  let ?s1 = "put_allocator (ap t) x1 (sys c)"
  have flight: "loc p = Flight t" using sys_invD(5)[OF inv, of p t] t pc by auto
  have x1: "allocator_mem ?s1 (ap t) = Some x1" by simp
  have fs1_ok: "fs_ok n (fs_size ?x) fs1" using sets_okD(4)[OF x(2)] fs st by (simp add: fs_ok_def fs1_def stamped_def)
  have ok1: "sets_ok n x1" using x(2) fs fs1_ok by (auto simp: sets_ok_def x1_def)
  have full1: "fs_full fs1" using lo(1) by (simp add: fs_full_def fs1_def)
  have len: "unat (ssmem_ts_list_len ?s1) = n" using ts by (simp add: ts_ok_def)
  have fl1: "free_set_list x1 = fs1 # rest" by (simp add: x1_def)
  have tv: "ts_set fs1 = Some v" by (simp add: fs1_def)
  have chain1: "chain n t ?tr (length ?tr) (fs1 # rest)"
    using lo(2-4) st by (auto simp: fs1_def)
  have main: "\<exists>s'. free_set_store t (ap t) p (put_allocator (ap t) y s1) = Ret s' \<and>
      some_inv n ap z \<lparr>sys = s', pc = (pc c)(t := Idle), live = remove1 p (live c), trace = ?tr @ [EvFree t p, EvTick t]\<rparr>"
    if mb: "more_blocks ?s1 s1" and sc: "same_chunk x1 y" and oky: "sets_ok n y" and f': "fs_curr fs' = 0"
      and fy: "free_set_list y = fs' # (if newer n v rest then [fs1] else fs1 # rest)"
      and cy: "collected_set_list y = (if newer n v rest then collected_set_list x1 @ rest else collected_set_list x1)"
    for s1 y fs'
  proof -
    obtain ms bs where bs: "s1 = ?s1\<lparr>mallocs := ms, blocks := bs\<rparr>" "set (blocks ?s1) \<subseteq> set bs"
      using mb unfolding more_blocks_def by blast
    let ?s2 = "(sys c)\<lparr>mallocs := ms, blocks := bs\<rparr>"
    have eq: "put_allocator (ap t) y s1 = put_allocator (ap t) y ?s2" by (simp add: bs(1) put_allocator_def)
    have mb2: "more_blocks (sys c) ?s2" using bs(2) unfolding more_blocks_def by (intro exI[of _ ms] exI[of _ bs]) simp
    have "fs_ok n (fs_size y) fs'" "0 < fs_size y" using sets_okD(2)[OF oky] sets_okD(4)[OF oky, of fs'] fy by auto
    then have room: "\<not> fs_full fs'" using f' by (simp add: fs_full_def fs_ok_def word_less_def)
    have e': "fs_objs fs' = []" using f' by simp
    have old: "\<forall>q \<in> set (concat (map fs_objs (collected_set_list ?x))). quiesced n ?tr t q"
      using x(5) unfolding thr_ok_def by blast
    have "\<forall>q \<in> set (concat (map fs_objs (collected_set_list y))). quiesced n ?tr t q"
      using old chain_collect[OF st lo(4)] by (simp add: cy x1_def split: if_split) blast
    moreover have "chain n t ?tr (length ?tr) (tl (free_set_list y))" using chain1 fy by auto
    ultimately have thr: "thr_ok n ?tr t (sys c) y Idle" using e' fy unfolding thr_ok_def by simp
    have ch: "same_chunk ?x y" using sc by (simp add: same_chunk_def x1_def)
    have o1: "fs_objs fs1 = fs_objs fs" by (simp add: fs1_def)
    have mo: "mset (objs y) = mset (objs ?x)"
      by (simp add: objs_def fy cy e' fs o1 x1_def)
    show ?thesis unfolding eq
      by (rule store_inv[OF inv t _ fy oky room thr refl mb2 ch mo _ refl]) (use flight in simp_all)
  qed
  have "safe_run (some_inv n ap z) (bind_run (free_set_renew (ap t) ?s1) (\<lambda>s.
      bind_run (free_set_store t (ap t) p s) (\<lambda>s. Ret (c\<lparr>sys := s, pc := (pc c)(t := Idle), trace := ?tr @ [EvFree t p, EvTick t]\<rparr>))))"
  proof (rule safe_bind[OF free_set_renew_safe[OF x1 ok1 fl1 tv stamped_full[OF st] full1 chain_full[OF lo(4)] len]], assumption, elim exE conjE)
    fix s' s1 y fs' assume s': "s' = put_allocator (ap t) y s1" and h: "more_blocks ?s1 s1" "same_chunk x1 y" "sets_ok n y" "fs_curr fs' = 0"
      "free_set_list y = fs' # (if newer n v rest then [fs1] else fs1 # rest)"
      "collected_set_list y = (if newer n v rest then collected_set_list x1 @ rest else collected_set_list x1)"
    have "remove1 p (live c) = live c" using sys_invD(4)[OF inv, of p] flight by (simp add: remove1_idem)
    moreover obtain s2 where "free_set_store t (ap t) p s' = Ret s2"
      "some_inv n ap z \<lparr>sys = s2, pc = (pc c)(t := Idle), live = remove1 p (live c), trace = ?tr @ [EvFree t p, EvTick t]\<rparr>"
      using main[OF h] s' by blast
    ultimately show "safe_run (some_inv n ap z) (bind_run (free_set_store t (ap t) p s')
      (\<lambda>s. Ret (c\<lparr>sys := s, pc := (pc c)(t := Idle), trace := ?tr @ [EvFree t p, EvTick t]\<rparr>)))"
      by (cases c) simp
  qed
  then show ?thesis using pc free_set_full_eq(3)[OF x(1) fs, of v] by (simp add: x1_def fs1_def)
qed

text \<open>Progress and preservation of every enabled action.\<close>

lemma step_safe:
  assumes inv: "some_inv n ap z c" and z: "0 < z" "unat z \<le> 2 ^ 32" and en: "ss_enabled n act c"
  shows "safe_run (some_inv n ap z) (ss_step ap z act c)"
proof -
  obtain loc where l: "sys_inv n ap z loc c" using inv unfolding some_inv_def by blast
  show ?thesis
  proof (cases act)
    case (DoAlloc t) then show ?thesis using step_alloc[OF l z] en by simp
  next
    case (DoFree t p) then show ?thesis using step_free[OF l] en by simp
  next
    case (DoRead t) then show ?thesis using step_read[OF l] en by simp
  next
    case (DoFinish t) then show ?thesis using step_finish[OF l] en by simp
  next
    case (DoTick t) then show ?thesis using step_tick[OF l] en by simp
  qed
qed

lemma reach_inv:
  assumes "ss_reach n ap z c\<^sub>0 c" "some_inv n ap z c\<^sub>0" "0 < z" "unat z \<le> 2 ^ 32"
  shows "some_inv n ap z c"
  using assms
proof (induction rule: ss_reach.induct)
  case (step c act c')
  then show ?case using step_safe[of n ap z c act] by (metis safe_Ret)
qed

end
