(* ===== verification/SsmemInit.thy ===== *)
theory SsmemInit
  imports SsmemSteps
begin

text \<open>
  The registration of the threads establishes the invariant, and the sequential \<^verbatim>\<open>ssmem_free\<close> is the
  uninterrupted sequence of its parts.
\<close>

section \<open>Registration\<close>

definition init_ok :: "u64 \<Rightarrow> u64 \<Rightarrow> ssmem_allocator \<Rightarrow> bool" where
  "init_ok sz fss x \<longleftrightarrow>
     (\<exists>fs. free_set_list x = [fs] \<and> (\<forall>n. fs_ok n fss fs) \<and> fs_curr fs = 0) \<and> collected_set_list x = [] \<and>
     available_set_list x = [] \<and> released_num x = 0 \<and> fs_size x = fss \<and> mem_size x = sz \<and> mem_curr x = 0"

definition init_inv :: "(nat \<Rightarrow> u64) \<Rightarrow> u64 \<Rightarrow> u64 \<Rightarrow> nat \<Rightarrow> ssmem \<Rightarrow> bool" where
  "init_inv ap sz fss k s \<longleftrightarrow>
     ts_ok k [] s \<and> (\<forall>i. k \<le> i \<longrightarrow> ssmem_ts_local s i = 0) \<and>
     (\<forall>i<k. (ssmem_ts_local s i, 128) \<in> set (blocks s)) \<and>
     (\<forall>t<k. allocator_mem s (ap t) \<noteq> None \<and> init_ok sz fss (al s (ap t))) \<and> geo k ap 1 {} s"

lemma memalign_Some:
  assumes "memalign k n s = (p, s')" "p \<noteq> 0" "0 < n"
  shows "more_blocks s s'" "(p, n) \<in> set (blocks s')" "unat p + unat n \<le> 2 ^ 64" "\<forall>b \<in> set (blocks s). blk_disj (p, n) b"
proof -
  have "max 1 n = n" using assms(3) by (simp add: max_def word_le_nat_alt word_less_nat_alt)
  then show "more_blocks s s'" "(p, n) \<in> set (blocks s')" "unat p + unat n \<le> 2 ^ 64" "\<forall>b \<in> set (blocks s). blk_disj (p, n) b"
    using assms by (rule_tac memalign_cases[of k n s]; auto simp: blk_fits_def list_all_iff)+
qed

text \<open>What one registration does.\<close>

lemma alloc_init_Ret:
  assumes r: "ssmem_alloc_init_fs_size t a sz fss i s = Ret s'" and loc: "ssmem_ts_local s t = 0" and sz: "0 < sz"
  obtains m p fs chunks where
    "allocator_mem s' = (allocator_mem s)(a := Some ((fresh_allocator m sz fss chunks)\<lparr>ts := p, free_set_list := [fs]\<rparr>))"
    "\<And>n. fs_ok n fss fs" "fs_curr fs = 0"
    "ts_mem s' = (ts_mem s)(p := Some \<lparr>version = 0, ts_ident = word_of_int i\<rparr>)"
    "ssmem_ts_list s' = p # ssmem_ts_list s" "ssmem_ts_list_len s' = ssmem_ts_list_len s + 1"
    "ssmem_ts_local s' = (ssmem_ts_local s)(t := p)" "set (blocks s) \<subseteq> set (blocks s')" "p \<noteq> 0"
    "(m, sz) \<in> set (blocks s')" "unat m + unat sz \<le> 2 ^ 64" "\<forall>b \<in> set (blocks s). blk_disj (m, sz) b"
    "(p, 128) \<in> set (blocks s')" "\<forall>b \<in> set (blocks s). blk_disj (p, 128) b"
proof -
  define s0 where "s0 = s\<lparr>ssmem_num_allocators := (ssmem_num_allocators s)(t := ssmem_num_allocators s t + 1)\<rparr>"
  obtain l s1 where l: "ssmem_list_node_new a (ssmem_allocator_list s0 t) s0 = Ret (l, s1)"
    and r1: "bind_run (Ret (l, s1)) (\<lambda>(l, s).
      let s = s\<lparr>ssmem_allocator_list := (ssmem_allocator_list s)(t := l)\<rparr>;
          (m, s) = memalign SSMEM_LINE sz s in
      bind_run (assert_run (m \<noteq> 0) ''a->mem != NULL'') (\<lambda>_.
      bind_run (ssmem_list_node_new m [] s) (\<lambda>(chunks, s).
      bind_run (ssmem_gc_thread_init t a i (put_allocator a (fresh_allocator m sz fss chunks) s)) (\<lambda>s.
      bind_run (ssmem_free_set_new fss s) (\<lambda>(fs, s).
      bind_run (get_allocator a s) (\<lambda>x.
        Ret (put_allocator a (x\<lparr>free_set_list := [fs]\<rparr>) s))))))) = Ret s'"
    using r unfolding ssmem_alloc_init_fs_size_def Let_def s0_def[symmetric] bind_run_Ret_iff[of "ssmem_list_node_new a (ssmem_allocator_list s0 t) s0"]
    by auto
  have mb1: "more_blocks s0 s1" using safe_Ret[OF list_node_new_safe l] by auto
  define s1' where "s1' = s1\<lparr>ssmem_allocator_list := (ssmem_allocator_list s1)(t := l)\<rparr>"
  obtain m s2 where m: "memalign SSMEM_LINE sz s1' = (m, s2)" by fastforce
  have m0: "m \<noteq> 0" using r1 m by (auto simp: s1'_def[symmetric] assert_run_def)
  obtain chunks s3 where ch: "ssmem_list_node_new m [] s2 = Ret (chunks, s3)"
    and r2: "bind_run (ssmem_gc_thread_init t a i (put_allocator a (fresh_allocator m sz fss chunks) s3)) (\<lambda>s.
      bind_run (ssmem_free_set_new fss s) (\<lambda>(fs, s).
      bind_run (get_allocator a s) (\<lambda>x. Ret (put_allocator a (x\<lparr>free_set_list := [fs]\<rparr>) s)))) = Ret s'"
    using r1 m m0 by (auto simp: s1'_def[symmetric] run_simps)
  have mb3: "more_blocks s2 s3" using safe_Ret[OF list_node_new_safe ch] by auto
  note mm = memalign_Some[OF m m0 sz]
  let ?x = "fresh_allocator m sz fss chunks" let ?s3 = "put_allocator a ?x s3"
  note D1 = more_blocksD[OF mb1] and D2 = more_blocksD[OF mm(1)] and D3 = more_blocksD[OF mb3]
  have loc3: "ssmem_ts_local ?s3 t = 0" using loc D1(6) D2(6) D3(6) by (simp add: s0_def s1'_def)
  obtain p s4 where p: "memalign SSMEM_LINE 128 ?s3 = (p, s4)" by fastforce
  have x0: "?x\<lparr>ts := 0\<rparr> = ?x" by (simp add: fresh_allocator_def)
  have gi: "ssmem_gc_thread_init t a i ?s3 = bind_run (assert_run (p \<noteq> 0) ''a->ts != NULL'') (\<lambda>_.
      Ret (put_allocator a (?x\<lparr>ts := p\<rparr>) (s4\<lparr>ssmem_ts_local := (ssmem_ts_local s4)(t := p),
         ts_mem := (ts_mem s4)(p := Some \<lparr>version = 0, ts_ident = word_of_int i\<rparr>),
         ssmem_ts_list := p # ssmem_ts_list s4, ssmem_ts_list_len := ssmem_ts_list_len s4 + 1\<rparr>)))"
    using loc3 p x0 by (simp add: ssmem_gc_thread_init_def Let_def)
  have p0: "p \<noteq> 0" using r2 gi by (auto simp: assert_run_def)
  note pp = memalign_Some[OF p p0]
  define s5 where "s5 = put_allocator a (?x\<lparr>ts := p\<rparr>) (s4\<lparr>ssmem_ts_local := (ssmem_ts_local s4)(t := p),
         ts_mem := (ts_mem s4)(p := Some \<lparr>version = 0, ts_ident = word_of_int i\<rparr>),
         ssmem_ts_list := p # ssmem_ts_list s4, ssmem_ts_list_len := ssmem_ts_list_len s4 + 1\<rparr>)"
  obtain fs s6 x6 where fs: "ssmem_free_set_new fss s5 = Ret (fs, s6)" and x6: "get_allocator a s6 = Ret x6"
    and r3: "s' = put_allocator a (x6\<lparr>free_set_list := [fs]\<rparr>) s6"
    using r2 gi p0 by (auto simp: s5_def[symmetric] run_simps)
  have fsok: "more_blocks s5 s6" "fs_ok n fss fs" "fs_curr fs = 0" for n
    using safe_Ret[OF free_set_new_safe[where k = n] fs] by auto
  note D4 = more_blocksD[OF pp(1), simplified] and D6 = more_blocksD[OF fsok(1)]
  have x6': "x6 = ?x\<lparr>ts := p\<rparr>" using x6 D6(1) by (simp add: get_allocator_def s5_def)
  have sub: "set (blocks s) \<subseteq> set (blocks ?s3)" "set (blocks s1') \<subseteq> set (blocks ?s3)" "set (blocks ?s3) \<subseteq> set (blocks s')" "set (blocks s) \<subseteq> set (blocks s1')"
    "set (blocks s2) \<subseteq> set (blocks s')" "set (blocks s4) \<subseteq> set (blocks s')"
    using D1(7) D2(7) D3(7) D4(7) D6(7) r3 by (auto simp: s0_def s1'_def s5_def)
  show thesis
  proof (rule that[where ?m = m and ?p = p and ?fs = fs and ?chunks = chunks])
    show "allocator_mem s' = (allocator_mem s)(a := Some (?x\<lparr>ts := p, free_set_list := [fs]\<rparr>))"
      using r3 x6' D1(1) D2(1) D3(1) D4(1) D6(1) by (simp add: s5_def s0_def s1'_def)
    show "ts_mem s' = (ts_mem s)(p := Some \<lparr>version = 0, ts_ident = word_of_int i\<rparr>)"
      using r3 D1(2) D2(2) D3(2) D4(2) D6(2) by (simp add: s5_def s0_def s1'_def)
    show "ssmem_ts_list s' = p # ssmem_ts_list s" "ssmem_ts_list_len s' = ssmem_ts_list_len s + 1"
      "ssmem_ts_local s' = (ssmem_ts_local s)(t := p)"
      using r3 D1(4-6) D2(4-6) D3(4-6) D4(4-6) D6(4-6) by (simp_all add: s5_def s0_def s1'_def)
    show "(m, sz) \<in> set (blocks s')" using mm(2) sub(5) by blast
    show "unat m + unat sz \<le> 2 ^ 64" by (rule mm(3))
    show "\<forall>b \<in> set (blocks s). blk_disj (m, sz) b" using mm(4) sub(4) by blast
    show "(p, 128) \<in> set (blocks s')" using pp(2) sub(6) by auto
    show "\<forall>b \<in> set (blocks s). blk_disj (p, 128) b" using pp(4) sub(1) by auto
    show "set (blocks s) \<subseteq> set (blocks s')" using sub by blast
  qed (use fsok p0 in auto)
qed

lemma init_one:
  assumes inv: "init_inv ap sz fss k s" and inj: "inj_on ap {..<Suc k}" and sz: "0 < sz" "unat sz \<le> 2 ^ 33"
    and k: "Suc k < 2 ^ 32" and r: "ssmem_alloc_init_fs_size k (ap k) sz fss (int k) s = Ret s'"
  shows "init_inv ap sz fss (Suc k) s'"
proof -
  have i: "ts_ok k [] s" "\<forall>i. k \<le> i \<longrightarrow> ssmem_ts_local s i = 0" "\<forall>i<k. (ssmem_ts_local s i, 128) \<in> set (blocks s)"
    "\<forall>t<k. allocator_mem s (ap t) \<noteq> None \<and> init_ok sz fss (al s (ap t))" "geo k ap 1 {} s"
    using inv by (simp_all add: init_inv_def)
  obtain m p fs chunks where
    am: "allocator_mem s' = (allocator_mem s)(ap k := Some ((fresh_allocator m sz fss chunks)\<lparr>ts := p, free_set_list := [fs]\<rparr>))"
    and fs: "\<And>n. fs_ok n fss fs" "fs_curr fs = 0"
    and tm: "ts_mem s' = (ts_mem s)(p := Some \<lparr>version = 0, ts_ident = word_of_int (int k)\<rparr>)"
    and tl: "ssmem_ts_list s' = p # ssmem_ts_list s" "ssmem_ts_list_len s' = ssmem_ts_list_len s + 1"
      "ssmem_ts_local s' = (ssmem_ts_local s)(k := p)" and sub: "set (blocks s) \<subseteq> set (blocks s')"
    and m: "(m, sz) \<in> set (blocks s')" "unat m + unat sz \<le> 2 ^ 64" "\<forall>b \<in> set (blocks s). blk_disj (m, sz) b"
    and p: "(p, 128) \<in> set (blocks s')" "\<forall>b \<in> set (blocks s). blk_disj (p, 128) b"
    using alloc_init_Ret[OF r _ sz(1)] i(2) by (metis order_refl)
  let ?y = "(fresh_allocator m sz fss chunks)\<lparr>ts := p, free_set_list := [fs]\<rparr>"
  have alk: "al s' (ap t) = (if t = k then ?y else al s (ap t))" if "t < Suc k" for t
    using inj that am by (auto simp: inj_on_def)
  have yok: "init_ok sz fss ?y" using fs by (simp add: init_ok_def fresh_allocator_def)
  have len: "unat (ssmem_ts_list_len s') = Suc k"
    using i(1) tl(2) k by (simp add: ts_ok_def unat_word_ariths)
  have pk: "p \<noteq> ssmem_ts_local s j" if j: "j < k" for j
  proof
    assume "p = ssmem_ts_local s j"
    then have "blk_disj (p, 128) (p, 128)" using p(2) i(3) j by blast
    then show False by (simp add: blk_disj_def)
  qed
  have tsk: "ts_ok (Suc k) [] s'"
    unfolding ts_ok_def
  proof (intro conjI allI impI)
    show "set (ssmem_ts_list s') = ssmem_ts_local s' ` {..<Suc k}"
      using i(1) tl by (auto simp: ts_ok_def lessThan_Suc)
    fix j assume j: "j < Suc k"
    show "ts_mem s' (ssmem_ts_local s' j) = Some \<lparr>version = word_of_nat (ticks j []), ts_ident = word_of_nat j\<rparr>"
      using i(1) tl(3) tm pk[of j] j by (cases "j = k") (auto simp: ts_ok_def)
  qed (rule len)
  have "chunk_ok s' (al s' (ap t))" if t: "t < Suc k" for t
  proof (cases "t = k")
    case True
    then show ?thesis using alk[OF t] m sz by (simp add: chunk_ok_def fresh_allocator_def)
  next
    case False
    then show ?thesis using alk[OF t] geoD(1)[OF i(5), of t] t sub by (auto simp: chunk_ok_def)
  qed
  moreover have new: "blk_disj (m, sz) (mem (al s (ap t)), mem_size (al s (ap t)))" if "t < k" for t
    using m(3) geoD(1)[OF i(5) that] by (auto simp: chunk_ok_def)
  have "blk_disj (mem (al s' (ap t)), mem_size (al s' (ap t))) (mem (al s' (ap u)), mem_size (al s' (ap u)))"
    if "t < Suc k" "u < Suc k" "t \<noteq> u" for t u
    using alk[OF that(1)] alk[OF that(2)] new[of t] new[of u] geoD(2)[OF i(5), of t u] that blk_disj_sym
    by (cases "t = k"; cases "u = k") (auto simp: fresh_allocator_def)
  ultimately have "geo (Suc k) ap 1 {} s'" unfolding geo_def by simp
  moreover have "allocator_mem s' (ap t) \<noteq> None \<and> init_ok sz fss (al s' (ap t))" if t: "t < Suc k" for t
    using alk[OF t] i(4) yok am t by (cases "t = k") auto
  moreover have "(ssmem_ts_local s' j, 128) \<in> set (blocks s')" if "j < Suc k" for j
    using i(3) tl(3) p(1) sub that by (cases "j = k") auto
  ultimately show ?thesis using tsk i(2) tl(3) by (simp add: init_inv_def)
qed

lemma init_threads_inv:
  assumes "init_threads ap sz fss ms n = Ret s" "inj_on ap {..<n}" "0 < sz" "unat sz \<le> 2 ^ 33" "n < 2 ^ 32"
  shows "init_inv ap sz fss n s"
  using assms
proof (induction n arbitrary: s)
  case 0
  then have s: "s = ssmem_boot ms" by simp
  show ?case by (simp add: init_inv_def ts_ok_def geo_def s ssmem_boot_def)
next
  case (Suc k)
  obtain s1 where s1: "init_threads ap sz fss ms k = Ret s1"
    and r: "ssmem_alloc_init_fs_size k (ap k) sz fss (int k) s1 = Ret s"
    using Suc.prems(1) by (auto simp: run_simps)
  have "inj_on ap {..<k}" using Suc.prems(2) by (rule inj_on_subset) auto
  then have "init_inv ap sz fss k s1" using Suc.IH[OF s1] Suc.prems by simp
  then show ?case using init_one[OF _ Suc.prems(2-5) r] by blast
qed

lemma start_inv:
  assumes "init_threads ap sz fss ms n = Ret s" "inj_on ap {..<n}" "0 < sz" "unat sz \<le> 2 ^ 33" "n < 2 ^ 32" "0 < fss"
  shows "some_inv n ap z (ss_start s)"
proof -
  have i: "ts_ok n [] s" "\<forall>t<n. allocator_mem s (ap t) \<noteq> None \<and> init_ok sz fss (al s (ap t))" "geo n ap 1 {} s"
    using init_threads_inv[OF assms(1-5)] by (simp_all add: init_inv_def)
  have one: "sets_ok n (al s (ap t)) \<and> objs (al s (ap t)) = [] \<and> thr_ok n [] t s (al s (ap t)) Idle" if t: "t < n" for t
  proof -
    let ?x = "al s (ap t)"
    obtain fs where x: "free_set_list ?x = [fs]" "fs_ok n fss fs" "fs_curr fs = 0" "collected_set_list ?x = []"
      "available_set_list ?x = []" "released_num ?x = 0" "fs_size ?x = fss"
      using i(2) t unfolding init_ok_def by blast
    show ?thesis using x assms(6) by (simp add: sets_ok_def objs_def thr_ok_def)
  qed
  have "geo n ap z {} s" using i(3) by (simp add: geo_def)
  then have "sys_inv n ap z (\<lambda>_. Absent) (ss_start s)"
    using assms(2) i(1,2) one by (simp add: sys_inv_def ss_start_def events_ok_def)
  then show ?thesis unfolding some_inv_def by blast
qed

section \<open>The whole \<^verbatim>\<open>ssmem_free\<close>\<close>

text \<open>The walk of an undisturbed thread reads the version of every thread.\<close>

lemma ts_set_walk_ok:
  assumes ts: "ts_ok n tr s"
  shows "set ps \<subseteq> set (ssmem_ts_list s) \<Longrightarrow> length es = n \<Longrightarrow>
    (\<forall>i<n. ssmem_ts_local s i \<in> set ps \<or> es ! i = Some (word_of_nat (ticks i tr))) \<Longrightarrow>
    ts_set_walk ps es s = Ret (map (\<lambda>i. Some (word_of_nat (ticks i tr))) [0..<n])"
proof (induction ps arbitrary: es)
  case Nil
  have "es = map (\<lambda>i. Some (word_of_nat (ticks i tr))) [0..<n]"
    by (rule nth_equalityI) (use Nil in auto)
  then show ?case by simp
next
  case (Cons cur ps)
  have "cur \<in> ssmem_ts_local s ` {..<n}" using Cons.prems(1) ts by (auto simp: ts_ok_def)
  then obtain i where i: "i < n" "cur = ssmem_ts_local s i" by auto
  define es' where "es' = es[i := Some (word_of_nat (ticks i tr) :: u64)]"
  have "ts_mem s cur = Some \<lparr>version = word_of_nat (ticks i tr), ts_ident = word_of_nat i\<rparr>"
    using ts i unfolding ts_ok_def by blast
  then have rd: "ts_set_read cur es s = Ret es'"
    using ts_ok_unat[OF ts i(1)] i(1) Cons.prems(2) by (simp add: ts_set_read_def es'_def)
  have "ssmem_ts_local s j \<in> set ps \<or> es' ! j = Some (word_of_nat (ticks j tr))" if j: "j < n" for j
  proof (cases "j = i")
    case True
    then show ?thesis using i(1) Cons.prems(2) by (simp add: es'_def)
  next
    case False
    then have "ssmem_ts_local s j \<noteq> cur" using ts_ok_inj[OF ts j i(1)] i(2) by auto
    then show ?thesis using Cons.prems(3) j False by (auto simp: es'_def)
  qed
  then have "ts_set_walk ps es' s = Ret (map (\<lambda>i. Some (word_of_nat (ticks i tr))) [0..<n])"
    using Cons.prems(1,2) by (intro Cons.IH) (auto simp: es'_def)
  then show ?case by (simp add: rd)
qed

text \<open>The reads of a thread that is not interrupted.\<close>

fun ss_reads :: "(nat \<Rightarrow> u64) \<Rightarrow> u64 \<Rightarrow> nat \<Rightarrow> nat \<Rightarrow> ss_config \<Rightarrow> ss_config run" where
  "ss_reads ap z t 0 c = Ret c"
| "ss_reads ap z t (Suc k) c = bind_run (ss_step ap z (DoRead t) c) (ss_reads ap z t k)"

definition ss_free_alone :: "(nat \<Rightarrow> u64) \<Rightarrow> u64 \<Rightarrow> nat \<Rightarrow> u64 \<Rightarrow> ss_config \<Rightarrow> ss_config run" where
  "ss_free_alone ap z t p c =
     bind_run (ss_step ap z (DoFree t p) c) (\<lambda>c.
       case pc c t of
         Idle \<Rightarrow> Ret c
       | Collecting _ _ ps \<Rightarrow> bind_run (ss_reads ap z t (length ps) c) (ss_step ap z (DoFinish t)))"

lemma ss_reads_walk:
  assumes "pc c t = Collecting p v ps"
  shows "ss_reads ap z t (length ps) c =
    bind_run (ts_set_walk ps (snd v) (sys c)) (\<lambda>es. Ret (c\<lparr>pc := (pc c)(t := Collecting p (fst v, es) [])\<rparr>))"
  using assms
proof (induction ps arbitrary: c v)
  case Nil
  then have u: "(pc c)(t := Collecting p (fst v, snd v) []) = pc c" by (simp add: fun_upd_idem)
  show ?case unfolding list.size ss_reads.simps ts_set_walk.simps bind_run.simps u config_same ..
next
  case (Cons cur ps)
  show ?case
  proof (cases "ts_set_read cur (snd v) (sys c)")
    case (Ret es)
    let ?c = "c\<lparr>pc := (pc c)(t := Collecting p (fst v, es) ps)\<rparr>"
    have c': "?c\<lparr>pc := (pc ?c)(t := b)\<rparr> = c\<lparr>pc := (pc c)(t := b)\<rparr>" "sys ?c = sys c" for b
      by (cases c; auto simp: fun_upd_def)+
    have pc': "pc ?c t = Collecting p (fst v, es) ps" by simp
    have "ss_reads ap z t (length ps) ?c =
      bind_run (ts_set_walk ps es (sys c)) (\<lambda>es. Ret (c\<lparr>pc := (pc c)(t := Collecting p (fst v, es) [])\<rparr>))"
      using Cons.IH[OF pc'] unfolding c' fst_conv snd_conv .
    then show ?thesis using Cons.prems Ret by (simp add: fun_upd_def)
  qed (use Cons.prems in simp_all)
qed

end
