(* ===== verification/SsmemThms.thy ===== *)
theory SsmemThms
  imports SsmemInit
begin

text \<open>
  The properties of \<^verbatim>\<open>ssmem\<close>: memory is reused only after every thread has passed a safe point, objects
  do not overlap and no call goes wrong, memory is reused as soon as every thread has ticked, and two
  errors: a thread that terminates leaves its freed time stamp in the list, and the released list is read after
  it was freed. Lemmas relate the parts of \<^verbatim>\<open>ssmem_free\<close> to the whole, show that \<^verbatim>\<open>ssmem_term\<close> does not run forever, and
  that a thread must not register once another has stamped a free set.
\<close>

section \<open>A run for the witnesses\<close>

primrec ss_run :: "nat \<Rightarrow> (nat \<Rightarrow> u64) \<Rightarrow> u64 \<Rightarrow> ss_act list \<Rightarrow> ss_config \<Rightarrow> ss_config run" where
  "ss_run n ap z [] c = Ret c"
| "ss_run n ap z (a # as) c =
     (if ss_enabled n a c then bind_run (ss_step ap z a c) (ss_run n ap z as) else Abort ''disabled'')"

text \<open>Two threads, free sets of one object, and a C library that hands out pages.\<close>

definition demo_ap :: "nat \<Rightarrow> u64" where "demo_ap t = 64 * (word_of_nat t + 1)"

definition demo_mallocs :: "u64 list" where "demo_mallocs = map (\<lambda>i. 4096 * word_of_nat (Suc i)) [0..<16]"

definition demo_acts :: "ss_act list" where
  "demo_acts = [DoAlloc 0, DoAlloc 0, DoAlloc 0, DoFree 0 8192, DoTick 1, DoFree 0 8256, DoRead 0, DoRead 0, DoFinish 0,
     DoTick 1, DoFree 0 8320, DoRead 0, DoRead 0, DoFinish 0, DoAlloc 0]"

lemma ss_run_reach: "ss_run n ap z as c = Ret c' \<Longrightarrow> ss_reach n ap z c\<^sub>0 c \<Longrightarrow> ss_reach n ap z c\<^sub>0 c'"
proof (induction "as" arbitrary: c)
  case (Cons a "as")
  then show ?case by (auto simp: run_simps split: if_splits intro: ss_reach.step)
qed simp

lemma init_two: "init_threads ap sz fss ms 2 =
    bind_run (ssmem_alloc_init_fs_size 0 (ap 0) sz fss 0 (ssmem_boot ms)) (ssmem_alloc_init_fs_size 1 (ap 1) sz fss 1)"
  by (simp add: numeral_2_eq_2)

lemmas init_eval = init_two demo_ap_def demo_mallocs_def ssmem_alloc_init_fs_size_def ssmem_list_node_new_def malloc_def
  memalign_def blk_fits_def blk_disj_def assert_run_def SSMEM_LINE_def ssmem_gc_thread_init_def fresh_allocator_def
  ssmem_free_set_new_def get_allocator_def put_allocator_def ssmem_boot_def max_def upt_conv_Cons Let_def

lemmas step_eval = ssmem_alloc_def ts_get_def ssmem_free_set_make_avail_def free_set_full_def free_set_head_ts_def
  ts_set_start_def ts_set_read_def free_set_stamp_def free_set_renew_def ssmem_mem_reclaim_def reclaim_sets_def
  ssmem_ts_compare_def ssmem_free_set_get_avail_def free_set_store_def ssmem_ts_next_def

lemma two_replicate: "replicate 2 x = [x, x]"
  by (simp add: numeral_2_eq_2)

lemma two_compare: "ts_compare_loop 2 i v w =
    bind_run (ts_get v i) (\<lambda>a. bind_run (ts_get w i) (\<lambda>b. if a \<le> b then Ret False
     else bind_run (ts_get v (Suc i)) (\<lambda>a. bind_run (ts_get w (Suc i)) (\<lambda>b. if a \<le> b then Ret False else Ret True))))"
  by (simp only: numeral_2_eq_2 ts_compare_loop.simps)

lemma two_le: "\<not> (2::u64) \<le> 1"
  by (simp add: word_le_nat_alt)

lemmas two_eval = two_replicate two_compare two_le

lemma demo_inj: "inj_on demo_ap {..<2}"
proof -
  have "{..<2::nat} = {0, 1}" by auto
  then show ?thesis by (simp add: inj_on_def demo_ap_def)
qed

lemma demo_run: "\<exists>s c. init_threads demo_ap 2048 1 demo_mallocs 2 = Ret s \<and>
   ss_run 2 demo_ap 64 demo_acts (ss_start s) = Ret c \<and>
   trace c = [EvAlloc 0 8192 False, EvAlloc 0 8256 False, EvAlloc 0 8320 False, EvFree 0 8192, EvTick 0, EvTick 1,
     EvFree 0 8256, EvTick 0, EvTick 1, EvFree 0 8320, EvTick 0, EvAlloc 0 8192 True]"
  by (simp add: init_eval ss_start_def demo_acts_def step_eval two_eval)

section \<open>Reuse after quiescence\<close>

text \<open>
  C9: for threads that have all registered before the first call, with one allocator each, an initial
  chunk of at most \<open>2 ^ 33\<close> bytes and objects of one size of at most \<open>2 ^ 32\<close> bytes: whenever a thread gets an object from the memory that \<^verbatim>\<open>ssmem_free\<close> has collected, that object
  had been freed by the same thread, nothing has happened to it since, and in between every thread has
  ticked, that is called \<^verbatim>\<open>ssmem_free\<close> or \<^verbatim>\<open>SSMEM_SAFE_TO_RECLAIM\<close> and dropped its references. This holds for
  every interleaving of the threads, also while versions are being read, and when versions wrap around.
\<close>

theorem ssmem_epoch_safe:
  assumes "init_threads ap sz fss ms n = Ret s" "inj_on ap {..<n}" "0 < sz" "unat sz \<le> 2 ^ 33" "n < 2 ^ 32"
    and "0 < fss" "0 < z" "unat z \<le> 2 ^ 32" and "ss_reach n ap z (ss_start s) c"
    and tr: "trace c = xs @ EvAlloc t p True # ys"
  shows "\<exists>us vs. xs = us @ EvFree t p # vs \<and> (\<forall>i<n. EvTick i \<in> set vs) \<and> (\<forall>e \<in> set vs. \<not> about p e)"
proof -
  obtain loc where "sys_inv n ap z loc c"
    using reach_inv[OF assms(9) start_inv[OF assms(1-6)] assms(7,8)] unfolding some_inv_def by blast
  then have "quiesced n xs t p" using sys_invD(12) tr unfolding events_ok_def by blast
  then obtain k where k: "freed_at xs k t p" "\<forall>i<n. EvTick i \<in> set (drop (Suc k) xs)"
    unfolding quiesced_def by blast
  have "xs = take k xs @ EvFree t p # drop (Suc k) xs" using k(1) id_take_nth_drop[of k xs] by (simp add: freed_at_def)
  then show ?thesis using k unfolding freed_at_def by blast
qed

theorem ssmem_epoch_safe_witness:
  "\<exists>s c. init_threads demo_ap 2048 1 demo_mallocs 2 = Ret s \<and> ss_run 2 demo_ap 64 demo_acts (ss_start s) = Ret c \<and>
   (\<exists>us vs. butlast (trace c) = us @ EvFree 0 8192 # vs \<and> (\<forall>i<2. EvTick i \<in> set vs) \<and> (\<forall>e \<in> set vs. \<not> about 8192 e))"
proof -
  obtain s c where s: "init_threads demo_ap 2048 1 demo_mallocs 2 = Ret s"
    and c: "ss_run 2 demo_ap 64 demo_acts (ss_start s) = Ret c"
    and tr: "trace c = [EvAlloc 0 8192 False, EvAlloc 0 8256 False, EvAlloc 0 8320 False, EvFree 0 8192, EvTick 0, EvTick 1,
      EvFree 0 8256, EvTick 0, EvTick 1, EvFree 0 8320, EvTick 0] @ EvAlloc 0 8192 True # []"
    using demo_run by auto
  have reach: "ss_reach 2 demo_ap 64 (ss_start s) c" by (rule ss_run_reach[OF c ss_reach.start])
  have "\<exists>us vs. butlast (trace c) = us @ EvFree 0 8192 # vs \<and> (\<forall>i<2. EvTick i \<in> set vs) \<and> (\<forall>e \<in> set vs. \<not> about 8192 e)"
    using ssmem_epoch_safe[OF s demo_inj _ _ _ _ _ _ reach tr] tr by simp
  then show ?thesis using s c by blast
qed

section \<open>Objects and progress\<close>


lemma demo_two: "\<exists>s c. init_threads demo_ap 2048 1 demo_mallocs 2 = Ret s \<and>
   ss_run 2 demo_ap 64 [DoAlloc 0, DoAlloc 1, DoAlloc 0, DoFree 1 8192] (ss_start s) = Ret c \<and> length (live c) = 2"
  by (simp add: init_eval ss_start_def step_eval two_eval)


text \<open>
  Why the threads register first: the time stamps of a free set that was stamped for one thread are compared for two after
  another thread has registered, beyond their end.
\<close>

lemma late_registration:
  "bind_run (init_threads demo_ap 2048 1 demo_mallocs 1) (\<lambda>s.
   bind_run (ssmem_alloc (demo_ap 0) 64 s) (\<lambda>(p, s). bind_run (ssmem_alloc (demo_ap 0) 64 s) (\<lambda>(q, s).
   bind_run (ssmem_alloc (demo_ap 0) 64 s) (\<lambda>(r, s). bind_run (ssmem_free 0 (demo_ap 0) p s) (\<lambda>s.
   bind_run (ssmem_free 0 (demo_ap 0) q s) (\<lambda>s. bind_run (ssmem_alloc_init_fs_size 1 (demo_ap 1) 2048 1 1 s) (\<lambda>s.
   ssmem_free 0 (demo_ap 0) r s))))))) = Abort ''out of bounds''"
proof -
  have "init_threads ap sz fss ms 1 = ssmem_alloc_init_fs_size 0 (ap 0) sz fss 0 (ssmem_boot ms)" for ap sz fss ms
    by (simp add: One_nat_def)
  then show ?thesis
    by (simp add: init_eval step_eval two_eval ssmem_free_def ssmem_ts_set_collect_def)
qed

section \<open>The parts of \<^verbatim>\<open>ssmem_free\<close>\<close>

lemma bind_assoc: "bind_run (bind_run r f) g = bind_run r (\<lambda>x. bind_run (f x) g)"
  by (cases r) simp_all

lemma bind_Ret [simp]: "bind_run r Ret = r"
  by (cases r) simp_all

text \<open>
  A thread that runs the parts of \<^verbatim>\<open>ssmem_free\<close> without interruption, the stamping read by read
  included, leaves the same allocators, versions and blocks as a call of \<^verbatim>\<open>ssmem_free\<close>, or stops with it.
\<close>

lemma ssmem_free_parts:
  assumes "pc c t = Idle"
  shows "bind_run (ss_free_alone ap z t p c) (\<lambda>c'. Ret (sys c')) = ssmem_free t (ap t) p (sys c)"
proof (cases "free_set_full (ap t) (sys c)")
  case (Ret full)
  show ?thesis
  proof (cases full)
    case False
    then show ?thesis using Ret assms
      by (cases "free_set_store t (ap t) p (sys c)") (simp_all add: ss_free_alone_def ssmem_free_def)
  next
    case True
    show ?thesis
    proof (cases "free_set_head_ts (ap t) (sys c)")
      case h: (Ret w)
      show ?thesis
      proof (cases "ts_set_start w (sys c)")
        case st: (Ret r)
        obtain q es s1 where r: "r = ((q, es), s1)" by (metis surj_pair)
        define c1 where "c1 = c\<lparr>sys := s1, live := remove1 p (live c), pc := (pc c)(t := Collecting p (q, es) (ssmem_ts_list s1))\<rparr>"
        have c1: "pc c1 t = Collecting p (q, es) (ssmem_ts_list s1)" "sys c1 = s1" by (simp_all add: c1_def)
        have step: "ss_step ap z (DoFree t p) c = Ret c1" using Ret True h st r by (simp add: c1_def)
        have "ss_free_alone ap z t p c = bind_run (ts_set_walk (ssmem_ts_list s1) es s1) (\<lambda>es.
            ss_step ap z (DoFinish t) (c1\<lparr>pc := (pc c1)(t := Collecting p (q, es) [])\<rparr>))"
          using ss_reads_walk[OF c1(1)] c1 step by (simp add: ss_free_alone_def bind_assoc)
        then show ?thesis using Ret True h st r c1(2)
          by (simp add: ssmem_free_def ssmem_ts_set_collect_def bind_assoc)
      qed (use Ret True h in \<open>simp_all add: ss_free_alone_def ssmem_free_def ssmem_ts_set_collect_def\<close>)
    qed (use Ret True in \<open>simp_all add: ss_free_alone_def ssmem_free_def\<close>)
  qed
qed (simp_all add: ss_free_alone_def ssmem_free_def)

section \<open>Reuse happens\<close>

text \<open>
  C11: for threads that have all registered before the first call: when a thread frees an object while its free set
  is full, and every thread has a higher version than when the previous set was stamped, the call stops at the check of a failed
  \<^verbatim>\<open>malloc\<close>, or all sets older than the full one join the collected ones, and the next \<^verbatim>\<open>ssmem_alloc\<close> returns an object of the collected
  sets and takes no memory from the C library. So when nothing had been collected before, it is an object of
  the older sets.
\<close>

theorem ssmem_reclaims:
  assumes "init_threads ap sz fss ms n = Ret s" "inj_on ap {..<n}" "0 < sz" "unat sz \<le> 2 ^ 33" "n < 2 ^ 32"
    and "0 < fss" "0 < z" "unat z \<le> 2 ^ 32" and "ss_reach n ap z (ss_start s) c"
    and t: "t < n" "pc c t = Idle" and x: "allocator_mem (sys c) (ap t) = Some x"
    and fs: "free_set_list x = fs # g # older" "fs_full fs"
    and moved: "\<forall>i<n. \<exists>y. ts_mem (sys c) (ssmem_ts_local (sys c) i) = Some y \<and>
      the (snd (the (ts_set g)) ! i) < version y"
  shows "safe_run (\<lambda>s'. collected_set_list (al s' (ap t)) = collected_set_list x @ g # older \<and>
      (\<exists>r s''. ssmem_alloc (ap t) z s' = Ret (r, s'') \<and> blocks s'' = blocks s' \<and>
        r \<in> set (concat (map fs_objs (collected_set_list x @ g # older)))))
    (ssmem_free t (ap t) p (sys c))"
proof -
  obtain loc where l: "sys_inv n ap z loc c"
    using reach_inv[OF assms(9) start_inv[OF assms(1-6)] assms(7,8)] unfolding some_inv_def by blast
  have xal: "al (sys c) (ap t) = x" using x by simp
  note xs = sys_invD(7-11)[OF l t(1), unfolded xal] and ts = sys_invD(2)[OF l]
  let ?v = "map (\<lambda>i. Some (word_of_nat (ticks i (trace c)) :: u64)) [0..<n]"
  have "fs_ok n (fs_size x) fs" using sets_okD(4)[OF xs(2)] fs(1) by simp
  then have st: "safe_run (\<lambda>(v, s'). more_blocks (sys c) s' \<and> length (snd v) = n) (ts_set_start (ts_set fs) (sys c))"
    using ts by (intro ts_set_start_safe) (auto simp: fs_ok_def ts_ok_def)
  have ch: "chain n t (trace c) (length (trace c)) (g # older)"
    using xs(5) t(2) fs(1) by (simp add: thr_ok_def)
  have vfull: "stamps_full n ?v" by (auto simp: stamps_full_def)
  have rest: "stamps_full n (snd (the (ts_set h)))" if "h \<in> set (g # older)" for h
    by (rule chain_full[OF ch that])
  have new: "newer n (q, ?v) (g # older)" for q
  proof -
    have "the (snd (the (ts_set g)) ! j) < word_of_nat (ticks j (trace c))" if j: "j < n" for j
      using moved ts j by (auto simp: ts_ok_def)
    then show ?thesis by (simp add: newer_def)
  qed
  let ?P = "\<lambda>s'. collected_set_list (al s' (ap t)) = collected_set_list x @ g # older \<and>
      (\<exists>r s''. ssmem_alloc (ap t) z s' = Ret (r, s'') \<and> blocks s'' = blocks s' \<and>
        r \<in> set (concat (map fs_objs (collected_set_list x @ g # older))))"
  have fin: "safe_run ?P (bind_run (free_set_renew (ap t) (put_allocator (ap t) (x\<lparr>free_set_list := fs\<lparr>ts_set := Some (q, ?v)\<rparr> # g # older\<rparr>) s1))
      (free_set_store t (ap t) p))" if mb: "more_blocks (sys c) s1" for q s1
  proof -
    define fs1 where "fs1 = fs\<lparr>ts_set := Some (q, ?v)\<rparr>"
    define x1 where "x1 = x\<lparr>free_set_list := fs1 # g # older\<rparr>"
    let ?s1 = "put_allocator (ap t) x1 s1"
    note mbD = more_blocksD[OF mb]
    have "fs_ok n (fs_size x) fs1" using sets_okD(4)[OF xs(2)] fs(1) by (simp add: fs_ok_def fs1_def)
    then have ok1: "sets_ok n x1" using xs(2) fs(1) by (auto simp: sets_ok_def x1_def)
    have len: "unat (ssmem_ts_list_len ?s1) = n" using ts mbD(5) by (simp add: ts_ok_def)
    have full1: "fs_full fs1" using fs(2) by (simp add: fs_full_def fs1_def)
    have x1: "allocator_mem ?s1 (ap t) = Some x1" "free_set_list x1 = fs1 # g # older" "ts_set fs1 = Some (q, ?v)"
      by (simp_all add: x1_def fs1_def)
    have vq: "stamps_full n (snd (q, ?v))" using vfull by simp
    have "safe_run ?P (bind_run (free_set_renew (ap t) ?s1) (free_set_store t (ap t) p))"
    proof (rule safe_bind[OF free_set_renew_safe[OF x1(1) ok1 x1(2,3) vq full1 rest len]], assumption)
      fix s' assume "\<exists>s2 y fs'. s' = put_allocator (ap t) y s2 \<and> more_blocks ?s1 s2 \<and> same_chunk x1 y \<and> sets_ok n y \<and>
        fs_curr fs' = 0 \<and> free_set_list y = fs' # (if newer n (q, ?v) (g # older) then [fs1] else fs1 # g # older) \<and>
        collected_set_list y = (if newer n (q, ?v) (g # older) then collected_set_list x1 @ g # older else collected_set_list x1)"
      then obtain s2 y fs' where s': "s' = put_allocator (ap t) y s2" and mb2: "more_blocks ?s1 s2" and y: "sets_ok n y" "fs_curr fs' = 0"
        "free_set_list y = [fs', fs1]" "collected_set_list y = collected_set_list x @ g # older"
        using new[of q] by (auto simp: x1_def)
      have "fs_ok n (fs_size y) fs'" "0 < fs_size y" using sets_okD(2)[OF y(1)] sets_okD(4)[OF y(1), of fs'] y(3) by auto
      then have room: "\<not> fs_full fs'" using y(2) by (simp add: fs_full_def fs_ok_def word_less_def)
      obtain fs2 where sto: "free_set_store t (ap t) p s' = ssmem_ts_next t (put_allocator (ap t) (y\<lparr>free_set_list := [fs2, fs1]\<rparr>) s')"
        and oky: "sets_ok n (y\<lparr>free_set_list := [fs2, fs1]\<rparr>)"
        by (rule free_set_store_eq[of s' "ap t" y fs' "[fs1]" n t p]) (use s' y room in auto)
      let ?y = "y\<lparr>free_set_list := [fs2, fs1]\<rparr>" let ?s2 = "put_allocator (ap t) ?y s2"
      have "ts_ok n (trace c) ?s2"
        by (rule ts_ok_same[OF ts]) (simp_all add: mbD more_blocksD[OF mb2])
      then obtain tm where tm: "ssmem_ts_next t ?s2 = Ret (?s2\<lparr>ts_mem := tm\<rparr>)"
        using ts_next_ok[OF _ t(1) tick_one[of "[]"]] by (metis empty_iff empty_set)
      let ?s3 = "?s2\<lparr>ts_mem := tm\<rparr>"
      have a3: "allocator_mem ?s3 (ap t) = Some ?y" "collected_set_list ?y \<noteq> []" by (simp_all add: y(4))
      obtain r y' where r: "ssmem_alloc (ap t) z ?s3 = Ret (r, put_allocator (ap t) y' ?s3)"
        "mset (concat (map fs_objs (collected_set_list ?y))) = add_mset r (mset (concat (map fs_objs (collected_set_list y'))))"
        using alloc_reuse[OF a3(1) oky a3(2)] by metis
      have "r \<in> set (concat (map fs_objs (collected_set_list ?y)))" using arg_cong[OF r(2), of set_mset] by simp
      then have "r \<in> set (concat (map fs_objs (collected_set_list x @ g # older)))" by (simp add: y(4))
      moreover have "collected_set_list (al ?s3 (ap t)) = collected_set_list x @ g # older" by (simp add: y(4))
      moreover have "blocks (put_allocator (ap t) y' ?s3) = blocks ?s3" by simp
      ultimately have "?P ?s3" using r(1) by blast
      then show "safe_run ?P (free_set_store t (ap t) p s')" using sto s' tm by simp
    qed
    then show ?thesis by (simp add: x1_def fs1_def)
  qed
  have eq: "ssmem_free t (ap t) p (sys c) = bind_run (ts_set_start (ts_set fs) (sys c)) (\<lambda>((q, es), s1).
      bind_run (ts_set_walk (ssmem_ts_list s1) es s1) (\<lambda>es.
      bind_run (free_set_stamp (ap t) (q, es) s1) (\<lambda>s. bind_run (free_set_renew (ap t) s) (free_set_store t (ap t) p))))"
    using free_set_full_eq[OF x fs(1)] fs(2)
    by (simp add: ssmem_free_def ssmem_ts_set_collect_def bind_assoc case_prod_beta')
  have main: "safe_run ?P (bind_run (ts_set_walk (ssmem_ts_list s1) es s1) (\<lambda>es.
      bind_run (free_set_stamp (ap t) (q, es) s1) (\<lambda>s. bind_run (free_set_renew (ap t) s) (free_set_store t (ap t) p))))"
    if mb: "more_blocks (sys c) s1" and les: "length es = n" for q es s1
  proof -
    note mbD = more_blocksD[OF mb]
    have ts1: "ts_ok n (trace c) s1" by (rule ts_ok_same[OF ts]) (simp_all add: mbD)
    then have "ssmem_ts_local s1 i \<in> set (ssmem_ts_list s1)" if "i < n" for i using that by (auto simp: ts_ok_def)
    then have w: "ts_set_walk (ssmem_ts_list s1) es s1 = Ret ?v"
      using les by (intro ts_set_walk_ok[OF ts1]) auto
    have stm: "free_set_stamp (ap t) (q, ?v) s1 = Ret (put_allocator (ap t) (x\<lparr>free_set_list := fs\<lparr>ts_set := Some (q, ?v)\<rparr> # g # older\<rparr>) s1)"
      by (rule free_set_full_eq(3)[OF _ fs(1)]) (simp add: mbD x)
    show ?thesis using fin[OF mb, of q] by (simp add: w stm)
  qed
  show ?thesis unfolding eq by (rule safe_bind[OF st]) (use main in auto)
qed

lemma all_two: "(\<forall>i<2::nat. P i) \<longleftrightarrow> P 0 \<and> P 1"
  by (auto simp: numeral_2_eq_2 less_Suc_eq)

lemma demo_mid: "\<exists>s c. init_threads demo_ap 2048 1 demo_mallocs 2 = Ret s \<and>
   ss_run 2 demo_ap 64 (take 10 demo_acts) (ss_start s) = Ret c \<and> pc c 0 = Idle \<and>
   (\<exists>x fs g. allocator_mem (sys c) (demo_ap 0) = Some x \<and> free_set_list x = [fs, g] \<and> fs_full fs \<and>
     (\<forall>i<2. \<exists>y. ts_mem (sys c) (ssmem_ts_local (sys c) i) = Some y \<and> the (snd (the (ts_set g)) ! i) < version y) \<and>
     collected_set_list x = [] \<and> fs_objs g = [8192] \<and> (\<exists>s'. ssmem_free 0 (demo_ap 0) 8320 (sys c) = Ret s'))"
  by (simp add: init_eval ss_start_def demo_acts_def step_eval two_eval all_two fs_full_def ssmem_free_def ssmem_ts_set_collect_def fs_objs_def)

theorem ssmem_reclaims_witness:
  "\<exists>s c s' s''. init_threads demo_ap 2048 1 demo_mallocs 2 = Ret s \<and>
   ss_run 2 demo_ap 64 (take 10 demo_acts) (ss_start s) = Ret c \<and>
   ssmem_free 0 (demo_ap 0) 8320 (sys c) = Ret s' \<and> ssmem_alloc (demo_ap 0) 64 s' = Ret (8192, s'') \<and> blocks s'' = blocks s'"
proof -
  obtain s c x fs g s' where s: "init_threads demo_ap 2048 1 demo_mallocs 2 = Ret s"
    and c: "ss_run 2 demo_ap 64 (take 10 demo_acts) (ss_start s) = Ret c" "pc c 0 = Idle"
    and x: "allocator_mem (sys c) (demo_ap 0) = Some x" "free_set_list x = [fs, g]" "fs_full fs"
    and m: "\<forall>i<2. \<exists>y. ts_mem (sys c) (ssmem_ts_local (sys c) i) = Some y \<and> the (snd (the (ts_set g)) ! i) < version y"
    and g: "collected_set_list x = []" "fs_objs g = [8192]" and s': "ssmem_free 0 (demo_ap 0) 8320 (sys c) = Ret s'"
    using demo_mid by blast
  have reach: "ss_reach 2 demo_ap 64 (ss_start s) c" by (rule ss_run_reach[OF c(1) ss_reach.start])
  have "\<exists>r s''. ssmem_alloc (demo_ap 0) 64 s' = Ret (r, s'') \<and> blocks s'' = blocks s' \<and>
      r \<in> set (concat (map fs_objs (collected_set_list x @ [g])))"
    using ssmem_reclaims[OF s demo_inj _ _ _ _ _ _ reach _ c(2) x m, of 8320] s' by simp
  then show ?thesis using s c s' unfolding g(1) by (simp add: g(2))
qed

section \<open>Termination\<close>

text \<open>The calls of \<^verbatim>\<open>free\<close> change only the blocks and the stores of what is freed.\<close>

definition only_frees :: "ssmem \<Rightarrow> ssmem \<Rightarrow> bool" where
  "only_frees s s' \<longleftrightarrow> length (blocks s') \<le> length (blocks s) \<and> ssmem_allocator_list s' = ssmem_allocator_list s \<and>
     ssmem_ts_list s' = ssmem_ts_list s \<and> (\<forall>p. ts_mem s p = None \<longrightarrow> ts_mem s' p = None)"

lemma only_frees_refl [simp]: "only_frees s s"
  by (simp add: only_frees_def)

lemma only_frees_trans: "only_frees s s' \<Longrightarrow> only_frees s' s'' \<Longrightarrow> only_frees s s''"
  by (auto simp: only_frees_def)

lemma libc_free_frees:
  "run_post (\<lambda>s'. only_frees s s' \<and> rel_mem s' = rel_mem s \<and> (p \<noteq> 0 \<longrightarrow> length (blocks s') < length (blocks s))) True (libc_free p s)"
proof -
  have "length (filter (\<lambda>b. fst b \<noteq> p) (blocks s)) < length (blocks s)" if p: "p \<in> fst ` set (blocks s)"
  proof -
    obtain b where "b \<in> set (blocks s)" "fst b = p" using p by auto
    then show ?thesis by (intro length_filter_less) auto
  qed
  then show ?thesis by (auto simp: libc_free_def only_frees_def)
qed

lemma frees_bind:
  assumes "run_post (only_frees s) True r" "\<And>s'. run_post (only_frees s') True (f s')"
  shows "run_post (only_frees s) True (bind_run r f)"
proof (rule run_post_bind[OF assms(1)])
  fix s' assume "only_frees s s'"
  then show "run_post (only_frees s) True (f s')"
    using only_frees_trans by (intro run_post_mono[OF assms(2)]) blast+
qed

lemma libc_free_only: "run_post (only_frees s) True (libc_free p s)"
  by (rule run_post_mono[OF libc_free_frees]) simp_all

lemma free_chunks_only: "run_post (only_frees s) True (free_chunks cs s)"
  by (induction cs arbitrary: s) (auto intro!: frees_bind libc_free_only)

lemma free_sets_only: "run_post (only_frees s) True (free_sets fss s)"
  by (induction fss arbitrary: s) (auto simp: ssmem_free_set_free_def intro!: frees_bind libc_free_only)

lemma free_ts_only: "run_post (\<lambda>s'. only_frees s s' \<and> ts_mem s' p = None) True (free_ts p s)"
  unfolding free_ts_def
  by (rule run_post_bind[OF libc_free_only[of s p]]) (auto simp: only_frees_def)

lemma free_released_only:
  "length (blocks s) < fuel \<Longrightarrow> run_post (only_frees s) True (free_released fuel rel s)"
proof (induction fuel arbitrary: rel s)
  case (Suc fuel)
  show ?case
  proof (cases "rel = 0 \<or> rel_mem s rel = None")
    case True
    then show ?thesis by (auto simp: get_rel_def)
  next
    case False
    then obtain r where r: "rel_mem s rel = Some r" and rel: "rel \<noteq> 0" by auto
    have "run_post (only_frees s) True (bind_run (libc_free (rel_obj r) s) (\<lambda>s.
        bind_run (free_rel rel s) (free_released fuel (rel_next r))))"
    proof (rule run_post_bind[OF libc_free_only])
      fix s1 assume s1: "only_frees s s1"
      show "run_post (only_frees s) True (bind_run (free_rel rel s1) (free_released fuel (rel_next r)))"
        unfolding free_rel_def bind_assoc
      proof (rule run_post_bind[OF libc_free_frees])
        fix s2 assume s2: "only_frees s1 s2 \<and> rel_mem s2 = rel_mem s1 \<and> (rel \<noteq> 0 \<longrightarrow> length (blocks s2) < length (blocks s1))"
        let ?s2 = "s2\<lparr>rel_mem := (rel_mem s2)(rel := None)\<rparr>"
        have "only_frees s s2" by (rule only_frees_trans[OF s1]) (use s2 in blast)
        then have f: "only_frees s ?s2" by (simp add: only_frees_def)
        have "length (blocks ?s2) < fuel" using Suc.prems s1 s2 rel by (simp add: only_frees_def)
        then have post: "run_post (only_frees ?s2) True (free_released fuel (rel_next r) ?s2)" by (rule Suc.IH)
        have "run_post (only_frees s) True (free_released fuel (rel_next r) ?s2)"
          by (rule run_post_mono[OF post]) (rule only_frees_trans[OF f], assumption+)
        then show "run_post (only_frees s) True (bind_run (Ret ?s2) (free_released fuel (rel_next r)))"
          unfolding bind_run.simps .
      qed
    qed
    then show ?thesis using r rel by (simp add: get_rel_def)
  qed
qed simp

lemma alloc_term_post:
  "run_post (\<lambda>s'. ssmem_allocator_list s' t = unlink a (ssmem_allocator_list s t) \<and> ssmem_ts_list s' = ssmem_ts_list s \<and>
     (ssmem_num_allocators s t = 1 \<longrightarrow> (\<exists>x. allocator_mem s a = Some x \<and> ts_mem s' (ts x) = None))) True (ssmem_alloc_term t a s)"
proof (cases "allocator_mem s a")
  case None
  then show ?thesis by (simp add: ssmem_alloc_term_def get_allocator_def)
next
  case (Some x)
  have frame: "run_post (\<lambda>s'. ssmem_num_allocators s' = ssmem_num_allocators s) True (free_chunks cs s)" for cs s
  proof (induction cs arbitrary: s)
    case (Cons c cs)
    have one: "run_post (\<lambda>s'. ssmem_num_allocators s' = ssmem_num_allocators s) True (libc_free p s)" for p s
      by (simp add: libc_free_def)
    show ?case
      by simp (rule run_post_bind[OF one], rule run_post_bind[OF one], rule run_post_mono[OF Cons.IH], auto)
  qed simp
  let ?n = "\<lambda>s. ssmem_num_allocators s t - 1"
  let ?u = "\<lambda>s. s\<lparr>ssmem_allocator_list := (ssmem_allocator_list s)(t := unlink a (ssmem_allocator_list s t)),
               ssmem_num_allocators := (ssmem_num_allocators s)(t := ?n s)\<rparr>"
  let ?tail = "\<lambda>s. bind_run (free_sets (free_set_list x) s) (\<lambda>s. bind_run (free_sets (collected_set_list x) s) (\<lambda>s.
     bind_run (free_sets (available_set_list x) s) (\<lambda>s. free_released (Suc (length (blocks s))) (released_mem_list x) s)))"
  have tail: "run_post (only_frees s) True (?tail s)" for s
    by (intro frees_bind free_sets_only free_released_only) simp
  have rest: "run_post (\<lambda>s'. ssmem_allocator_list s' = ssmem_allocator_list s \<and> ssmem_ts_list s' = ssmem_ts_list s \<and>
      (b \<longrightarrow> ts_mem s' (ts x) = None)) True (bind_run (if b then free_ts (ts x) s else Ret s) ?tail)" for b s
  proof (rule run_post_bind)
    show "run_post (\<lambda>s'. only_frees s s' \<and> (b \<longrightarrow> ts_mem s' (ts x) = None)) True (if b then free_ts (ts x) s else Ret s)"
      using free_ts_only[of s "ts x"] by simp
    fix s1 assume s1: "only_frees s s1 \<and> (b \<longrightarrow> ts_mem s1 (ts x) = None)"
    show "run_post (\<lambda>s'. ssmem_allocator_list s' = ssmem_allocator_list s \<and> ssmem_ts_list s' = ssmem_ts_list s \<and>
      (b \<longrightarrow> ts_mem s' (ts x) = None)) True (?tail s1)"
      by (rule run_post_mono[OF tail]) (use s1 in \<open>auto simp: only_frees_def\<close>)
  qed
  have eq: "ssmem_alloc_term t a s = (if mem_chunks x = [] then Abort ''NULL chunk'' else
     bind_run (free_chunks (mem_chunks x) s) (\<lambda>s. bind_run (if ?n s = 0 then free_ts (ts x) (?u s) else Ret (?u s)) ?tail))"
    using Some by (simp add: ssmem_alloc_term_def get_allocator_def Let_def assert_run_def)
  have chunks: "run_post (\<lambda>s1. only_frees s s1 \<and> ssmem_num_allocators s1 = ssmem_num_allocators s) True (free_chunks (mem_chunks x) s)"
    using free_chunks_only[of s "mem_chunks x"] frame[of s "mem_chunks x"] by (cases "free_chunks (mem_chunks x) s") auto
  have "run_post (\<lambda>s'. ssmem_allocator_list s' t = unlink a (ssmem_allocator_list s t) \<and> ssmem_ts_list s' = ssmem_ts_list s \<and>
     (ssmem_num_allocators s t = 1 \<longrightarrow> ts_mem s' (ts x) = None)) True
     (bind_run (free_chunks (mem_chunks x) s) (\<lambda>s. bind_run (if ?n s = 0 then free_ts (ts x) (?u s) else Ret (?u s)) ?tail))"
  proof (rule run_post_bind[OF chunks])
    fix s1 assume s1: "only_frees s s1 \<and> ssmem_num_allocators s1 = ssmem_num_allocators s"
    show "run_post (\<lambda>s'. ssmem_allocator_list s' t = unlink a (ssmem_allocator_list s t) \<and> ssmem_ts_list s' = ssmem_ts_list s \<and>
     (ssmem_num_allocators s t = 1 \<longrightarrow> ts_mem s' (ts x) = None)) True
     (bind_run (if ?n s1 = 0 then free_ts (ts x) (?u s1) else Ret (?u s1)) ?tail)"
      by (rule run_post_mono[OF rest[of "?u s1" "?n s1 = 0"]]) (use s1 in \<open>auto simp: only_frees_def\<close>)
  qed
  then show ?thesis unfolding eq using Some by simp
qed

text \<open>
  \<^verbatim>\<open>ssmem_term\<close> does not run forever, whatever the lists of the allocators contain, and when it
  returns the list of the allocators of the thread is empty.
\<close>

lemma ssmem_term_ends: "run_post (\<lambda>s'. ssmem_allocator_list s' t = []) True (ssmem_term t s)"
proof -
  have "run_post (\<lambda>s'. ssmem_allocator_list s' t = []) True (term_loop (Suc k) t s)"
    if "length (ssmem_allocator_list s t) = k" for k
    using that
  proof (induction k arbitrary: s)
    case (Suc k)
    obtain c cs where cs: "ssmem_allocator_list s t = c # cs" using Suc.prems by (cases "ssmem_allocator_list s t") auto
    have "run_post (\<lambda>s'. ssmem_allocator_list s' t = []) True (bind_run (ssmem_alloc_term t (snd c) s) (term_loop (Suc k) t))"
      by (rule run_post_bind[OF alloc_term_post]) (use Suc cs in auto)
    then show ?case using cs by simp
  qed simp
  then show ?thesis by (simp add: ssmem_term_def)
qed

lemma walk_dangling:
  "p \<in> set ps \<Longrightarrow> ts_mem s p = None \<Longrightarrow> \<exists>m. ts_set_walk ps es s = Abort m"
  by (induction ps arbitrary: es) (auto simp: ts_set_read_def split: option.splits)

text \<open>
  C12: \<^verbatim>\<open>ssmem_alloc_term\<close> of the last allocator of a thread frees the time stamp of the thread but
  leaves it in \<^verbatim>\<open>ssmem_ts_list\<close>. When the call has returned, the next stamping of a free set that has its array, by any
  thread, runs into the freed time stamp and does not return.
\<close>

theorem ssmem_term_dangles:
  assumes "ssmem_alloc_term t a s = Ret s'" "allocator_mem s a = Some x" "ssmem_num_allocators s t = 1"
    and "ts x \<in> set (ssmem_ts_list s)"
  shows "ts x \<in> set (ssmem_ts_list s') \<and> ts_mem s' (ts x) = None \<and> (\<exists>m. ssmem_ts_set_collect (Some v) s' = Abort m)"
proof -
  have p: "ts_mem s' (ts x) = None" "ssmem_ts_list s' = ssmem_ts_list s"
    using alloc_term_post[of t a s] assms(1-3) by auto
  obtain m where "ts_set_walk (ssmem_ts_list s') (snd v) s' = Abort m"
    using walk_dangling[of "ts x" "ssmem_ts_list s'" s' "snd v"] p assms(4) by auto
  then show ?thesis using p assms(4) by (cases v) (simp add: ssmem_ts_set_collect_def ts_set_start_def)
qed

lemma demo_term: "\<exists>s s' x. init_threads demo_ap 2048 1 demo_mallocs 2 = Ret s \<and> ssmem_alloc_term 1 (demo_ap 1) s = Ret s' \<and>
    allocator_mem s (demo_ap 1) = Some x \<and> ssmem_num_allocators s 1 = 1 \<and> ts x \<in> set (ssmem_ts_list s)"
  by (simp add: init_eval ssmem_alloc_term_def ssmem_free_set_free_def libc_free_def free_ts_def)

theorem ssmem_term_dangles_witness:
  "\<exists>s s' m. init_threads demo_ap 2048 1 demo_mallocs 2 = Ret s \<and> ssmem_alloc_term 1 (demo_ap 1) s = Ret s' \<and>
     ssmem_ts_set_collect (Some (0, [Some 0, Some 0])) s' = Abort m"
proof -
  obtain s s' x where s: "init_threads demo_ap 2048 1 demo_mallocs 2 = Ret s" "ssmem_alloc_term 1 (demo_ap 1) s = Ret s'"
    "allocator_mem s (demo_ap 1) = Some x" "ssmem_num_allocators s 1 = 1" "ts x \<in> set (ssmem_ts_list s)"
    using demo_term by blast
  show ?thesis using ssmem_term_dangles[OF s(2-5), of "(0, [Some 0, Some 0])"] s(1,2) by blast
qed

section \<open>Released memory\<close>

lemma libc_free_live:
  assumes "p \<in> fst ` set (blocks s)" "q \<in> fst ` set (blocks s)" "p \<noteq> q"
  shows "\<exists>s'. libc_free p s = Ret s' \<and> q \<in> fst ` set (blocks s')"
  using assms by (cases "p = 0") (force simp: libc_free_def)+

text \<open>
  C13: when \<^verbatim>\<open>ssmem_mem_reclaim\<close> finds that the memory released before the last release can go back to the
  C library, it frees a node of the list and then reads the link of that node: the call never returns
  from a correct execution.
\<close>

theorem ssmem_release_uaf:
  assumes x: "allocator_mem s a = Some x" "0 < released_num x"
    and cur: "rel_mem s (released_mem_list x) = Some cur" "rel_next cur \<noteq> 0" "rel_next cur \<noteq> released_mem_list x"
    and nxt: "rel_mem s (rel_next cur) = Some nxt" "ssmem_ts_compare (rel_ts_set cur) (rel_ts_set nxt) s = Ret True"
    and live: "rel_obj nxt \<in> fst ` set (blocks s)" "rel_next cur \<in> fst ` set (blocks s)" "rel_obj nxt \<noteq> rel_next cur"
  shows "ssmem_mem_reclaim a s = Abort ''use after free''"
proof -
  let ?s = "put_allocator a (x\<lparr>released_num := 1\<rparr>)
      (s\<lparr>rel_mem := (rel_mem s)(released_mem_list x := Some (cur\<lparr>rel_next := 0\<rparr>))\<rparr>)"
  have nx: "get_rel (rel_next cur) ?s = Ret nxt" using nxt(1) cur(3) by (simp add: get_rel_def put_allocator_def)
  have "rel_obj nxt \<in> fst ` set (blocks ?s)" "rel_next cur \<in> fst ` set (blocks ?s)" using live by simp_all
  then obtain s1 where s1: "libc_free (rel_obj nxt) ?s = Ret s1" "rel_next cur \<in> fst ` set (blocks s1)"
    using libc_free_live live(3) by blast
  obtain s2 where s2: "free_rel (rel_next cur) s1 = Ret s2" "rel_mem s2 (rel_next cur) = None"
    using s1(2) cur(2) by (simp add: free_rel_def libc_free_def)
  have "free_released_loop (Suc (length (blocks s))) (rel_next cur) ?s = Abort ''use after free''"
    using nx s1(1) s2 by (simp add: get_rel_def)
  then have "reclaim_released a s = Abort ''use after free''"
    using cur(1,2) nxt x(1) by (simp add: reclaim_released_def get_allocator_def get_rel_def)
  then show ?thesis using x by (simp add: ssmem_mem_reclaim_def get_allocator_def)
qed

definition demo_released :: ssmem where
  "demo_released = (ssmem_boot [])\<lparr>blocks := [(4096, 32), (8192, 32), (12288, 64), (16384, 64)],
     ssmem_ts_list_len := 1,
     rel_mem := [4096 \<mapsto> \<lparr>rel_ts_set = [Some 2], rel_obj = 12288, rel_next = 8192\<rparr>,
                 8192 \<mapsto> \<lparr>rel_ts_set = [Some 1], rel_obj = 16384, rel_next = 0\<rparr>],
     allocator_mem := [64 \<mapsto> (fresh_allocator 0 0 1 [])\<lparr>released_num := 2, released_mem_list := 4096\<rparr>]\<rparr>"

theorem ssmem_release_uaf_witness: "ssmem_mem_reclaim 64 demo_released = Abort ''use after free''"
  by (rule ssmem_release_uaf[where x = "(fresh_allocator 0 0 1 [])\<lparr>released_num := 2, released_mem_list := 4096\<rparr>"])
     (auto simp: demo_released_def fresh_allocator_def ssmem_boot_def ssmem_ts_compare_def ts_get_def two_le)

end
