(* ===== verification/Spec2Isabelle.thy ===== *)
theory Spec2Isabelle
  imports RallocThms ClhtHelp SsmemThms
begin

text \<open>
  A verification development for a repository of persistent-memory experiments: the allocator
  \<^verbatim>\<open>ralloc\<close> and the recoverable indexes of \<^verbatim>\<open>RECIPE\<close>.

  Theories so far:
  \<^item> \<open>Prelude\<close>: C integer types, outcomes of C routines, word lemmas;
  \<^item> \<open>Pptr\<close>: \<^verbatim>\<open>ralloc/src/pptr.hpp\<close>;
  \<^item> \<open>SizeClass\<close>: \<^verbatim>\<open>ralloc/src/SizeClass.hpp\<close>, \<^verbatim>\<open>SizeClass.cpp\<close>;
  \<^item> \<open>CrossPtr\<close>: the cross-region pointers of \<^verbatim>\<open>ralloc/src/BaseMeta.hpp\<close>;
  \<^item> \<open>Region\<close>: \<^verbatim>\<open>ralloc/src/RegionManager.hpp\<close>, \<^verbatim>\<open>RegionManager.cpp\<close>.
\<close>

end
